(* ===== verification/PB_Prelude.thy ===== *)
theory PB_Prelude
  imports Main "HOL-Library.Word" "HOL-Library.Monad_Syntax"
begin

text \<open>
  Shared vocabulary of the development: the machine integer types of the Rust code, the
  standard-library arithmetic the code calls (checked, saturating, absolute difference), and
  the generic lemmas on options, sums, lists and words that the component theories share.
  A Rust \<open>Result\<close> is a sum \<open>error + value\<close>; an operation that can abort the process (an
  arithmetic overflow under \<open>overflow-checks = true\<close>) returns an \<open>option\<close> around it, where
  \<open>None\<close> is the abort.
\<close>

section \<open>Machine integers\<close>

type_synonym u8 = "8 word"
type_synonym u32 = "32 word"
type_synonym u64 = "64 word"
type_synonym u128 = "128 word"

named_theorems arith_defs \<open>definitions of the standard-library integer operations\<close>
named_theorems word_nat \<open>facts that move word statements to natural numbers\<close>

definition checked_add :: "'a::len word \<Rightarrow> 'a word \<Rightarrow> 'a word option" where
  [arith_defs]: "checked_add a b = (if unat a + unat b < 2 ^ LENGTH('a) then Some (a + b) else None)"

definition checked_sub :: "'a::len word \<Rightarrow> 'a word \<Rightarrow> 'a word option" where
  [arith_defs]: "checked_sub a b = (if b \<le> a then Some (a - b) else None)"

definition checked_mul :: "'a::len word \<Rightarrow> 'a word \<Rightarrow> 'a word option" where
  [arith_defs]: "checked_mul a b = (if unat a * unat b < 2 ^ LENGTH('a) then Some (a * b) else None)"

definition saturating_add :: "'a::len word \<Rightarrow> 'a word \<Rightarrow> 'a word" where
  [arith_defs]: "saturating_add a b = (if unat a + unat b < 2 ^ LENGTH('a) then a + b else - 1)"

definition saturating_sub :: "'a::len word \<Rightarrow> 'a word \<Rightarrow> 'a word" where
  [arith_defs]: "saturating_sub a b = (if b \<le> a then a - b else 0)"

definition saturating_mul :: "'a::len word \<Rightarrow> 'a word \<Rightarrow> 'a word" where
  [arith_defs]: "saturating_mul a b = (if unat a * unat b < 2 ^ LENGTH('a) then a * b else - 1)"

definition abs_diff :: "'a::len word \<Rightarrow> 'a word \<Rightarrow> 'a word" where
  [arith_defs]: "abs_diff a b = (if a \<le> b then b - a else a - b)"

text \<open>Evaluation goes through binary integers.\<close>

lemma arith_code [code]:
  fixes a b :: "'a::len word"
  shows "checked_add a b = (if uint a + uint b < 2 ^ LENGTH('a) then Some (a + b) else None)"
    and "checked_mul a b = (if uint a * uint b < 2 ^ LENGTH('a) then Some (a * b) else None)"
    and "saturating_add a b = (if uint a + uint b < 2 ^ LENGTH('a) then a + b else - 1)"
    and "saturating_mul a b = (if uint a * uint b < 2 ^ LENGTH('a) then a * b else - 1)"
proof -
  have p: "(2::int) ^ LENGTH('a) = int (2 ^ LENGTH('a))" by simp
  have "uint a + uint b = int (unat a + unat b)" "uint a * uint b = int (unat a * unat b)"
    by simp_all
  then have "unat a + unat b < 2 ^ LENGTH('a) \<longleftrightarrow> uint a + uint b < 2 ^ LENGTH('a)"
    and "unat a * unat b < 2 ^ LENGTH('a) \<longleftrightarrow> uint a * uint b < 2 ^ LENGTH('a)"
    unfolding p by (simp_all only: of_nat_less_iff)
  then show "checked_add a b = (if uint a + uint b < 2 ^ LENGTH('a) then Some (a + b) else None)"
    "checked_mul a b = (if uint a * uint b < 2 ^ LENGTH('a) then Some (a * b) else None)"
    "saturating_add a b = (if uint a + uint b < 2 ^ LENGTH('a) then a + b else - 1)"
    "saturating_mul a b = (if uint a * uint b < 2 ^ LENGTH('a) then a * b else - 1)"
    by (simp_all add: arith_defs)
qed

lemma unat_add_small [word_nat]:
  fixes a b :: "'a::len word"
  shows "unat a + unat b < 2 ^ LENGTH('a) \<Longrightarrow> unat (a + b) = unat a + unat b"
  by (simp add: unat_word_ariths)

lemma unat_mul_small [word_nat]:
  fixes a b :: "'a::len word"
  shows "unat a * unat b < 2 ^ LENGTH('a) \<Longrightarrow> unat (a * b) = unat a * unat b"
  by (simp add: unat_word_ariths)

lemma unat_sub_small [word_nat]:
  fixes a b :: "'a::len word"
  shows "b \<le> a \<Longrightarrow> unat (a - b) = unat a - unat b"
  by (rule unat_sub)

lemma checked_add_eq_Some:
  fixes a b c :: "'a::len word"
  shows "checked_add a b = Some c \<longleftrightarrow> unat c = unat a + unat b"
proof
  assume "checked_add a b = Some c"
  then show "unat c = unat a + unat b"
    by (auto simp: checked_add_def word_nat split: if_splits)
next
  assume c: "unat c = unat a + unat b"
  then have small: "unat a + unat b < 2 ^ LENGTH('a)"
    by (metis unsigned_less)
  with c have "c = a + b"
    by (metis unat_add_small word_unat_eq_iff)
  with small show "checked_add a b = Some c"
    by (simp add: checked_add_def)
qed

lemma checked_add_eq_None:
  fixes a b :: "'a::len word"
  shows "checked_add a b = None \<longleftrightarrow> 2 ^ LENGTH('a) \<le> unat a + unat b"
  by (auto simp: checked_add_def)

lemma checked_sub_eq_Some:
  fixes a b c :: "'a::len word"
  shows "checked_sub a b = Some c \<longleftrightarrow> unat a = unat b + unat c"
proof
  assume "checked_sub a b = Some c"
  then show "unat a = unat b + unat c"
    by (auto simp: checked_sub_def word_nat word_le_nat_alt split: if_splits)
next
  assume "unat a = unat b + unat c"
  then have le: "b \<le> a" and "unat c = unat (a - b)"
    by (auto simp: word_le_nat_alt word_nat)
  then have "c = a - b" by (simp add: word_unat_eq_iff)
  with le have "b \<le> a" "c = a - b" by auto
  then show "checked_sub a b = Some c"
    by (simp add: checked_sub_def)
qed

lemma checked_sub_eq_None:
  fixes a b :: "'a::len word"
  shows "checked_sub a b = None \<longleftrightarrow> unat a < unat b"
  by (auto simp: checked_sub_def word_le_nat_alt)

lemma checked_mul_eq_Some:
  fixes a b c :: "'a::len word"
  shows "checked_mul a b = Some c \<longleftrightarrow> unat c = unat a * unat b"
proof
  assume "checked_mul a b = Some c"
  then show "unat c = unat a * unat b"
    by (auto simp: checked_mul_def word_nat split: if_splits)
next
  assume c: "unat c = unat a * unat b"
  then have small: "unat a * unat b < 2 ^ LENGTH('a)"
    by (metis unsigned_less)
  with c have "c = a * b"
    by (metis unat_mul_small word_unat_eq_iff)
  with small show "checked_mul a b = Some c"
    by (simp add: checked_mul_def)
qed

lemma checked_mul_eq_None:
  fixes a b :: "'a::len word"
  shows "checked_mul a b = None \<longleftrightarrow> 2 ^ LENGTH('a) \<le> unat a * unat b"
  by (auto simp: checked_mul_def)

lemmas checked_iffs =
  checked_add_eq_Some checked_add_eq_None checked_sub_eq_Some checked_sub_eq_None
  checked_mul_eq_Some checked_mul_eq_None

lemma unat_max_word: "unat (- 1 :: 'a::len word) = 2 ^ LENGTH('a) - 1"
  by (simp add: unsigned_minus_1_eq_mask mask_eq_exp_minus_1)

lemma unat_saturating_sub: "unat (saturating_sub a b) = unat a - unat b"
  by (auto simp: saturating_sub_def word_nat word_le_nat_alt)

lemma unat_abs_diff:
  "unat (abs_diff a b) = (if a \<le> b then unat b - unat a else unat a - unat b)"
  by (simp add: abs_diff_def unat_sub_small)

lemma min_pred_nat: "n \<le> m \<Longrightarrow> min m (n - 1) = n - (1::nat)"
  unfolding min_def by arith

lemma min_less_nat: "m < n \<Longrightarrow> min m (n - 1) = (m::nat)"
  by (simp add: min_def)

lemma unat_saturating_mul:
  fixes a b :: "'a::len word"
  shows "unat (saturating_mul a b) = min (unat a * unat b) (2 ^ LENGTH('a) - 1)"
  by (simp add: saturating_mul_def unat_mul_small unat_max_word min_pred_nat min_less_nat not_less)

lemma unat_saturating_add:
  fixes a b :: "'a::len word"
  shows "unat (saturating_add a b) = min (unat a + unat b) (2 ^ LENGTH('a) - 1)"
  by (simp add: saturating_add_def unat_add_small unat_max_word min_pred_nat min_less_nat not_less)

lemma unat_of_nat_small: "n < 2 ^ LENGTH('a) \<Longrightarrow> unat (of_nat n :: 'a::len word) = n"
  by (simp add: of_nat_inverse)

lemma unat_ucast_take_bit: "unat (ucast (w :: 'a::len word) :: 'b::len word) = take_bit LENGTH('b) (unat w)"
  by (simp add: unsigned_ucast_eq unsigned_take_bit_eq)

lemma unat_ucast_up:
  fixes w :: "'a::len word"
  assumes "LENGTH('a) \<le> LENGTH('b)"
  shows "unat (ucast w :: 'b::len word) = unat w"
proof -
  have "unat w < 2 ^ LENGTH('a)" by (rule unsigned_less)
  also have "(2::nat) ^ LENGTH('a) \<le> 2 ^ LENGTH('b)" using assms by simp
  finally show ?thesis by (simp add: unat_ucast_take_bit take_bit_nat_eq_self)
qed

lemma ucast_up_down [simp]:
  fixes w :: "'a::len word"
  assumes "LENGTH('a) \<le> LENGTH('b)"
  shows "ucast (ucast w :: 'b::len word) = w"
proof -
  have "unat (ucast (ucast w :: 'b word) :: 'a word) = unat w"
    using unsigned_less [of w, where ?'a = nat] assms
    by (simp add: unat_ucast_take_bit min_absorb1 take_bit_nat_eq_self)
  then show ?thesis by (simp add: word_unat_eq_iff)
qed

section \<open>Options, sums and lists\<close>

text \<open>A result: \<open>Inl\<close> is Rust's \<open>Err\<close>, \<open>Inr\<close> its \<open>Ok\<close>. The question mark operator is a case split.\<close>

definition ok_or :: "'e \<Rightarrow> 'a option \<Rightarrow> 'e + 'a" where
  "ok_or e x = (case x of None \<Rightarrow> Inl e | Some a \<Rightarrow> Inr a)"

lemma ok_or_simps [simp]: "ok_or e None = Inl e" "ok_or e (Some a) = Inr a"
  by (simp_all add: ok_or_def)

lemma ok_or_eq_Inr [simp]: "ok_or e x = Inr a \<longleftrightarrow> x = Some a"
  by (cases x) auto

lemma ok_or_eq_Inl [simp]: "ok_or e x = Inl f \<longleftrightarrow> x = None \<and> f = e"
  by (cases x) auto

lemma sum_list_map_distinct:
  "distinct xs \<Longrightarrow> sum_list (map f xs) = sum f (set xs)"
  by (rule sum_list_distinct_conv_sum_set)

lemma takeWhile_append_stop:
  "(\<forall>x\<in>set xs. P x) \<Longrightarrow> \<not> P y \<Longrightarrow> takeWhile P (xs @ y # ys) = xs"
  by (induction xs) auto

lemma dropWhile_append_stop:
  "(\<forall>x\<in>set xs. P x) \<Longrightarrow> \<not> P y \<Longrightarrow> dropWhile P (xs @ y # ys) = y # ys"
  by (induction xs) auto

end
