(* ===== verification/PB_Text.thy ===== *)
theory PB_Text
  imports PB_Prelude
begin

text \<open>
  The part of Rust's string library that the program uses. A Rust \<open>str\<close> is its UTF-8 byte
  sequence, a \<open>string\<close> of 8-bit characters here, so \<open>length\<close> counts bytes as \<open>str::len\<close>
  does. Modelled: ASCII digit tests, \<open>split_once\<close>, \<open>rsplitn\<close>, \<open>strip_suffix\<close>, decimal and
  hexadecimal formatting with zero padding, and \<open>FromStr\<close> of unsigned integers (an optional
  leading plus sign, at least one digit, overflow is an error).
\<close>

section \<open>Digits\<close>

definition char_code :: "char \<Rightarrow> nat" where
  "char_code c = of_char c"

definition is_ascii_digit :: "char \<Rightarrow> bool" where
  "is_ascii_digit c \<longleftrightarrow> 48 \<le> char_code c \<and> char_code c \<le> 57"

definition digit_val :: "char \<Rightarrow> nat" where
  "digit_val c = char_code c - 48"

definition digit_char :: "nat \<Rightarrow> char" where
  "digit_char d = char_of (48 + d)"

definition digits_val :: "string \<Rightarrow> nat" where
  "digits_val s = foldl (\<lambda>a c. 10 * a + digit_val c) 0 s"

fun dec :: "nat \<Rightarrow> string" where
  "dec n = (if n < 10 then [digit_char n] else dec (n div 10) @ [digit_char (n mod 10)])"

declare dec.simps [simp del]

definition zero_pad :: "nat \<Rightarrow> string \<Rightarrow> string" where
  "zero_pad w s = replicate (w - length s) (CHR ''0'') @ s"

lemma char_code_digit [simp]: "d < 10 \<Longrightarrow> char_code (digit_char d) = 48 + d"
  by (simp add: char_code_def digit_char_def of_char_of)

lemma is_ascii_digit_digit_char [simp]: "d < 10 \<Longrightarrow> is_ascii_digit (digit_char d)"
  by (simp add: is_ascii_digit_def)

lemma digit_val_digit_char [simp]: "d < 10 \<Longrightarrow> digit_val (digit_char d) = d"
  by (simp add: digit_val_def)

lemma digit_val_less: "is_ascii_digit c \<Longrightarrow> digit_val c < 10"
  by (auto simp: is_ascii_digit_def digit_val_def)

lemma digit_zero [simp]: "is_ascii_digit (CHR ''0'')" "digit_val (CHR ''0'') = 0"
  by (simp_all add: is_ascii_digit_def digit_val_def char_code_def)

lemma not_digit_marks [simp]:
  "\<not> is_ascii_digit (CHR ''.'')" "\<not> is_ascii_digit (CHR ''_'')" "\<not> is_ascii_digit (CHR '':'')"
  "\<not> is_ascii_digit (CHR ''+'')" "\<not> is_ascii_digit (CHR ''-'')" "\<not> is_ascii_digit (CHR ''/'')"
  by (simp_all add: is_ascii_digit_def char_code_def)

lemma digits_val_Nil [simp]: "digits_val [] = 0"
  by (simp add: digits_val_def)

lemma digits_val_snoc [simp]: "digits_val (s @ [c]) = 10 * digits_val s + digit_val c"
  by (simp add: digits_val_def)

lemma digits_val_append: "digits_val (s @ t) = digits_val s * 10 ^ length t + digits_val t"
proof (induction t rule: rev_induct)
  case (snoc c t)
  have "digits_val (s @ t @ [c]) = 10 * digits_val (s @ t) + digit_val c"
    using digits_val_snoc [of "s @ t" c] by simp
  then show ?case by (simp add: snoc.IH algebra_simps)
qed simp

lemma digits_val_zeros [simp]: "digits_val (replicate n (CHR ''0'')) = 0"
proof (induction n)
  case (Suc n)
  have "digits_val (replicate n (CHR ''0'') @ [CHR ''0'']) = 0" by (simp add: Suc.IH)
  then show ?case by (simp add: replicate_append_same)
qed simp

lemma digits_val_less: "list_all is_ascii_digit s \<Longrightarrow> digits_val s < 10 ^ length s"
proof (induction s rule: rev_induct)
  case (snoc c s)
  then have "digits_val s < 10 ^ length s" "digit_val c < 10"
    by (auto simp: digit_val_less)
  then show ?case by simp
qed simp

lemma digits_val_dec [simp]: "digits_val (dec n) = n"
proof (induction n rule: dec.induct)
  case (1 n)
  show ?case
  proof (cases "n < 10")
    case True
    then show ?thesis by (subst dec.simps) (simp add: digits_val_def)
  next
    case False
    with "1.IH" show ?thesis by (subst dec.simps) simp
  qed
qed

lemma dec_digits [simp]: "list_all is_ascii_digit (dec n)"
proof (induction n rule: dec.induct)
  case (1 n)
  then show ?case by (subst dec.simps) auto
qed

lemma dec_not_Nil [simp]: "dec n \<noteq> []"
  by (subst dec.simps) simp

lemma dec_length: "n < 10 ^ k \<Longrightarrow> 0 < k \<Longrightarrow> length (dec n) \<le> k"
proof (induction n arbitrary: k rule: dec.induct)
  case (1 n)
  show ?case
  proof (cases "n < 10")
    case True
    with "1.prems" show ?thesis by (subst dec.simps) simp
  next
    case False
    then obtain j where k: "k = Suc j" "0 < j"
      using "1.prems" by (cases k; cases "k - 1") auto
    with "1.prems" have "n div 10 < 10 ^ j" by auto
    with False k "1.IH" have "length (dec (n div 10)) \<le> j" by simp
    with False k show ?thesis by (subst dec.simps) simp
  qed
qed

lemma digit_set_no: "list_all is_ascii_digit s \<Longrightarrow> \<not> is_ascii_digit c \<Longrightarrow> c \<notin> set s"
  by (auto simp: list_all_iff)

lemma zero_pad_digits [simp]: "list_all is_ascii_digit (zero_pad w (dec n))"
  by (auto simp: zero_pad_def list_all_iff dec_digits [unfolded list_all_iff, rule_format])

lemma digits_val_zero_pad [simp]: "digits_val (zero_pad w s) = digits_val s"
  by (simp add: zero_pad_def digits_val_append)

lemma length_zero_pad: "length (zero_pad w s) = max w (length s)"
  by (simp add: zero_pad_def)

section \<open>Unsigned integer parsing\<close>

definition parse_uint :: "nat \<Rightarrow> string \<Rightarrow> nat option" where
  "parse_uint bound s =
     (let ds = (case s of [] \<Rightarrow> [] | c # cs \<Rightarrow> if c = CHR ''+'' then cs else s)
      in if ds = [] \<or> \<not> list_all is_ascii_digit ds then None
         else if digits_val ds < bound then Some (digits_val ds) else None)"

definition parse_u64 :: "string \<Rightarrow> u64 option" where
  "parse_u64 s = map_option of_nat (parse_uint (2 ^ 64) s)"

definition parse_u128 :: "string \<Rightarrow> u128 option" where
  "parse_u128 s = map_option of_nat (parse_uint (2 ^ 128) s)"

text \<open>Evaluation of the fixed-width parsers goes through binary integers.\<close>

definition digits_int :: "string \<Rightarrow> int" where
  "digits_int s = foldl (\<lambda>a c. 10 * a + int (digit_val c)) 0 s"

lemma digits_int: "digits_int s = int (digits_val s)"
  by (induction s rule: rev_induct) (simp_all add: digits_int_def)

definition parse_word :: "int \<Rightarrow> string \<Rightarrow> 'a::len word option" where
  "parse_word bound s =
     (let ds = (case s of [] \<Rightarrow> [] | c # cs \<Rightarrow> if c = CHR ''+'' then cs else s)
      in if ds = [] \<or> \<not> list_all is_ascii_digit ds then None
         else if digits_int ds < bound then Some (word_of_int (digits_int ds)) else None)"

lemma parse_word_code [code]:
  "parse_u64 s = parse_word 18446744073709551616 s"
  "parse_u128 s = parse_word 340282366920938463463374607431768211456 s"
  by (simp_all add: parse_u64_def parse_u128_def parse_word_def parse_uint_def digits_int Let_def)

lemma parse_uint_digits:
  "s \<noteq> [] \<Longrightarrow> list_all is_ascii_digit s \<Longrightarrow>
   parse_uint b s = (if digits_val s < b then Some (digits_val s) else None)"
  by (cases s) (auto simp: parse_uint_def)

lemma parse_uint_dec [simp]: "parse_uint b (dec n) = (if n < b then Some n else None)"
  by (simp add: parse_uint_digits)

lemma parse_u64_dec [simp]: "parse_u64 (dec (unat w)) = Some w"
proof -
  have "unat w < 2 ^ 64" using unsigned_less [of w] by simp
  then show ?thesis by (simp add: parse_u64_def)
qed

section \<open>Splitting\<close>

definition split_once :: "char \<Rightarrow> string \<Rightarrow> (string \<times> string) option" where
  "split_once c s =
     (case dropWhile (\<lambda>x. x \<noteq> c) s of
        [] \<Rightarrow> None
      | _ # rest \<Rightarrow> Some (takeWhile (\<lambda>x. x \<noteq> c) s, rest))"

definition rsplit_once :: "char \<Rightarrow> string \<Rightarrow> (string \<times> string) option" where
  "rsplit_once c s = map_option (\<lambda>(a, b). (rev b, rev a)) (split_once c (rev s))"

fun rsplitn :: "nat \<Rightarrow> char \<Rightarrow> string \<Rightarrow> string list" where
  "rsplitn 0 c s = []"
| "rsplitn (Suc 0) c s = [s]"
| "rsplitn (Suc (Suc n)) c s =
     (case rsplit_once c s of
        None \<Rightarrow> [s]
      | Some (l, r) \<Rightarrow> r # rsplitn (Suc n) c l)"

text \<open>\<open>str::trim\<close>, on the ASCII whitespace characters.\<close>

definition is_ascii_space :: "char \<Rightarrow> bool" where
  "is_ascii_space c \<longleftrightarrow> char_code c = 32 \<or> 9 \<le> char_code c \<and> char_code c \<le> 13"

definition trim :: "string \<Rightarrow> string" where
  "trim s = rev (dropWhile is_ascii_space (rev (dropWhile is_ascii_space s)))"

lemma trim_id:
  assumes "list_all (\<lambda>c. \<not> is_ascii_space c) s"
  shows "trim s = s"
proof -
  have drop: "dropWhile is_ascii_space t = t" if "list_all (\<lambda>c. \<not> is_ascii_space c) t" for t
    using that by (cases t) auto
  have "list_all (\<lambda>c. \<not> is_ascii_space c) (rev s)"
    using assms by (simp add: list_all_iff)
  with assms show ?thesis by (simp add: trim_def drop)
qed

definition strip_prefix :: "string \<Rightarrow> string \<Rightarrow> string option" where
  "strip_prefix p s = (if take (length p) s = p then Some (drop (length p) s) else None)"

definition strip_suffix :: "string \<Rightarrow> string \<Rightarrow> string option" where
  "strip_suffix x s = map_option rev (strip_prefix (rev x) (rev s))"

lemma split_once_append: "c \<notin> set a \<Longrightarrow> split_once c (a @ c # b) = Some (a, b)"
proof -
  assume "c \<notin> set a"
  then have ne: "\<forall>x\<in>set a. x \<noteq> c" by auto
  show ?thesis
    using dropWhile_append_stop [OF ne, of c b] takeWhile_append_stop [OF ne, of c b]
    by (simp add: split_once_def)
qed

lemma split_once_None: "split_once c s = None \<longleftrightarrow> c \<notin> set s"
proof -
  have "dropWhile (\<lambda>x. x \<noteq> c) s = [] \<longleftrightarrow> c \<notin> set s"
    by (auto simp: dropWhile_eq_Nil_conv)
  then show ?thesis
    by (cases "dropWhile (\<lambda>x. x \<noteq> c) s")
      (simp_all add: split_once_def del: dropWhile_eq_Nil_conv)
qed

lemma split_once_Some:
  "split_once c s = Some (a, b) \<longleftrightarrow> s = a @ c # b \<and> c \<notin> set a"
proof
  assume l: "split_once c s = Some (a, b)"
  then obtain x where d: "dropWhile (\<lambda>x. x \<noteq> c) s = x # b" and a: "a = takeWhile (\<lambda>x. x \<noteq> c) s"
    by (auto simp: split_once_def split: list.splits)
  have "x = c" using hd_dropWhile [of "\<lambda>x. x \<noteq> c" s] d by simp
  moreover have "s = a @ x # b" using takeWhile_dropWhile_id [of "\<lambda>x. x \<noteq> c" s] d a by simp
  moreover have "c \<notin> set a" using a by (auto dest: set_takeWhileD)
  ultimately show "s = a @ c # b \<and> c \<notin> set a" by simp
next
  assume "s = a @ c # b \<and> c \<notin> set a"
  then show "split_once c s = Some (a, b)" using split_once_append by simp
qed

lemma rsplit_once_append: "c \<notin> set b \<Longrightarrow> rsplit_once c (a @ c # b) = Some (a, b)"
  using split_once_append [of c "rev b" "rev a"] by (simp add: rsplit_once_def)

lemma rsplit_once_None: "rsplit_once c s = None \<longleftrightarrow> c \<notin> set s"
  by (simp add: rsplit_once_def split_once_None)

lemma rsplit_once_Some:
  "rsplit_once c s = Some (a, b) \<longleftrightarrow> s = a @ c # b \<and> c \<notin> set b"
proof -
  have "rsplit_once c s = Some (a, b) \<longleftrightarrow> split_once c (rev s) = Some (rev b, rev a)"
    by (auto simp: rsplit_once_def)
  also have "\<dots> \<longleftrightarrow> rev s = rev b @ c # rev a \<and> c \<notin> set b"
    by (simp add: split_once_Some)
  also have "\<dots> \<longleftrightarrow> s = a @ c # b \<and> c \<notin> set b"
  proof -
    have "rev s = rev b @ c # rev a \<longleftrightarrow> s = rev (rev b @ c # rev a)"
      by (metis rev_rev_ident)
    then show ?thesis by simp
  qed
  finally show ?thesis .
qed

lemma strip_prefix_append [simp]: "strip_prefix p (p @ s) = Some s"
  by (simp add: strip_prefix_def)

lemma strip_suffix_append [simp]: "strip_suffix x (s @ x) = Some s"
  by (simp add: strip_suffix_def)

lemma strip_prefix_Some: "strip_prefix p s = Some r \<longleftrightarrow> s = p @ r"
proof -
  have "strip_prefix p s = Some r \<Longrightarrow> s = p @ r"
    unfolding strip_prefix_def by (metis append_take_drop_id option.distinct(1) option.inject)
  then show ?thesis by auto
qed

lemma strip_suffix_Some: "strip_suffix x s = Some r \<longleftrightarrow> s = r @ x"
proof -
  have "strip_suffix x s = Some r \<longleftrightarrow> rev s = rev x @ rev r"
    by (auto simp: strip_suffix_def strip_prefix_Some)
  also have "\<dots> \<longleftrightarrow> s = r @ x"
    by (metis rev_append rev_rev_ident)
  finally show ?thesis .
qed

section \<open>Hexadecimal\<close>

definition hex_char :: "nat \<Rightarrow> nat \<Rightarrow> char" where
  "hex_char base d = (if d < 10 then char_of (48 + d) else char_of (base + (d - 10)))"

definition hex_upper2 :: "nat \<Rightarrow> string" where
  "hex_upper2 n = [hex_char 65 (n div 16), hex_char 65 (n mod 16)]"

fun hex_lower :: "nat \<Rightarrow> nat \<Rightarrow> string" where
  "hex_lower 0 n = []"
| "hex_lower (Suc k) n = hex_lower k (n div 16) @ [hex_char 97 (n mod 16)]"

definition is_ascii_hexdigit :: "char \<Rightarrow> bool" where
  "is_ascii_hexdigit c \<longleftrightarrow>
     is_ascii_digit c \<or> (65 \<le> char_code c \<and> char_code c \<le> 70) \<or> (97 \<le> char_code c \<and> char_code c \<le> 102)"

lemma hex_lower_length [simp]: "length (hex_lower k n) = k"
  by (induction k arbitrary: n) auto

lemma hex_char_lower: "d < 16 \<Longrightarrow> is_ascii_hexdigit (hex_char 97 d)"
  by (auto simp: is_ascii_hexdigit_def is_ascii_digit_def hex_char_def char_code_def of_char_of)

lemma hex_lower_digits [simp]: "list_all is_ascii_hexdigit (hex_lower k n)"
  by (induction k arbitrary: n) (auto simp: hex_char_lower)

lemma not_hexdigit_underscore [simp]: "\<not> is_ascii_hexdigit (CHR ''_'')"
  by (simp add: is_ascii_hexdigit_def is_ascii_digit_def char_code_def)

end
