(* ===== verification/PB_Maps.thy ===== *)
theory PB_Maps
  imports PB_Prelude "HOL-Library.AList"
begin

text \<open>
  The two standard-library maps the program keeps its state in, and the interfaces its
  clients rely on. \<open>kv_map\<close> is the contract of a map (what a lookup returns after an insert
  or a removal), \<open>ordered_kv\<close> extends it with the in-order iteration of a \<open>BTreeMap\<close>. The
  client lemmas (running totals, first entry is the least key) are proved once in the locales.
  \<open>BTreeMap\<close> is modelled by its in-order entry list, \<open>HashMap\<close> by an entry list whose order
  stands for the unspecified iteration order.
\<close>

section \<open>The interfaces\<close>

locale kv_map =
  fixes get :: "'m \<Rightarrow> 'k \<Rightarrow> 'v option"
    and put :: "'k \<Rightarrow> 'v \<Rightarrow> 'm \<Rightarrow> 'm"
    and del :: "'k \<Rightarrow> 'm \<Rightarrow> 'm"
    and empt :: "'m"
    and ok :: "'m \<Rightarrow> bool"
  assumes get_empt: "get empt k = None"
    and get_put: "ok m \<Longrightarrow> get (put k v m) j = (if j = k then Some v else get m j)"
    and get_del: "ok m \<Longrightarrow> get (del k m) j = (if j = k then None else get m j)"
    and ok_empt: "ok empt"
    and ok_put: "ok m \<Longrightarrow> ok (put k v m)"
    and ok_del: "ok m \<Longrightarrow> ok (del k m)"
begin

lemma get_put_map: "ok m \<Longrightarrow> get (put k v m) = (get m)(k \<mapsto> v)"
  by (rule ext) (simp add: get_put)

lemma get_del_map: "ok m \<Longrightarrow> get (del k m) = (get m)(k := None)"
  by (rule ext) (simp add: get_del)

lemma dom_put: "ok m \<Longrightarrow> dom (get (put k v m)) = insert k (dom (get m))"
  by (simp add: get_put_map)

lemma dom_del: "ok m \<Longrightarrow> dom (get (del k m)) = dom (get m) - {k}"
  by (simp add: get_del_map)

lemmas kv_simps = get_empt get_put get_del ok_empt ok_put ok_del

end

locale ordered_kv = kv_map get put del empt ok
  for get :: "'m \<Rightarrow> 'k::linorder \<Rightarrow> 'v option"
    and put :: "'k \<Rightarrow> 'v \<Rightarrow> 'm \<Rightarrow> 'm"
    and del :: "'k \<Rightarrow> 'm \<Rightarrow> 'm"
    and empt :: "'m"
    and ok :: "'m \<Rightarrow> bool" +
  fixes entries :: "'m \<Rightarrow> ('k \<times> 'v) list"
  assumes get_entries: "ok m \<Longrightarrow> get m k = map_of (entries m) k"
    and entries_sorted: "ok m \<Longrightarrow> sorted_wrt (<) (map fst (entries m))"
begin

lemma entries_distinct: "ok m \<Longrightarrow> distinct (map fst (entries m))"
  by (metis entries_sorted strict_sorted_iff)

lemma entries_get: "ok m \<Longrightarrow> (k, v) \<in> set (entries m) \<longleftrightarrow> get m k = Some v"
  by (simp add: get_entries entries_distinct)

lemma finite_dom_get: "ok m \<Longrightarrow> finite (dom (get m))"
  by (rule finite_subset [OF _ finite_dom_map_of [of "entries m"]])
    (auto simp: get_entries dom_def)

lemma dom_get_entries: "ok m \<Longrightarrow> dom (get m) = fst ` set (entries m)"
  by (auto simp: get_entries dom_map_of_conv_image_fst [symmetric])

text \<open>The entry list is determined by the lookups: iteration is a function of the content.\<close>

lemma entries_unique:
  assumes "ok m" "ok n" "get m = get n"
  shows "entries m = entries n"
proof -
  have same: "set (entries m) = set (entries n)"
    using assms by (auto simp: entries_get [symmetric] simp del: split_paired_All)
      (metis assms(1,2,3) entries_get)+
  have "inj_on fst (set (entries m) \<union> set (entries n))"
    using same entries_distinct [OF assms(1)] by (simp add: distinct_map)
  then show ?thesis
    using same entries_distinct assms(1,2) entries_sorted
    by (intro map_sorted_distinct_set_unique [of fst]) (auto simp: strict_sorted_iff)
qed

text \<open>The weight of all values, as an unordered sum over the keys.\<close>

lemma weight_sum:
  fixes w :: "'v \<Rightarrow> nat"
  assumes "ok m"
  shows "(\<Sum>e\<leftarrow>entries m. w (snd e)) = (\<Sum>k\<in>dom (get m). w (the (get m k)))"
proof -
  have d: "distinct (map fst (entries m))" by (rule entries_distinct [OF assms])
  then have "(\<Sum>e\<leftarrow>entries m. w (snd e)) = (\<Sum>e\<in>set (entries m). w (snd e))"
    by (simp add: sum_list_map_distinct distinct_map)
  also have "\<dots> = (\<Sum>e\<in>set (entries m). w (the (get m (fst e))))"
    by (rule sum.cong) (auto simp: entries_get [OF assms])
  also have "\<dots> = (\<Sum>k\<in>fst ` set (entries m). w (the (get m k)))"
    using d by (simp add: sum.reindex distinct_map)
  finally show ?thesis by (simp add: dom_get_entries [OF assms])
qed

lemma weight_put:
  fixes w :: "'v \<Rightarrow> nat"
  assumes "ok m"
  shows "(\<Sum>e\<leftarrow>entries (put k v m). w (snd e)) + (case get m k of None \<Rightarrow> 0 | Some v0 \<Rightarrow> w v0)
    = (\<Sum>e\<leftarrow>entries m. w (snd e)) + w v"
proof -
  let ?D = "dom (get m)"
  have fin: "finite ?D" by (rule finite_dom_get [OF assms])
  have "(\<Sum>e\<leftarrow>entries (put k v m). w (snd e)) =
      (\<Sum>j\<in>insert k ?D. w (the (get (put k v m) j)))"
    by (simp add: weight_sum [OF ok_put [OF assms]] dom_put [OF assms])
  also have "\<dots> = w v + (\<Sum>j\<in>?D - {k}. w (the (get (put k v m) j)))"
    using fin by (simp add: sum.insert_remove get_put [OF assms])
  also have "(\<Sum>j\<in>?D - {k}. w (the (get (put k v m) j))) = (\<Sum>j\<in>?D - {k}. w (the (get m j)))"
    by (rule sum.cong) (auto simp: get_put [OF assms])
  finally have put: "(\<Sum>e\<leftarrow>entries (put k v m). w (snd e)) = w v + (\<Sum>j\<in>?D - {k}. w (the (get m j)))" .
  show ?thesis
  proof (cases "get m k")
    case None
    then have "?D - {k} = ?D" by auto
    with put None show ?thesis by (simp add: weight_sum [OF assms])
  next
    case (Some v0)
    then have "k \<in> ?D" by auto
    then have "(\<Sum>j\<in>?D. w (the (get m j))) = w v0 + (\<Sum>j\<in>?D - {k}. w (the (get m j)))"
      using fin Some by (simp add: sum.remove)
    with put Some show ?thesis by (simp add: weight_sum [OF assms])
  qed
qed

lemma weight_del:
  fixes w :: "'v \<Rightarrow> nat"
  assumes "ok m"
  shows "(\<Sum>e\<leftarrow>entries (del k m). w (snd e)) + (case get m k of None \<Rightarrow> 0 | Some v0 \<Rightarrow> w v0)
    = (\<Sum>e\<leftarrow>entries m. w (snd e))"
proof -
  let ?D = "dom (get m)"
  have fin: "finite ?D" by (rule finite_dom_get [OF assms])
  have del: "(\<Sum>e\<leftarrow>entries (del k m). w (snd e)) = (\<Sum>j\<in>?D - {k}. w (the (get m j)))"
    by (simp add: weight_sum [OF ok_del [OF assms]] dom_del [OF assms])
      (rule sum.cong, auto simp: get_del [OF assms])
  show ?thesis
  proof (cases "get m k")
    case None
    then have "?D - {k} = ?D" by auto
    with del None show ?thesis by (simp add: weight_sum [OF assms])
  next
    case (Some v0)
    then have "k \<in> ?D" by auto
    then have "(\<Sum>j\<in>?D. w (the (get m j))) = w v0 + (\<Sum>j\<in>?D - {k}. w (the (get m j)))"
      using fin Some by (simp add: sum.remove)
    with del Some show ?thesis by (simp add: weight_sum [OF assms])
  qed
qed

lemma weight_member_le:
  fixes w :: "'v \<Rightarrow> nat"
  assumes "ok m" "get m k = Some v"
  shows "w v \<le> (\<Sum>e\<leftarrow>entries m. w (snd e))"
  using weight_del [OF assms(1), of w k] assms(2) by simp

text \<open>The first entry of the iteration carries the least key.\<close>

lemma first_entry_least:
  assumes "ok m" "entries m = (k, v) # es"
  shows "get m k = Some v \<and> (\<forall>j\<in>dom (get m). k \<le> j)"
proof -
  have "get m k = Some v"
    using assms entries_get [OF assms(1), of k v] by simp
  moreover have "\<forall>j\<in>dom (get m). k \<le> j"
    using entries_sorted [OF assms(1)] assms(2) by (auto simp: dom_get_entries [OF assms(1)])
  ultimately show ?thesis by simp
qed

lemma entries_Nil: "ok m \<Longrightarrow> entries m = [] \<longleftrightarrow> get m = Map.empty"
proof -
  assume "ok m"
  then have "dom (get m) = fst ` set (entries m)" by (rule dom_get_entries)
  then show ?thesis by (metis dom_eq_empty_conv image_is_empty set_empty)
qed

end

section \<open>BTreeMap: the in-order entry list\<close>

type_synonym ('k, 'v) btree = "('k \<times> 'v) list"

definition bt_empty :: "('k, 'v) btree" where
  "bt_empty = []"

definition bt_get :: "('k, 'v) btree \<Rightarrow> 'k \<Rightarrow> 'v option" where
  "bt_get m k = map_of m k"

fun bt_insert :: "'k::linorder \<Rightarrow> 'v \<Rightarrow> ('k, 'v) btree \<Rightarrow> ('k, 'v) btree" where
  "bt_insert k v [] = [(k, v)]"
| "bt_insert k v (e # es) =
     (if fst e < k then e # bt_insert k v es
      else if fst e = k then (k, v) # es
      else (k, v) # e # es)"

definition bt_remove :: "'k \<Rightarrow> ('k, 'v) btree \<Rightarrow> ('k, 'v) btree" where
  "bt_remove k m = filter (\<lambda>e. fst e \<noteq> k) m"

definition bt_ok :: "('k::linorder, 'v) btree \<Rightarrow> bool" where
  "bt_ok m = sorted_wrt (<) (map fst m)"

lemma set_bt_insert: "fst ` set (bt_insert k v m) = insert k (fst ` set m)"
  by (induction m) auto

lemma bt_ok_insert: "bt_ok m \<Longrightarrow> bt_ok (bt_insert k v m)"
proof (induction m)
  case (Cons e m)
  have "fst e < fst x" if "x \<in> set (bt_insert k v m)" "fst e < k" for x
  proof -
    have "fst x \<in> insert k (fst ` set m)"
      using that(1) by (metis image_eqI set_bt_insert)
    then show ?thesis using Cons.prems that(2) by (auto simp: bt_ok_def)
  qed
  with Cons show ?case by (auto simp: bt_ok_def not_less)
qed (simp add: bt_ok_def)

lemma bt_get_insert:
  "bt_ok m \<Longrightarrow> bt_get (bt_insert k v m) j = (if j = k then Some v else bt_get m j)"
proof (induction m)
  case (Cons e m)
  then have IH: "bt_get (bt_insert k v m) j = (if j = k then Some v else bt_get m j)"
    by (auto simp: bt_ok_def)
  show ?case
    by (cases e) (use IH in \<open>auto simp: bt_get_def\<close>)
qed (simp add: bt_get_def)

lemma bt_get_remove: "bt_get (bt_remove k m) j = (if j = k then None else bt_get m j)"
  by (induction m) (auto simp: bt_get_def bt_remove_def)

lemma bt_ok_remove: "bt_ok m \<Longrightarrow> bt_ok (bt_remove k m)"
  by (simp add: bt_ok_def bt_remove_def sorted_wrt_map sorted_wrt_filter)

lemma bt_ok_empty [simp]: "bt_ok bt_empty"
  by (simp add: bt_ok_def bt_empty_def)

interpretation bt: ordered_kv bt_get bt_insert bt_remove bt_empty bt_ok "\<lambda>m. m"
  by unfold_locales
    (simp_all add: bt_get_insert bt_get_remove bt_ok_insert bt_ok_remove,
     simp_all add: bt_get_def bt_empty_def bt_ok_def)

section \<open>HashMap: an entry list in some iteration order\<close>

type_synonym ('k, 'v) hmap = "('k \<times> 'v) list"

definition hm_get :: "('k, 'v) hmap \<Rightarrow> 'k \<Rightarrow> 'v option" where
  "hm_get m k = map_of m k"

definition hm_insert :: "'k \<Rightarrow> 'v \<Rightarrow> ('k, 'v) hmap \<Rightarrow> ('k, 'v) hmap" where
  "hm_insert k v m = AList.update k v m"

definition hm_remove :: "'k \<Rightarrow> ('k, 'v) hmap \<Rightarrow> ('k, 'v) hmap" where
  "hm_remove k m = AList.delete k m"

definition hm_ok :: "('k, 'v) hmap \<Rightarrow> bool" where
  "hm_ok m = distinct (map fst m)"

definition hm_keys :: "('k, 'v) hmap \<Rightarrow> 'k list" where
  "hm_keys m = map fst m"

interpretation hm: kv_map hm_get hm_insert hm_remove "[]" hm_ok
  by unfold_locales
    (auto simp: hm_get_def hm_insert_def hm_remove_def hm_ok_def update_conv' delete_conv'
      distinct_update distinct_delete)

lemma hm_retain_get:
  "hm_get (filter (\<lambda>e. P (fst e)) m) k = (if P k then hm_get m k else None)"
  by (induction m) (auto simp: hm_get_def)

lemma hm_retain_ok: "hm_ok m \<Longrightarrow> hm_ok (filter (\<lambda>e. P e) m)"
  by (simp add: hm_ok_def distinct_map_filter)

lemma hm_keys_get: "k \<in> set (hm_keys m) \<longleftrightarrow> hm_get m k \<noteq> None"
  by (auto simp: hm_keys_def hm_get_def map_of_eq_None_iff)

end
