(* ===== verification/PB_Machine.thy ===== *)
theory PB_Machine
  imports PB_Prelude
begin

text \<open>
  The contract between a stateful component and the code that drives it: a step function that
  may abort (\<open>None\<close>), an invariant and an input condition. \<open>machine\<close> gives total runs from a
  total step; \<open>simulation\<close> adds an abstract step the component implements.
\<close>

fun run :: "('s \<Rightarrow> 'i \<Rightarrow> ('s \<times> 'o) option) \<Rightarrow> 's \<Rightarrow> 'i list \<Rightarrow> ('s \<times> 'o list) option" where
  "run step s [] = Some (s, [])"
| "run step s (i # is) =
     (case step s i of
        None \<Rightarrow> None
      | Some (s', out) \<Rightarrow> (case run step s' is of None \<Rightarrow> None | Some (s'', outs) \<Rightarrow> Some (s'', out # outs)))"

lemma run_append:
  "run step s (is @ js) =
     (case run step s is of
        None \<Rightarrow> None
      | Some (s', outs) \<Rightarrow> (case run step s' js of None \<Rightarrow> None | Some (s'', outs') \<Rightarrow> Some (s'', outs @ outs')))"
  by (induction "is" arbitrary: s) (auto split: option.splits)

fun arun :: "('a \<Rightarrow> 'i \<Rightarrow> 'a \<times> 'o) \<Rightarrow> 'a \<Rightarrow> 'i list \<Rightarrow> 'a \<times> 'o list" where
  "arun astep a [] = (a, [])"
| "arun astep a (i # is) =
     (let (a', out) = astep a i; (a'', outs) = arun astep a' is in (a'', out # outs))"

locale machine =
  fixes step :: "'s \<Rightarrow> 'i \<Rightarrow> ('s \<times> 'o) option"
    and inv :: "'s \<Rightarrow> bool"
    and okin :: "'i \<Rightarrow> bool"
  assumes step_total: "inv s \<Longrightarrow> okin i \<Longrightarrow> \<exists>s' out. step s i = Some (s', out) \<and> inv s'"
begin

lemma run_total: "inv s \<Longrightarrow> list_all okin is \<Longrightarrow> \<exists>s' outs. run step s is = Some (s', outs) \<and> inv s'"
proof (induction "is" arbitrary: s)
  case (Cons i "is")
  then obtain s' out where "step s i = Some (s', out)" "inv s'"
    using step_total by fastforce
  with Cons show ?case by fastforce
qed simp

lemma run_no_abort: "inv s \<Longrightarrow> list_all okin is \<Longrightarrow> run step s is \<noteq> None"
  using run_total by fastforce

end

locale simulation = machine step inv okin
  for step :: "'s \<Rightarrow> 'i \<Rightarrow> ('s \<times> 'o) option"
    and inv :: "'s \<Rightarrow> bool"
    and okin :: "'i \<Rightarrow> bool" +
  fixes absf :: "'s \<Rightarrow> 'a"
    and astep :: "'a \<Rightarrow> 'i \<Rightarrow> 'a \<times> 'o"
  assumes step_refines:
    "inv s \<Longrightarrow> okin i \<Longrightarrow> step s i = Some (s', out) \<Longrightarrow> astep (absf s) i = (absf s', out)"
begin

lemma run_refines:
  "inv s \<Longrightarrow> list_all okin is \<Longrightarrow>
   \<exists>s' outs. run step s is = Some (s', outs) \<and> inv s' \<and> arun astep (absf s) is = (absf s', outs)"
proof (induction "is" arbitrary: s)
  case (Cons i "is")
  then obtain s' out where s': "step s i = Some (s', out)" "inv s'"
    using step_total by fastforce
  with Cons.prems have "astep (absf s) i = (absf s', out)"
    using step_refines by simp
  with s' Cons.IH [OF s'(2)] Cons.prems show ?case by auto
qed simp

end

end
