(* ===== verification/Fixed.thy ===== *)
theory Fixed
  imports PB_Text
begin

text \<open>
  \<open>crates/pb-types/src/fixed.rs\<close> and \<open>error.rs\<close>: fixed-point prices (scaled by 10,000 in a
  \<open>u32\<close>) and sizes (scaled by 1,000,000 in a \<open>u64\<close>), the exact decimal parser behind
  \<open>TryFrom<&str>\<close>, \<open>Display\<close>, and the two serde forms. The conversions from and to \<open>f64\<close>
  are not modelled. The lemmas give the parser an exact grammar and value specification, the
  range invariant of every constructor, and the round trips.
\<close>

section \<open>Types\<close>

datatype types_error =
    InvalidPrice u32
  | InvalidPriceValue string
  | PriceParse string
  | SizeParse string
  | InvalidSide string
  | Deserialize string

datatype fixed_price = FixedPrice (price_raw: u32)

datatype fixed_size = FixedSize (size_raw: u64)

instantiation fixed_price :: linorder
begin
definition less_eq_fixed_price :: "fixed_price \<Rightarrow> fixed_price \<Rightarrow> bool" where
  "less_eq_fixed_price p q = (price_raw p \<le> price_raw q)"
definition less_fixed_price :: "fixed_price \<Rightarrow> fixed_price \<Rightarrow> bool" where
  "less_fixed_price p q = (price_raw p < price_raw q)"
instance
  by standard (auto simp: less_eq_fixed_price_def less_fixed_price_def fixed_price.expand)
end

instantiation fixed_size :: linorder
begin
definition less_eq_fixed_size :: "fixed_size \<Rightarrow> fixed_size \<Rightarrow> bool" where
  "less_eq_fixed_size p q = (size_raw p \<le> size_raw q)"
definition less_fixed_size :: "fixed_size \<Rightarrow> fixed_size \<Rightarrow> bool" where
  "less_fixed_size p q = (size_raw p < size_raw q)"
instance
  by standard (auto simp: less_eq_fixed_size_def less_fixed_size_def fixed_size.expand)
end

definition PRICE_SCALE :: u32 where
  "PRICE_SCALE = 10000"

definition SIZE_SCALE :: u64 where
  "SIZE_SCALE = 1000000"

definition price_valid :: "fixed_price \<Rightarrow> bool" where
  "price_valid p \<longleftrightarrow> price_raw p \<le> PRICE_SCALE"

section \<open>The exact decimal parser\<close>

definition parse_scaled_decimal :: "string \<Rightarrow> nat \<Rightarrow> u128 option" where
  "parse_scaled_decimal s decimals =
     (if s = [] then None
      else
        let (int_str, frac_str) =
              (case split_once (CHR ''.'') s of Some (i, f) \<Rightarrow> (i, f) | None \<Rightarrow> (s, []))
        in if int_str = [] \<and> frac_str = [] then None
           else if \<not> list_all is_ascii_digit int_str \<or> \<not> list_all is_ascii_digit frac_str then None
           else if decimals < length frac_str then None
           else do {
             let scale = (10 :: u128) ^ decimals;
             int_val \<leftarrow> (if int_str = [] then Some 0 else parse_u128 int_str);
             frac_digits \<leftarrow> (if frac_str = [] then Some 0 else parse_u128 frac_str);
             let pad = decimals - length frac_str;
             frac_val \<leftarrow> checked_mul frac_digits ((10 :: u128) ^ pad);
             hi \<leftarrow> checked_mul int_val scale;
             checked_add hi frac_val
           })"

text \<open>The accepted texts: digits, optionally a dot and digits, at least one digit overall.\<close>

definition decimal_text :: "string \<Rightarrow> string \<Rightarrow> string \<Rightarrow> bool" where
  "decimal_text s i f \<longleftrightarrow>
     (s = i @ CHR ''.'' # f \<or> s = i \<and> f = []) \<and> i @ f \<noteq> [] \<and>
     list_all is_ascii_digit i \<and> list_all is_ascii_digit f"

lemma decimal_text_split:
  "decimal_text s i f \<longleftrightarrow>
     s \<noteq> [] \<and> (case split_once (CHR ''.'') s of Some (a, b) \<Rightarrow> (a, b) | None \<Rightarrow> (s, [])) = (i, f) \<and>
     \<not> (i = [] \<and> f = []) \<and> list_all is_ascii_digit i \<and> list_all is_ascii_digit f"
proof
  assume d: "decimal_text s i f"
  then have no: "CHR ''.'' \<notin> set i"
    by (auto simp: decimal_text_def digit_set_no)
  from d consider "s = i @ CHR ''.'' # f" | "s = i" "f = []"
    by (auto simp: decimal_text_def)
  then show "s \<noteq> [] \<and> (case split_once (CHR ''.'') s of Some (a, b) \<Rightarrow> (a, b) | None \<Rightarrow> (s, [])) = (i, f) \<and>
     \<not> (i = [] \<and> f = []) \<and> list_all is_ascii_digit i \<and> list_all is_ascii_digit f"
  proof cases
    case 1
    with d no show ?thesis by (simp add: decimal_text_def split_once_append)
  next
    case 2
    with d no have "split_once (CHR ''.'') s = None" by (simp add: split_once_None)
    with d 2 show ?thesis by (simp add: decimal_text_def)
  qed
next
  assume r: "s \<noteq> [] \<and> (case split_once (CHR ''.'') s of Some (a, b) \<Rightarrow> (a, b) | None \<Rightarrow> (s, [])) = (i, f) \<and>
     \<not> (i = [] \<and> f = []) \<and> list_all is_ascii_digit i \<and> list_all is_ascii_digit f"
  then show "decimal_text s i f"
    by (auto simp: decimal_text_def split_once_Some split: option.splits)
qed

lemma parse_u128_Some:
  assumes s: "s \<noteq> []" "list_all is_ascii_digit s"
  shows "parse_u128 s = Some v \<longleftrightarrow> unat v = digits_val s"
proof -
  have lt: "unat v < 2 ^ 128" using unsigned_less [of v] by simp
  have conv: "unat v = n \<longleftrightarrow> v = of_nat n" if "n < 2 ^ 128" for n
    using that by (auto simp: of_nat_inverse)
  show ?thesis
    using lt conv [of "digits_val s"] by (auto simp: parse_u128_def parse_uint_digits s)
qed

lemma digits_part:
  "list_all is_ascii_digit s \<Longrightarrow>
   (if s = [] then Some 0 else parse_u128 s) = Some v \<longleftrightarrow> unat v = digits_val s"
  by (cases "s = []") (auto simp: parse_u128_Some unat_eq_0)

lemma pow10_u128: "d \<le> 38 \<Longrightarrow> unat ((10 :: u128) ^ d) = 10 ^ d"
proof -
  assume "d \<le> 38"
  then have "(10::nat) ^ d \<le> 10 ^ 38" by (rule power_increasing) simp
  then have "(10::nat) ^ d < 2 ^ LENGTH(128)" by simp
  then have "unat (of_nat (10 ^ d) :: u128) = 10 ^ d" by (simp add: of_nat_inverse)
  then show ?thesis by simp
qed

lemma parse_scaled_decimal_parts:
  assumes t: "decimal_text s i f" and d: "length f \<le> d" "d \<le> 38"
  shows "parse_scaled_decimal s d = Some v \<longleftrightarrow>
    unat v = digits_val i * 10 ^ d + digits_val f * 10 ^ (d - length f)"
    (is "?L \<longleftrightarrow> ?R")
proof -
  have i: "list_all is_ascii_digit i" and f: "list_all is_ascii_digit f"
    using t by (auto simp: decimal_text_def)
  have sp: "s \<noteq> []" "(i = [] \<and> f = []) = False"
    "(case split_once (CHR ''.'') s of Some (a, b) \<Rightarrow> (a, b) | None \<Rightarrow> (s, [])) = (i, f)"
    using t by (auto simp: decimal_text_split)
  have sc: "(d < length f) = False" "unat ((10 :: u128) ^ d) = 10 ^ d"
    "unat ((10 :: u128) ^ (d - length f)) = 10 ^ (d - length f)"
    using d by (auto intro!: pow10_u128)
  have "?L \<longleftrightarrow> (\<exists>(a::u128) (b::u128) (x::u128) (y::u128). unat a = digits_val i \<and> unat b = digits_val f \<and>
      unat x = unat b * 10 ^ (d - length f) \<and> unat y = unat a * 10 ^ d \<and> unat v = unat y + unat x)"
    by (simp add: parse_scaled_decimal_def sp bind_eq_Some_conv digits_part [OF i]
        digits_part [OF f] checked_iffs sc i f)
  also have "\<dots> \<longleftrightarrow> ?R"
  proof
    assume R: ?R
    have v: "unat v < 2 ^ 128" using unsigned_less [of v] by simp
    have "digits_val i * 1 \<le> digits_val i * 10 ^ d" "digits_val f * 1 \<le> digits_val f * 10 ^ (d - length f)"
      by (rule mult_le_mono; simp)+
    with R v have "digits_val i < 2 ^ 128" "digits_val f < 2 ^ 128"
      "digits_val i * 10 ^ d < 2 ^ 128" "digits_val f * 10 ^ (d - length f) < 2 ^ 128"
      by linarith+
    then show "\<exists>(a::u128) (b::u128) (x::u128) (y::u128). unat a = digits_val i \<and> unat b = digits_val f \<and>
      unat x = unat b * 10 ^ (d - length f) \<and> unat y = unat a * 10 ^ d \<and> unat v = unat y + unat x"
      using R
      by (intro exI [of _ "of_nat (digits_val i)"] exI [of _ "of_nat (digits_val f)"]
          exI [of _ "of_nat (digits_val f * 10 ^ (d - length f))"] exI [of _ "of_nat (digits_val i * 10 ^ d)"])
        (simp add: of_nat_inverse del: of_nat_mult of_nat_power)
  qed auto
  finally show ?thesis .
qed

text \<open>
  C22. The decimal parser is exact: it accepts precisely the unsigned decimal texts with at
  most \<open>d\<close> fraction digits whose scaled value fits in 128 bits, and the integer it returns is
  the value of the text times \<open>10 ^ d\<close> with no rounding (all digits read as one number, divided
  by \<open>10\<close> to the number of fraction digits).
\<close>

theorem parse_scaled_decimal_exact:
  assumes "d \<le> 38"
  shows "parse_scaled_decimal s d = Some v \<longleftrightarrow>
    (\<exists>i f. decimal_text s i f \<and> length f \<le> d \<and>
       unat v * 10 ^ length f = digits_val (i @ f) * 10 ^ d)"
proof -
  have eq: "unat v = digits_val i * 10 ^ d + digits_val f * 10 ^ (d - length f) \<longleftrightarrow>
      unat v * 10 ^ length f = digits_val (i @ f) * 10 ^ d" if "length f \<le> d" for i f :: string
  proof -
    have "(10::nat) ^ d = 10 ^ (d - length f) * 10 ^ length f"
      using that by (simp flip: power_add)
    then have "digits_val (i @ f) * 10 ^ d =
        (digits_val i * 10 ^ d + digits_val f * 10 ^ (d - length f)) * 10 ^ length f"
      by (simp add: digits_val_append algebra_simps)
    then show ?thesis by simp
  qed
  show ?thesis
  proof
    assume p: "parse_scaled_decimal s d = Some v"
    then obtain i f where "decimal_text s i f" "length f \<le> d"
      by (auto simp: parse_scaled_decimal_def decimal_text_split split: if_splits prod.splits)
    with p eq show "\<exists>i f. decimal_text s i f \<and> length f \<le> d \<and>
        unat v * 10 ^ length f = digits_val (i @ f) * 10 ^ d"
      using assms parse_scaled_decimal_parts by blast
  next
    assume "\<exists>i f. decimal_text s i f \<and> length f \<le> d \<and>
        unat v * 10 ^ length f = digits_val (i @ f) * 10 ^ d"
    then show "parse_scaled_decimal s d = Some v"
      using assms parse_scaled_decimal_parts eq by blast
  qed
qed

text \<open>The theorem at a concrete text: four fraction digits, scaled by ten thousand.\<close>

theorem parse_scaled_decimal_exact_witness:
  "(4::nat) \<le> 38 \<and> parse_scaled_decimal ''0.5'' 4 = Some 5000"
proof -
  have "\<exists>i f. decimal_text ''0.5'' i f \<and> length f \<le> 4 \<and>
      unat (5000 :: u128) * 10 ^ length f = digits_val (i @ f) * 10 ^ 4"
    by (intro exI [of _ "''0''"] exI [of _ "''5''"])
      (simp add: decimal_text_def is_ascii_digit_def digits_val_def digit_val_def char_code_def)
  then show ?thesis by (simp add: parse_scaled_decimal_exact)
qed

section \<open>Constructors, display and TryFrom\<close>

definition price_new :: "u32 \<Rightarrow> types_error + fixed_price" where
  "price_new raw = (if PRICE_SCALE < raw then Inl (InvalidPrice raw) else Inr (FixedPrice raw))"

definition price_is_zero :: "fixed_price \<Rightarrow> bool" where
  "price_is_zero p \<longleftrightarrow> price_raw p = 0"

definition price_try_from :: "string \<Rightarrow> types_error + fixed_price" where
  "price_try_from s =
     (case ok_or (PriceParse s) (parse_scaled_decimal s 4) of
        Inl e \<Rightarrow> Inl e
      | Inr raw \<Rightarrow>
          if (10000 :: u128) < raw then Inl (InvalidPriceValue s)
          else Inr (FixedPrice (ucast raw)))"

definition price_display :: "fixed_price \<Rightarrow> string" where
  "price_display p =
     dec (unat (price_raw p) div 10000) @ CHR ''.'' # zero_pad 4 (dec (unat (price_raw p) mod 10000))"

definition size_zero :: fixed_size where
  "size_zero = FixedSize 0"

definition size_is_zero :: "fixed_size \<Rightarrow> bool" where
  "size_is_zero z \<longleftrightarrow> size_raw z = 0"

definition size_try_from :: "string \<Rightarrow> types_error + fixed_size" where
  "size_try_from s =
     (case ok_or (SizeParse s) (parse_scaled_decimal s 6) of
        Inl e \<Rightarrow> Inl e
      | Inr raw \<Rightarrow>
          if unat raw < 2 ^ 64 then Inr (FixedSize (ucast raw))
          else Inl (SizeParse s))"

lemma size_try_from_code [code]:
  "size_try_from s =
     (case ok_or (SizeParse s) (parse_scaled_decimal s 6) of
        Inl e \<Rightarrow> Inl e
      | Inr raw \<Rightarrow>
          if uint raw < 18446744073709551616 then Inr (FixedSize (ucast raw))
          else Inl (SizeParse s))"
proof -
  have "unat w < 2 ^ 64 \<longleftrightarrow> uint w < 18446744073709551616" for w :: u128
  proof -
    have "int (2 ^ 64) = 18446744073709551616" by simp
    moreover have "int (unat w) = uint w" by simp
    ultimately show ?thesis by (metis of_nat_less_iff)
  qed
  then show ?thesis by (simp only: size_try_from_def)
qed

definition size_display :: "fixed_size \<Rightarrow> string" where
  "size_display z =
     dec (unat (size_raw z) div 1000000) @ CHR ''.'' # zero_pad 6 (dec (unat (size_raw z) mod 1000000))"

text \<open>The text a scaled value is displayed as, and what the parser makes of it.\<close>

lemma display_text:
  assumes "0 < d" "d \<le> 38" "n < 2 ^ 128"
  shows "parse_scaled_decimal (dec (n div 10 ^ d) @ CHR ''.'' # zero_pad d (dec (n mod 10 ^ d))) d
    = Some (of_nat n)"
proof -
  let ?i = "dec (n div 10 ^ d)" and ?f = "zero_pad d (dec (n mod 10 ^ d))"
  have "length (dec (n mod 10 ^ d)) \<le> d"
    using assms by (intro dec_length) auto
  then have len: "length ?f = d" by (simp add: length_zero_pad)
  have dtext: "decimal_text (?i @ CHR ''.'' # ?f) ?i ?f"
    by (simp add: decimal_text_def)
  have "unat (of_nat n :: u128) = digits_val ?i * 10 ^ d + digits_val ?f * 10 ^ (d - length ?f)"
    using assms len by (simp add: of_nat_inverse div_mult_mod_eq)
  with parse_scaled_decimal_parts [OF dtext] len assms show ?thesis by simp
qed

lemma price_display_parse:
  "parse_scaled_decimal (price_display p) 4 = Some (of_nat (unat (price_raw p)))"
proof -
  have "unat (price_raw p) < 2 ^ 128"
    using unsigned_less [of "price_raw p", where ?'a = nat] by simp
  then show ?thesis
    using display_text [of 4 "unat (price_raw p)"] by (simp add: price_display_def)
qed

lemma size_display_parse:
  "parse_scaled_decimal (size_display z) 6 = Some (of_nat (unat (size_raw z)))"
proof -
  have "unat (size_raw z) < 2 ^ 128"
    using unsigned_less [of "size_raw z", where ?'a = nat] by simp
  then show ?thesis
    using display_text [of 6 "unat (size_raw z)"] by (simp add: size_display_def)
qed

section \<open>The serde forms\<close>

text \<open>
  A serialised scalar: a string for human-readable formats, the raw integer for binary ones.
  Handing a deserialiser the wrong kind of scalar is its own type error.
\<close>

datatype serde_value = SerStr string | SerU32 u32 | SerU64 u64

datatype de_error = DeCustom types_error | DeInvalidType

definition price_serialize :: "bool \<Rightarrow> fixed_price \<Rightarrow> serde_value" where
  "price_serialize human_readable p =
     (if human_readable then SerStr (price_display p) else SerU32 (price_raw p))"

definition price_deserialize :: "bool \<Rightarrow> serde_value \<Rightarrow> de_error + fixed_price" where
  "price_deserialize human_readable v =
     (if human_readable then
        (case v of SerStr s \<Rightarrow> map_sum DeCustom id (price_try_from s) | _ \<Rightarrow> Inl DeInvalidType)
      else
        (case v of SerU32 raw \<Rightarrow> map_sum DeCustom id (price_new raw) | _ \<Rightarrow> Inl DeInvalidType))"

definition size_serialize :: "bool \<Rightarrow> fixed_size \<Rightarrow> serde_value" where
  "size_serialize human_readable z =
     (if human_readable then SerStr (size_display z) else SerU64 (size_raw z))"

definition size_deserialize :: "bool \<Rightarrow> serde_value \<Rightarrow> de_error + fixed_size" where
  "size_deserialize human_readable v =
     (if human_readable then
        (case v of SerStr s \<Rightarrow> map_sum DeCustom id (size_try_from s) | _ \<Rightarrow> Inl DeInvalidType)
      else
        (case v of SerU64 raw \<Rightarrow> Inr (FixedSize raw) | _ \<Rightarrow> Inl DeInvalidType))"

lemma price_try_from_display [simp]:
  "price_try_from (price_display p) =
     (if price_valid p then Inr p else Inl (InvalidPriceValue (price_display p)))"
proof -
  have "(10000 :: u128) < ucast (price_raw p) \<longleftrightarrow> \<not> price_valid p"
    by (simp add: word_less_nat_alt unat_ucast_up price_valid_def PRICE_SCALE_def word_le_nat_alt
        not_le)
  then show ?thesis
    by (simp add: price_try_from_def price_display_parse)
qed

lemma size_try_from_display [simp]: "size_try_from (size_display z) = Inr z"
proof -
  have "unat (size_raw z) < 2 ^ 64" using unsigned_less [of "size_raw z"] by simp
  then show ?thesis
    by (simp add: size_try_from_def size_display_parse unat_ucast_up)
qed

lemma price_new_valid: "price_new raw = Inr p \<longleftrightarrow> p = FixedPrice raw \<and> price_valid p"
  by (auto simp: price_new_def price_valid_def not_le)

lemma price_try_from_valid:
  assumes "price_try_from s = Inr p"
  shows "price_valid p"
proof -
  from assms obtain raw where raw: "raw \<le> (10000 :: u128)" and p: "p = FixedPrice (ucast raw)"
    by (auto simp: price_try_from_def ok_or_def not_less split: option.splits if_splits)
  from raw have "unat raw \<le> 10000" by (simp add: word_le_nat_alt)
  then have "unat (ucast raw :: u32) \<le> 10000"
    unfolding unat_ucast_take_bit by (rule order_trans [OF take_bit_nat_less_eq_self])
  with p show ?thesis
    by (simp add: price_valid_def PRICE_SCALE_def word_le_nat_alt)
qed


text \<open>
  Serialising a price or a size and deserialising it returns the value, in the
  human-readable form (the exact decimal string) and in the binary form (the raw integer): a
  size always, a price exactly when it satisfies the range invariant.
\<close>

theorem fixed_serde_roundtrip:
  "(price_deserialize human_readable (price_serialize human_readable p) = Inr p
      \<longleftrightarrow> price_valid p) \<and>
   size_deserialize human_readable (size_serialize human_readable z) = Inr z"
  by (auto simp: price_serialize_def price_deserialize_def size_serialize_def
      size_deserialize_def price_new_def price_valid_def not_le split: if_splits)

section \<open>Error texts\<close>

fun types_error_display :: "types_error \<Rightarrow> string" where
  "types_error_display (InvalidPrice raw) = ''invalid price: raw='' @ dec (unat raw) @ '' exceeds max 10000''"
| "types_error_display (InvalidPriceValue v) = ''invalid price: '' @ v @ '' is not a finite non-negative number''"
| "types_error_display (PriceParse s) = ''price parse failed: '' @ [CHR 0x27] @ s @ [CHR 0x27] @ '' is not a valid decimal in [0.0, 1.0]''"
| "types_error_display (SizeParse s) = ''size parse failed: '' @ [CHR 0x27] @ s @ [CHR 0x27] @ '' is not a valid non-negative decimal''"
| "types_error_display (InvalidSide s) = ''invalid side: '' @ [CHR 0x27] @ s @ [CHR 0x27] @ '' (expected Bid, Ask, BUY, or SELL)''"
| "types_error_display (Deserialize s) = ''deserialization error: '' @ s"

end
