(* ===== verification/Newtype.thy ===== *)
theory Newtype
  imports PB_Text
begin

text \<open>
  \<open>crates/pb-types/src/newtype.rs\<close>: asset identifiers, their percent-encoded storage keys, the
  Parquet object file names built from them and the matching of file names against keys, and
  the wrapping sequence number. The file name format itself is the one of \<open>encode_group\<close> in
  \<open>crates/pb-store/src/writer.rs\<close>. The lemmas characterise the file name parser exactly and
  give the exact condition under which a file of one asset is taken for a file of another.
\<close>

section \<open>Asset identifiers and sequences\<close>

type_synonym asset_id = string

datatype sequence = Sequence (seq_raw: u64)

instantiation sequence :: linorder
begin
definition less_eq_sequence :: "sequence \<Rightarrow> sequence \<Rightarrow> bool" where
  "less_eq_sequence a b = (seq_raw a \<le> seq_raw b)"
definition less_sequence :: "sequence \<Rightarrow> sequence \<Rightarrow> bool" where
  "less_sequence a b = (seq_raw a < seq_raw b)"
instance
  by standard (auto simp: less_eq_sequence_def less_sequence_def sequence.expand)
end

definition seq_default :: sequence where
  "seq_default = Sequence 0"

definition seq_next :: "sequence \<Rightarrow> sequence" where
  "seq_next s = Sequence (seq_raw s + 1)"

section \<open>Storage keys\<close>

definition storage_safe :: "char \<Rightarrow> bool" where
  "storage_safe c \<longleftrightarrow>
     (65 \<le> char_code c \<and> char_code c \<le> 90) \<or> (97 \<le> char_code c \<and> char_code c \<le> 122) \<or>
     is_ascii_digit c \<or> c = CHR ''-'' \<or> c = CHR ''_'' \<or> c = CHR ''.''"

definition storage_byte :: "char \<Rightarrow> string" where
  "storage_byte c = (if storage_safe c then [c] else CHR ''%'' # hex_upper2 (char_code c))"

definition storage_key_for :: "string \<Rightarrow> string" where
  "storage_key_for raw = concat (map storage_byte raw)"

definition storage_file_asset_key :: "string \<Rightarrow> string option" where
  "storage_file_asset_key file_name =
     (case strip_suffix ''.parquet'' file_name of
        None \<Rightarrow> None
      | Some stem \<Rightarrow>
          (case rsplitn 4 (CHR ''_'') stem of
             [len, hash, first_ts_us, asset] \<Rightarrow>
               if asset = [] \<or> first_ts_us = [] \<or> len = [] \<or>
                  \<not> list_all is_ascii_digit first_ts_us \<or> \<not> list_all is_ascii_digit len \<or>
                  length hash \<noteq> 16 \<or> \<not> list_all is_ascii_hexdigit hash
               then None else Some asset
           | _ \<Rightarrow> None))"

definition storage_file_matches_asset :: "string \<Rightarrow> string \<Rightarrow> bool" where
  "storage_file_matches_asset file_name asset_key \<longleftrightarrow>
     storage_file_asset_key file_name = Some asset_key"

definition replace_percent :: "string \<Rightarrow> string" where
  "replace_percent s = concat (map (\<lambda>c. if c = CHR ''%'' then ''%25'' else [c]) s)"

definition storage_object_component_matches_key :: "string \<Rightarrow> string \<Rightarrow> bool" where
  "storage_object_component_matches_key component storage_key \<longleftrightarrow>
     component = storage_key \<or> component = replace_percent storage_key"

definition storage_object_file_matches_asset :: "string \<Rightarrow> string \<Rightarrow> bool" where
  "storage_object_file_matches_asset file_name asset_key =
     (case storage_file_asset_key file_name of
        None \<Rightarrow> False
      | Some file_asset \<Rightarrow> storage_object_component_matches_key file_asset asset_key)"

text \<open>The object file name that \<open>encode_group\<close> builds from the asset key, the first record's
  timestamp, the 64-bit content hash and the byte length.\<close>

definition parquet_file_name :: "string \<Rightarrow> u64 \<Rightarrow> u64 \<Rightarrow> nat \<Rightarrow> string" where
  "parquet_file_name asset first_ts_us content_hash len =
     asset @ ''_'' @ dec (unat first_ts_us) @ ''_'' @ hex_lower 16 (unat content_hash) @ ''_'' @
     dec len @ ''.parquet''"

section \<open>The file name parser\<close>

lemma rsplitn_4_Some:
  "rsplitn 4 c s = [l, h, t, a] \<longleftrightarrow>
     s = a @ c # t @ c # h @ c # l \<and> c \<notin> set t \<and> c \<notin> set h \<and> c \<notin> set l"
proof -
  have four: "4 = Suc (Suc (Suc (Suc 0)))" by simp
  have "rsplitn 4 c s = [l, h, t, a] \<longleftrightarrow>
      (\<exists>r1 r2. rsplit_once c s = Some (r1, l) \<and> rsplit_once c r1 = Some (r2, h) \<and>
         rsplit_once c r2 = Some (a, t))"
    unfolding four by (auto split: option.splits prod.splits)
  then show ?thesis by (auto simp: rsplit_once_Some)
qed

definition suffix_fields_ok :: "string \<Rightarrow> string \<Rightarrow> string \<Rightarrow> bool" where
  "suffix_fields_ok first_ts_us hash len \<longleftrightarrow>
     first_ts_us \<noteq> [] \<and> list_all is_ascii_digit first_ts_us \<and>
     length hash = 16 \<and> list_all is_ascii_hexdigit hash \<and>
     len \<noteq> [] \<and> list_all is_ascii_digit len"

lemma suffix_fields_no_underscore:
  "suffix_fields_ok t h l \<Longrightarrow> CHR ''_'' \<notin> set t \<and> CHR ''_'' \<notin> set h \<and> CHR ''_'' \<notin> set l"
  using not_hexdigit_underscore by (auto simp: suffix_fields_ok_def list_all_iff)

lemma storage_file_asset_key_iff:
  "storage_file_asset_key f = Some a \<longleftrightarrow>
     a \<noteq> [] \<and> (\<exists>t h l. suffix_fields_ok t h l \<and>
       f = a @ CHR ''_'' # t @ CHR ''_'' # h @ CHR ''_'' # l @ ''.parquet'')"
proof
  assume "storage_file_asset_key f = Some a"
  then obtain stem l h t where "strip_suffix ''.parquet'' f = Some stem"
    "rsplitn 4 (CHR ''_'') stem = [l, h, t, a]" "a \<noteq> []" "suffix_fields_ok t h l"
    by (auto simp: storage_file_asset_key_def suffix_fields_ok_def
        split: option.splits list.splits if_splits)
  then show "a \<noteq> [] \<and> (\<exists>t h l. suffix_fields_ok t h l \<and>
       f = a @ CHR ''_'' # t @ CHR ''_'' # h @ CHR ''_'' # l @ ''.parquet'')"
    by (auto simp: strip_suffix_Some rsplitn_4_Some)
next
  assume "a \<noteq> [] \<and> (\<exists>t h l. suffix_fields_ok t h l \<and>
       f = a @ CHR ''_'' # t @ CHR ''_'' # h @ CHR ''_'' # l @ ''.parquet'')"
  then obtain t h l where a: "a \<noteq> []" and ok: "suffix_fields_ok t h l"
    and f: "f = (a @ CHR ''_'' # t @ CHR ''_'' # h @ CHR ''_'' # l) @ ''.parquet''"
    by auto
  have "strip_suffix ''.parquet'' f = Some (a @ CHR ''_'' # t @ CHR ''_'' # h @ CHR ''_'' # l)"
    unfolding f by (rule strip_suffix_append)
  moreover have "rsplitn 4 (CHR ''_'') (a @ CHR ''_'' # t @ CHR ''_'' # h @ CHR ''_'' # l)
      = [l, h, t, a]"
    using suffix_fields_no_underscore [OF ok] by (simp add: rsplitn_4_Some)
  ultimately show "storage_file_asset_key f = Some a"
    using a ok by (auto simp: storage_file_asset_key_def suffix_fields_ok_def)
qed

lemma parquet_file_name_key:
  assumes "a \<noteq> []"
  shows "storage_file_asset_key (parquet_file_name a ts hash len) = Some a"
proof -
  have "suffix_fields_ok (dec (unat ts)) (hex_lower 16 (unat hash)) (dec len)"
    by (simp add: suffix_fields_ok_def)
  with assms show ?thesis
    unfolding storage_file_asset_key_iff parquet_file_name_def by auto
qed

lemma parquet_file_name_inject:
  assumes "parquet_file_name a ts h n = parquet_file_name a' ts' h' n'"
  shows "a = a'"
proof -
  have ok: "suffix_fields_ok (dec (unat ts)) (hex_lower 16 (unat h)) (dec n)" for ts h n
    by (simp add: suffix_fields_ok_def)
  have split: "rsplitn 4 (CHR ''_'') (a @ CHR ''_'' # dec (unat ts) @ CHR ''_'' # hex_lower 16 (unat h) @ CHR ''_'' # dec n) =
      [dec n, hex_lower 16 (unat h), dec (unat ts), a]" for a ts h n
    using suffix_fields_no_underscore [OF ok, of ts h n] by (simp add: rsplitn_4_Some)
  have "a @ CHR ''_'' # dec (unat ts) @ CHR ''_'' # hex_lower 16 (unat h) @ CHR ''_'' # dec n =
      a' @ CHR ''_'' # dec (unat ts') @ CHR ''_'' # hex_lower 16 (unat h') @ CHR ''_'' # dec n'"
    using assms by (simp add: parquet_file_name_def)
  from arg_cong [OF this, of "rsplitn 4 (CHR ''_'')"] show ?thesis unfolding split by (simp only: list.inject)
qed

section \<open>The encoding is injective and its keys are path safe\<close>

lemma storage_safe_percent [simp]: "\<not> storage_safe (CHR ''%'')"
  by (simp add: storage_safe_def is_ascii_digit_def char_code_def)

lemma char_code_less: "char_code c < 256"
  unfolding char_code_def by (rule nat_of_char_less_256)

lemma char_code_inject: "char_code c = char_code d \<longleftrightarrow> c = d"
  by (simp add: char_code_def)

lemma hex_char_upper_code:
  "d < 16 \<Longrightarrow> char_code (hex_char 65 d) = (if d < 10 then 48 + d else 55 + d)"
  by (auto simp: hex_char_def char_code_def of_char_of)

lemma hex_char_upper_inject:
  assumes "d < 16" "e < 16" "hex_char 65 d = hex_char 65 e"
  shows "d = e"
proof -
  have "(if d < 10 then 48 + d else 55 + d) = (if e < 10 then 48 + e else 55 + e)"
    using assms hex_char_upper_code by metis
  then show ?thesis by (cases "d < 10"; cases "e < 10") simp_all
qed

lemma hex_upper2_inject:
  assumes "m < 256" "n < 256" "hex_upper2 m = hex_upper2 n"
  shows "m = n"
proof -
  have "m div 16 = n div 16" "m mod 16 = n mod 16"
    using assms by (auto simp: hex_upper2_def intro!: hex_char_upper_inject)
  then show ?thesis by (metis div_mult_mod_eq)
qed

lemma hex_char_upper_safe: "d < 16 \<Longrightarrow> storage_safe (hex_char 65 d)"
  using hex_char_upper_code [of d] by (auto simp: storage_safe_def is_ascii_digit_def split: if_splits)

lemma storage_byte_inject:
  "storage_byte c @ s = storage_byte d @ t \<Longrightarrow> c = d \<and> s = t"
proof -
  assume eq: "storage_byte c @ s = storage_byte d @ t"
  show ?thesis
  proof (cases "storage_safe c"; cases "storage_safe d")
    assume "\<not> storage_safe c" "\<not> storage_safe d"
    with eq have "hex_upper2 (char_code c) = hex_upper2 (char_code d)" "s = t"
      by (auto simp: storage_byte_def hex_upper2_def)
    then show ?thesis
      using hex_upper2_inject [OF char_code_less char_code_less] char_code_inject by blast
  qed (use eq in \<open>auto simp: storage_byte_def\<close>)
qed

lemma storage_key_for_Nil [simp]: "storage_key_for [] = []"
  by (simp add: storage_key_for_def)

lemma storage_key_for_Cons: "storage_key_for (c # s) = storage_byte c @ storage_key_for s"
  by (simp add: storage_key_for_def)

lemma storage_byte_not_Nil [simp]: "storage_byte c \<noteq> []"
  by (simp add: storage_byte_def)

lemma storage_key_for_inject: "storage_key_for a = storage_key_for b \<longleftrightarrow> a = b"
proof
  show "storage_key_for a = storage_key_for b \<Longrightarrow> a = b"
  proof (induction a arbitrary: b)
    case Nil
    then show ?case by (cases b) (auto simp: storage_key_for_Cons)
  next
    case (Cons c a)
    from Cons.prems obtain d b' where b: "b = d # b'"
      by (cases b) (auto simp: storage_key_for_Cons)
    with Cons.prems have "c = d" "storage_key_for a = storage_key_for b'"
      using storage_byte_inject by (auto simp: storage_key_for_Cons)
    with Cons.IH b show ?case by simp
  qed
qed simp

lemma storage_byte_chars: "x \<in> set (storage_byte c) \<Longrightarrow> storage_safe x \<or> x = CHR ''%''"
  using char_code_less [of c]
  by (auto simp: storage_byte_def hex_upper2_def hex_char_upper_safe split: if_splits)

lemma storage_key_chars: "x \<in> set (storage_key_for s) \<Longrightarrow> storage_safe x \<or> x = CHR ''%''"
  by (auto simp: storage_key_for_def dest: storage_byte_chars)

lemma storage_byte_percent: "storage_byte (CHR ''%'') = ''%25''"
  by code_simp

text \<open>On keys, the legacy escaping of percent signs is the key encoding applied once more.\<close>

lemma replace_percent_key: "replace_percent (storage_key_for s) = storage_key_for (storage_key_for s)"
proof -
  have "(if c = CHR ''%'' then ''%25'' else [c]) = storage_byte c"
    if "c \<in> set (storage_key_for s)" for c
    using storage_key_chars [OF that] storage_byte_percent by (auto simp: storage_byte_def)
  then have "map (\<lambda>c. if c = CHR ''%'' then ''%25'' else [c]) (storage_key_for s) =
      map storage_byte (storage_key_for s)"
    by (rule map_cong [OF refl])
  then show ?thesis
    by (simp only: replace_percent_def storage_key_for_def [of "storage_key_for s"])
qed

lemma component_matches_key:
  "storage_object_component_matches_key (storage_key_for a) (storage_key_for b) \<longleftrightarrow>
     a = b \<or> a = storage_key_for b"
  by (simp add: storage_object_component_matches_key_def replace_percent_key storage_key_for_inject)

lemma storage_key_for_eq_Nil [simp]: "storage_key_for a = [] \<longleftrightarrow> a = []"
  by (cases a) (auto simp: storage_key_for_Cons)


text \<open>
  C39. Object matching, exactly: a Parquet object written for asset \<open>a\<close> is taken for an object of
  asset \<open>b\<close> if and only if \<open>a\<close> is \<open>b\<close>, or \<open>a\<close> is literally the percent-encoded key of \<open>b\<close> (the
  price of accepting doubly encoded legacy names). The asset key parsed out of the file name is
  the one it was written with, underscores in the key included.
\<close>

theorem object_file_match_exact:
  assumes "a \<noteq> []"
  shows "storage_file_asset_key (parquet_file_name (storage_key_for a) ts hash len)
      = Some (storage_key_for a) \<and>
    (storage_object_file_matches_asset (parquet_file_name (storage_key_for a) ts hash len)
      (storage_key_for b) \<longleftrightarrow> a = b \<or> a = storage_key_for b)"
  using assms parquet_file_name_key [of "storage_key_for a" ts hash len] component_matches_key
  by (simp add: storage_object_file_matches_asset_def)

theorem object_file_match_exact_witness:
  "''a%2Fb'' \<noteq> [] \<and>
   storage_object_file_matches_asset
     (parquet_file_name (storage_key_for ''a%2Fb'') 1700000000000000 7 42) (storage_key_for ''a/b'')"
proof -
  have "''a%2Fb'' = storage_key_for ''a/b''"
    by code_simp
  then show ?thesis
    using object_file_match_exact [of "''a%2Fb''" 1700000000000000 7 42 "''a/b''"] by simp
qed

end
