(* ===== verification/Slug.thy ===== *)
theory Slug
  imports Newtype
begin

text \<open>
  \<open>crates/pb-types/src/slug.rs\<close>: the registry between human-readable slugs and token
  identifiers. The reference-counted lock around the three maps is not modelled: each method
  holds it for its whole body, so a method is one state transition.
\<close>

record slug_registry =
  slug_to_token :: "string \<rightharpoonup> asset_id"
  token_to_slug :: "asset_id \<rightharpoonup> string"
  token_to_label :: "asset_id \<rightharpoonup> string"

definition slug_registry_new :: slug_registry where
  "slug_registry_new =
     \<lparr>slug_to_token = Map.empty, token_to_slug = Map.empty, token_to_label = Map.empty\<rparr>"

definition slug_register :: "slug_registry \<Rightarrow> string \<Rightarrow> asset_id \<Rightarrow> slug_registry" where
  "slug_register r slug asset_id =
     r\<lparr>slug_to_token := (slug_to_token r)(slug \<mapsto> asset_id),
       token_to_slug := (token_to_slug r)(asset_id \<mapsto> slug)\<rparr>"

definition slug_register_market :: "slug_registry \<Rightarrow> string \<Rightarrow> string list \<Rightarrow> slug_registry" where
  "slug_register_market r base_slug token_ids =
     (case token_ids of
        [] \<Rightarrow> r
      | [t] \<Rightarrow> slug_register r base_slug t
      | [t, u] \<Rightarrow>
          slug_register (slug_register r (base_slug @ ''-yes'') t) (base_slug @ ''-no'') u
      | _ \<Rightarrow>
          fold (\<lambda>(i, t) r. slug_register r (base_slug @ ''-'' @ dec i) t)
            (enumerate 0 token_ids) r)"

definition slug_register_label :: "slug_registry \<Rightarrow> asset_id \<Rightarrow> string \<Rightarrow> slug_registry" where
  "slug_register_label r asset_id label =
     r\<lparr>token_to_label := (token_to_label r)(asset_id \<mapsto> label)\<rparr>"

definition is_raw_token_id :: "string \<Rightarrow> bool" where
  "is_raw_token_id input \<longleftrightarrow> 40 < length input \<and> list_all is_ascii_digit input"

definition slug_resolve :: "slug_registry \<Rightarrow> string \<Rightarrow> asset_id option" where
  "slug_resolve r input =
     (if is_raw_token_id input then Some input else slug_to_token r input)"

definition slug_for :: "slug_registry \<Rightarrow> asset_id \<Rightarrow> string option" where
  "slug_for r asset_id = token_to_slug r asset_id"

definition label_for :: "slug_registry \<Rightarrow> asset_id \<Rightarrow> string option" where
  "label_for r asset_id = token_to_label r asset_id"

text \<open>The slug a market's token of index \<open>i\<close> is registered under.\<close>

definition market_slug :: "string \<Rightarrow> nat \<Rightarrow> nat \<Rightarrow> string" where
  "market_slug base n i =
     (if n = 1 then base
      else if n = 2 then base @ (if i = 0 then ''-yes'' else ''-no'')
      else base @ ''-'' @ dec i)"

lemma dec_inject: "dec m = dec n \<longleftrightarrow> m = n"
  by (metis digits_val_dec)

lemma fold_register_tokens:
  "slug_to_token (fold (\<lambda>(i, t) r. slug_register r (base @ ''-'' @ dec i) t) (enumerate k ts) r) s =
     (case map_of (map (\<lambda>(i, t). (base @ ''-'' @ dec i, t)) (enumerate k ts)) s of
        None \<Rightarrow> slug_to_token r s | Some t \<Rightarrow> Some t)"
proof (induction ts arbitrary: k r)
  case (Cons t ts)
  have "base @ ''-'' @ dec k \<notin> fst ` set (map (\<lambda>(i, t). (base @ ''-'' @ dec i, t)) (enumerate (Suc k) ts))"
    by (auto simp: dec_inject in_set_enumerate_eq)
  then have "map_of (map (\<lambda>(i, t). (base @ ''-'' @ dec i, t)) (enumerate (Suc k) ts)) (base @ ''-'' @ dec k) = None"
    by (simp only: map_of_eq_None_iff not_False_eq_True)
  with Cons.IH show ?case by (auto simp: slug_register_def split: option.splits)
qed simp

lemma map_of_enumerate_slug:
  fixes ts :: "string list"
  assumes "i < length ts"
  shows "map_of (map (\<lambda>(i, t). (base @ ''-'' @ dec i, t)) (enumerate 0 ts)) (base @ ''-'' @ dec i)
    = Some (ts ! i)"
proof -
  let ?kvs = "map (\<lambda>(i, t). (base @ ''-'' @ dec i, t)) (enumerate 0 ts)"
  have "fst (case e of (i, t) \<Rightarrow> (base @ ''-'' @ dec i, t)) = base @ ''-'' @ dec (fst e)" for e :: "nat \<times> string"
    by (cases e) simp
  then have "map fst ?kvs = map (\<lambda>i. base @ ''-'' @ dec i) (map fst (enumerate 0 ts))"
    unfolding map_map by (intro map_cong) simp_all
  also have "\<dots> = map (\<lambda>i. base @ ''-'' @ dec i) [0..<length ts]" by simp
  finally have "distinct (map fst ?kvs)"
    by (simp add: distinct_map inj_on_def dec_inject)
  moreover have "(base @ ''-'' @ dec i, ts ! i) \<in> set ?kvs"
    using assms by (auto simp: in_set_enumerate_eq intro!: image_eqI [of _ _ "(i, ts ! i)"])
  ultimately show ?thesis by (rule map_of_is_SomeI)
qed

text \<open>
  Registering a market makes every one of its tokens resolvable through its own slug, for
  any number of tokens and whatever was registered before; only a single-token market whose
  base slug itself looks like a raw token identifier is resolved as that identifier instead.
\<close>

theorem market_slugs_resolve:
  assumes "i < length ts"
  shows "slug_resolve (slug_register_market r base ts) (market_slug base (length ts) i) =
    (if length ts = 1 \<and> is_raw_token_id base then Some base else Some (ts ! i))"
proof -
  have dash: "\<not> is_raw_token_id (base @ CHR ''-'' # s)" for s
    by (simp add: is_raw_token_id_def)
  consider t where "ts = [t]" | t u where "ts = [t, u]" | "2 < length ts"
    using assms by (cases ts; cases "tl ts"; cases "tl (tl ts)") auto
  then show ?thesis
  proof cases
    case 1
    with assms show ?thesis
      by (simp add: slug_resolve_def slug_register_market_def slug_register_def market_slug_def)
  next
    case 2
    with assms have "i = 0 \<or> i = 1" by auto
    with 2 dash show ?thesis
      by (auto simp: slug_resolve_def slug_register_market_def slug_register_def market_slug_def)
  next
    case 3
    then have "slug_register_market r base ts =
        fold (\<lambda>(i, t) r. slug_register r (base @ ''-'' @ dec i) t) (enumerate 0 ts) r"
      by (auto simp: slug_register_market_def split: list.splits)
    with 3 assms dash show ?thesis
      using fold_register_tokens [of base 0 ts r "base @ ''-'' @ dec i"] map_of_enumerate_slug [OF assms, of base]
      by (simp add: slug_resolve_def market_slug_def)
  qed
qed

theorem market_slugs_resolve_witness:
  "(1::nat) < length [''11'', ''22''] \<and>
   slug_resolve (slug_register_market slug_registry_new ''btc'' [''11'', ''22'']) ''btc-no'' = Some ''22''"
  using market_slugs_resolve [of 1 "[''11'', ''22'']" slug_registry_new "''btc''"]
  by (simp add: market_slug_def)

end
