(* ===== verification/TimeNorm.thy ===== *)
theory TimeNorm
  imports PB_Text
begin

text \<open>
  \<open>crates/pb-types/src/time.rs\<close>: normalisation of a raw venue timestamp to microseconds by
  magnitude, and its parser.
\<close>

definition normalize_to_micros :: "u64 \<Rightarrow> u64" where
  "normalize_to_micros raw =
     (if raw = 0 then 0
      else if raw < 1000000000000 then saturating_mul raw 1000000
      else if raw < 1000000000000000 then saturating_mul raw 1000
      else if raw < 1000000000000000000 then raw
      else raw div 1000)"

definition parse_to_micros :: "string option \<Rightarrow> u64 option" where
  "parse_to_micros ts =
     do { s \<leftarrow> ts; raw \<leftarrow> parse_u64 s; Some (normalize_to_micros raw) }"

lemma unat_u64_less: "unat (w :: u64) < 18446744073709551616"
  using unsigned_less [of w, where ?'a = nat] by simp

lemma unat_normalize:
  "unat (normalize_to_micros raw) =
     (if unat raw < 10 ^ 12 then unat raw * 10 ^ 6
      else if unat raw < 10 ^ 15 then unat raw * 10 ^ 3
      else if unat raw < 10 ^ 18 then unat raw
      else unat raw div 10 ^ 3)"
proof -
  have "unat (raw div 1000) = unat raw div 1000" by (simp add: unat_div_distrib)
  then show ?thesis
    by (simp add: normalize_to_micros_def word_less_nat_alt unat_saturating_mul min_def unat_eq_0)
qed

text \<open>
  The four venue resolutions of one instant agree: for a Unix time of \<open>s\<close> seconds between
  September 2001 and the last second whose nanosecond count fits in 64 bits, the counts in
  seconds, milliseconds, microseconds and nanoseconds all normalise to the same microsecond
  value, exactly (no saturation).
\<close>

theorem resolutions_agree:
  assumes "10 ^ 9 \<le> s" "s * 10 ^ 9 < 2 ^ 64"
  shows "unat (normalize_to_micros (of_nat s)) = s * 10 ^ 6 \<and>
    unat (normalize_to_micros (of_nat (s * 10 ^ 3))) = s * 10 ^ 6 \<and>
    unat (normalize_to_micros (of_nat (s * 10 ^ 6))) = s * 10 ^ 6 \<and>
    unat (normalize_to_micros (of_nat (s * 10 ^ 9))) = s * 10 ^ 6"
proof -
  have u: "unat (of_nat n :: u64) = n" if "n \<le> s * 10 ^ 9" for n
    using assms(2) that by (simp add: of_nat_inverse)
  show ?thesis
    using assms by (simp add: unat_normalize u del: of_nat_mult)
qed

theorem resolutions_agree_witness:
  "(10::nat) ^ 9 \<le> 1750000000 \<and> (1750000000::nat) * 10 ^ 9 < 2 ^ 64 \<and>
   unat (normalize_to_micros (of_nat (1750000000 * 10 ^ 9))) = 1750000000 * 10 ^ 6"
  using resolutions_agree [of 1750000000] by simp

end
