(* ===== verification/Event.thy ===== *)
theory Event
  imports Fixed Newtype
begin

text \<open>
  \<open>crates/pb-types/src/event.rs\<close>: the persisted record model shared by the feed, the log, the
  store, replay and the live read model, with the text labels of its enums.
\<close>

section \<open>Enums and their labels\<close>

datatype side = Bid | Ask

datatype data_source = WebSocket | RestSnapshot | ReplayValidator | System

datatype book_event_kind = Snapshot | Delta

datatype trade_fidelity = PartialFidelity | FullFidelity

datatype ingest_event_kind =
    ReconnectStart
  | ReconnectSuccess
  | SequenceGap
  | StaleSnapshotSkip
  | SourceReset
  | BookMismatch

datatype replay_mode = RecvTime | ExchangeTime

fun side_display :: "side \<Rightarrow> string" where
  "side_display Bid = ''Bid''"
| "side_display Ask = ''Ask''"

fun source_display :: "data_source \<Rightarrow> string" where
  "source_display WebSocket = ''websocket''"
| "source_display RestSnapshot = ''rest_snapshot''"
| "source_display ReplayValidator = ''replay_validator''"
| "source_display System = ''system''"

fun book_kind_display :: "book_event_kind \<Rightarrow> string" where
  "book_kind_display Snapshot = ''Snapshot''"
| "book_kind_display Delta = ''Delta''"

fun fidelity_display :: "trade_fidelity \<Rightarrow> string" where
  "fidelity_display PartialFidelity = ''partial''"
| "fidelity_display FullFidelity = ''full''"

fun ingest_kind_display :: "ingest_event_kind \<Rightarrow> string" where
  "ingest_kind_display ReconnectStart = ''reconnect_start''"
| "ingest_kind_display ReconnectSuccess = ''reconnect_success''"
| "ingest_kind_display SequenceGap = ''sequence_gap''"
| "ingest_kind_display StaleSnapshotSkip = ''stale_snapshot_skip''"
| "ingest_kind_display SourceReset = ''source_reset''"
| "ingest_kind_display BookMismatch = ''book_mismatch''"

fun replay_mode_display :: "replay_mode \<Rightarrow> string" where
  "replay_mode_display RecvTime = ''recv_time''"
| "replay_mode_display ExchangeTime = ''exchange_time''"

fun is_continuity_reset :: "ingest_event_kind \<Rightarrow> bool" where
  "is_continuity_reset SourceReset = True"
| "is_continuity_reset _ = False"

definition side_from_str :: "string \<Rightarrow> string + side" where
  "side_from_str s =
     (if s = ''bid'' \<or> s = ''Bid'' then Inr Bid
      else if s = ''ask'' \<or> s = ''Ask'' then Inr Ask
      else Inl (''unknown side: '' @ s))"

section \<open>Records\<close>

record event_provenance =
  recv_timestamp_us :: u64
  exchange_timestamp_us :: u64
  source :: data_source
  source_event_id :: "string option"
  source_session_id :: "string option"
  prov_sequence :: "sequence option"
  ingest_ordinal :: "u64 option"

record book_event =
  be_asset_id :: asset_id
  be_kind :: book_event_kind
  be_side :: side
  be_price :: fixed_price
  be_size :: fixed_size
  be_provenance :: event_provenance

record trade_event =
  te_asset_id :: asset_id
  te_price :: fixed_price
  te_size :: "fixed_size option"
  te_side :: "side option"
  te_trade_id :: "string option"
  te_fidelity :: trade_fidelity
  te_provenance :: event_provenance

record ingest_event =
  ie_asset_id :: "asset_id option"
  ie_kind :: ingest_event_kind
  ie_provenance :: event_provenance
  ie_expected_sequence :: "u64 option"
  ie_observed_sequence :: "u64 option"
  ie_details :: "string option"

record price_level =
  pl_price :: fixed_price
  pl_size :: fixed_size

record book_checkpoint =
  cp_asset_id :: asset_id
  cp_timestamp_us :: u64
  cp_provenance :: event_provenance
  cp_bids :: "price_level list"
  cp_asks :: "price_level list"
  cp_wal_offset :: "u64 option"

record replay_validation =
  rv_asset_id :: asset_id
  rv_mode :: replay_mode
  rv_replay_timestamp_us :: u64
  rv_reference_timestamp_us :: u64
  rv_matched :: bool
  rv_mismatch_summary :: "string option"
  rv_persisted_at_us :: u64

datatype persisted_record =
    Book book_event
  | Trade trade_event
  | Ingest ingest_event
  | Checkpoint book_checkpoint
  | Validation replay_validation

record market_data_window =
  book_events :: "book_event list"
  trade_events :: "trade_event list"
  ingest_events :: "ingest_event list"

fun dataset_name :: "persisted_record \<Rightarrow> string" where
  "dataset_name (Book _) = ''book_events''"
| "dataset_name (Trade _) = ''trade_events''"
| "dataset_name (Ingest _) = ''ingest_events''"
| "dataset_name (Checkpoint _) = ''book_checkpoints''"
| "dataset_name (Validation _) = ''replay_validations''"

fun asset_partition :: "persisted_record \<Rightarrow> string" where
  "asset_partition (Book e) = be_asset_id e"
| "asset_partition (Trade e) = te_asset_id e"
| "asset_partition (Ingest e) = (case ie_asset_id e of Some a \<Rightarrow> a | None \<Rightarrow> ''global'')"
| "asset_partition (Checkpoint e) = cp_asset_id e"
| "asset_partition (Validation e) = rv_asset_id e"

fun partition_timestamp_us :: "persisted_record \<Rightarrow> u64" where
  "partition_timestamp_us (Book e) = recv_timestamp_us (be_provenance e)"
| "partition_timestamp_us (Trade e) = recv_timestamp_us (te_provenance e)"
| "partition_timestamp_us (Ingest e) = recv_timestamp_us (ie_provenance e)"
| "partition_timestamp_us (Checkpoint e) = cp_timestamp_us e"
| "partition_timestamp_us (Validation e) = rv_persisted_at_us e"

fun record_recv_timestamp_us :: "persisted_record \<Rightarrow> u64 option" where
  "record_recv_timestamp_us (Book e) = Some (recv_timestamp_us (be_provenance e))"
| "record_recv_timestamp_us (Trade e) = Some (recv_timestamp_us (te_provenance e))"
| "record_recv_timestamp_us (Ingest e) = Some (recv_timestamp_us (ie_provenance e))"
| "record_recv_timestamp_us (Checkpoint e) = Some (recv_timestamp_us (cp_provenance e))"
| "record_recv_timestamp_us (Validation _) = None"

text \<open>\<open>provenance_mut\<close> hands out a mutable reference: modelled as the update it allows.\<close>

fun map_provenance :: "(event_provenance \<Rightarrow> event_provenance) \<Rightarrow> persisted_record \<Rightarrow> persisted_record" where
  "map_provenance f (Book e) = Book (e\<lparr>be_provenance := f (be_provenance e)\<rparr>)"
| "map_provenance f (Trade e) = Trade (e\<lparr>te_provenance := f (te_provenance e)\<rparr>)"
| "map_provenance f (Ingest e) = Ingest (e\<lparr>ie_provenance := f (ie_provenance e)\<rparr>)"
| "map_provenance f (Checkpoint e) = Checkpoint (e\<lparr>cp_provenance := f (cp_provenance e)\<rparr>)"
| "map_provenance f (Validation e) = Validation e"

end
