(* ===== verification/Book.thy ===== *)
theory Book
  imports PB_Maps PB_Machine Event
begin

text \<open>
  \<open>crates/pb-book/src/book.rs\<close> and \<open>error.rs\<close>: the level-2 order book. Bids are keyed by
  reversed prices so that iteration starts at the best bid, asks by prices; running totals of
  both sides are maintained beside the maps. An operation that could abort (the unchecked
  subtraction of a removed level from the running total) returns an option; the invariant
  shows that it never does. The floating-point views (mid price, spread, weighted mid) are
  not modelled.
\<close>

section \<open>State\<close>

datatype book_error =
    BookInvalidPrice string string string
  | UnknownSide string string
  | BookSequenceGap string u64 u64 u64
  | CrossedBook string string string
  | AggregateOverflow string string

text \<open>\<open>std::cmp::Reverse\<close>: the same values in the opposite order.\<close>

datatype 'a reverse = Reverse (unreverse: 'a)

instantiation reverse :: (linorder) linorder
begin
definition less_eq_reverse :: "'a reverse \<Rightarrow> 'a reverse \<Rightarrow> bool" where
  "less_eq_reverse p q = (unreverse q \<le> unreverse p)"
definition less_reverse :: "'a reverse \<Rightarrow> 'a reverse \<Rightarrow> bool" where
  "less_reverse p q = (unreverse q < unreverse p)"
instance
  by standard (auto simp: less_eq_reverse_def less_reverse_def reverse.expand)
end

type_synonym book_side = "(fixed_price \<times> fixed_size) list"

record l2book =
  lb_asset_id :: asset_id
  bids :: "(fixed_price reverse, fixed_size) btree"
  asks :: "(fixed_price, fixed_size) btree"
  book_sequence :: sequence
  last_update_us :: u64
  total_bid_raw :: u64
  total_ask_raw :: u64
  seq_initialized :: bool

definition book_new :: "asset_id \<Rightarrow> l2book" where
  "book_new a = \<lparr> lb_asset_id = a, bids = bt_empty, asks = bt_empty, book_sequence = Sequence 0,
     last_update_us = 0, total_bid_raw = 0, total_ask_raw = 0, seq_initialized = False \<rparr>"

section \<open>Snapshots\<close>

text \<open>
  One side of a snapshot: the fold over the levels, skipping empty ones, replacing the total
  of a level that occurs again; the first overflow ends it.
\<close>

fun snapshot_side :: "(fixed_price \<Rightarrow> 'k::linorder) \<Rightarrow> book_error \<Rightarrow> book_side \<Rightarrow>
    ('k, fixed_size) btree \<Rightarrow> u64 \<Rightarrow> book_error + ('k, fixed_size) btree \<times> u64" where
  "snapshot_side key err [] next_side next_raw = Inr (next_side, next_raw)"
| "snapshot_side key err ((price, sz) # ls) next_side next_raw =
     (if size_is_zero sz then snapshot_side key err ls next_side next_raw
      else
        let old_raw = (case bt_get next_side (key price) of None \<Rightarrow> 0 | Some s \<Rightarrow> size_raw s)
        in (case do { t \<leftarrow> checked_sub next_raw old_raw; checked_add t (size_raw sz) } of
              None \<Rightarrow> Inl err
            | Some r \<Rightarrow> snapshot_side key err ls (bt_insert (key price) sz next_side) r))"

definition try_apply_snapshot ::
    "l2book \<Rightarrow> book_side \<Rightarrow> book_side \<Rightarrow> sequence \<Rightarrow> u64 \<Rightarrow> l2book \<times> (book_error + unit)" where
  "try_apply_snapshot b bs as sq ts =
     (case snapshot_side Reverse (AggregateOverflow (lb_asset_id b) ''Bid'') bs bt_empty 0 of
        Inl e \<Rightarrow> (b, Inl e)
      | Inr (next_bids, next_bid_raw) \<Rightarrow>
          (case snapshot_side (\<lambda>p. p) (AggregateOverflow (lb_asset_id b) ''Ask'') as bt_empty 0 of
             Inl e \<Rightarrow> (b, Inl e)
           | Inr (next_asks, next_ask_raw) \<Rightarrow>
               (b\<lparr> bids := next_bids, asks := next_asks, total_bid_raw := next_bid_raw,
                   total_ask_raw := next_ask_raw, book_sequence := sq, seq_initialized := True,
                   last_update_us := ts \<rparr>, Inr ())))"

definition apply_snapshot ::
    "l2book \<Rightarrow> book_side \<Rightarrow> book_side \<Rightarrow> sequence \<Rightarrow> u64 \<Rightarrow> l2book" where
  "apply_snapshot b bs as sq ts = fst (try_apply_snapshot b bs as sq ts)"

section \<open>Deltas\<close>

text \<open>
  One side of a delta, on the map and its total. The outer option is the abort of the
  unchecked \<open>-=\<close> on removal.
\<close>

definition delta_side :: "'k::linorder \<Rightarrow> fixed_size \<Rightarrow> book_error \<Rightarrow>
    ('k, fixed_size) btree \<Rightarrow> u64 \<Rightarrow> (book_error + ('k, fixed_size) btree \<times> u64) option" where
  "delta_side key sz err m tot =
     (if size_is_zero sz then
        (case bt_get m key of
           None \<Rightarrow> Some (Inr (m, tot))
         | Some old \<Rightarrow>
             do { tot' \<leftarrow> checked_sub tot (size_raw old); Some (Inr (bt_remove key m, tot')) })
      else
        let old_raw = (case bt_get m key of None \<Rightarrow> 0 | Some s \<Rightarrow> size_raw s)
        in (case do { t \<leftarrow> checked_sub tot old_raw; checked_add t (size_raw sz) } of
              None \<Rightarrow> Some (Inl err)
            | Some next_total \<Rightarrow> Some (Inr (bt_insert key sz m, next_total))))"

definition stamp :: "l2book \<Rightarrow> sequence \<Rightarrow> u64 \<Rightarrow> l2book" where
  "stamp b sq ts = b\<lparr> book_sequence := sq, seq_initialized := True, last_update_us := ts \<rparr>"

definition try_apply_delta :: "l2book \<Rightarrow> side \<Rightarrow> fixed_price \<Rightarrow> fixed_size \<Rightarrow> sequence \<Rightarrow> u64 \<Rightarrow>
    (l2book \<times> (book_error + unit)) option" where
  "try_apply_delta b s price sz sq ts =
     (case s of
        Bid \<Rightarrow>
          (case delta_side (Reverse price) sz (AggregateOverflow (lb_asset_id b) ''Bid'')
                  (bids b) (total_bid_raw b) of
             None \<Rightarrow> None
           | Some (Inl e) \<Rightarrow> Some (b, Inl e)
           | Some (Inr (m, t)) \<Rightarrow> Some (stamp (b\<lparr> bids := m, total_bid_raw := t \<rparr>) sq ts, Inr ()))
      | Ask \<Rightarrow>
          (case delta_side price sz (AggregateOverflow (lb_asset_id b) ''Ask'')
                  (asks b) (total_ask_raw b) of
             None \<Rightarrow> None
           | Some (Inl e) \<Rightarrow> Some (b, Inl e)
           | Some (Inr (m, t)) \<Rightarrow> Some (stamp (b\<lparr> asks := m, total_ask_raw := t \<rparr>) sq ts, Inr ())))"

definition apply_delta :: "l2book \<Rightarrow> side \<Rightarrow> fixed_price \<Rightarrow> fixed_size \<Rightarrow> sequence \<Rightarrow> u64 \<Rightarrow> l2book option" where
  "apply_delta b s price sz sq ts = map_option fst (try_apply_delta b s price sz sq ts)"

section \<open>Queries\<close>

definition unrev_entry :: "fixed_price reverse \<times> fixed_size \<Rightarrow> fixed_price \<times> fixed_size" where
  "unrev_entry e = (unreverse (fst e), snd e)"

definition best_bid :: "l2book \<Rightarrow> (fixed_price \<times> fixed_size) option" where
  "best_bid b = (case bids b of [] \<Rightarrow> None | e # _ \<Rightarrow> Some (unrev_entry e))"

definition best_ask :: "l2book \<Rightarrow> (fixed_price \<times> fixed_size) option" where
  "best_ask b = (case asks b of [] \<Rightarrow> None | e # _ \<Rightarrow> Some e)"

definition bid_depth :: "l2book \<Rightarrow> nat" where
  "bid_depth b = length (bids b)"

definition ask_depth :: "l2book \<Rightarrow> nat" where
  "ask_depth b = length (asks b)"

definition check_sequence :: "l2book \<Rightarrow> sequence \<Rightarrow> book_error + unit" where
  "check_sequence b incoming =
     (let expected = seq_raw (book_sequence b) + 1
      in if seq_initialized b \<and> seq_raw incoming \<noteq> expected then
           let got = seq_raw incoming
           in Inl (BookSequenceGap (lb_asset_id b) expected got (abs_diff got expected))
         else Inr ())"

definition check_integrity :: "l2book \<Rightarrow> book_error + unit" where
  "check_integrity b =
     (case (best_bid b, best_ask b) of
        (Some (bid, _), Some (ask, _)) \<Rightarrow>
          if ask \<le> bid then
            Inl (CrossedBook (lb_asset_id b) (price_display bid) (price_display ask))
          else Inr ()
      | _ \<Rightarrow> Inr ())"

definition total_bid_size :: "l2book \<Rightarrow> fixed_size" where
  "total_bid_size b = FixedSize (total_bid_raw b)"

definition total_ask_size :: "l2book \<Rightarrow> fixed_size" where
  "total_ask_size b = FixedSize (total_ask_raw b)"

definition top_bids :: "l2book \<Rightarrow> nat \<Rightarrow> book_side" where
  "top_bids b n = map unrev_entry (take n (bids b))"

definition top_asks :: "l2book \<Rightarrow> nat \<Rightarrow> book_side" where
  "top_asks b n = take n (asks b)"

definition bids_sorted :: "l2book \<Rightarrow> book_side" where
  "bids_sorted b = map unrev_entry (bids b)"

definition asks_sorted :: "l2book \<Rightarrow> book_side" where
  "asks_sorted b = asks b"

section \<open>The specification: a side is a finite map from prices to sizes\<close>

type_synonym price_map = "fixed_price \<rightharpoonup> fixed_size"

definition map_weight :: "price_map \<Rightarrow> nat" where
  "map_weight m = (\<Sum>p\<in>dom m. unat (size_raw (the (m p))))"

text \<open>Setting a level: zero removes it, anything else replaces it unless the side overflows.\<close>

definition spec_delta :: "price_map \<Rightarrow> fixed_price \<Rightarrow> fixed_size \<Rightarrow> price_map option" where
  "spec_delta m p z =
     (if size_is_zero z then Some (m(p := None))
      else if map_weight (m(p \<mapsto> z)) < 2 ^ 64 then Some (m(p \<mapsto> z))
      else None)"

fun spec_levels :: "price_map \<Rightarrow> book_side \<Rightarrow> price_map option" where
  "spec_levels m [] = Some m"
| "spec_levels m ((p, z) # ls) =
     (if size_is_zero z then spec_levels m ls
      else (case spec_delta m p z of None \<Rightarrow> None | Some m' \<Rightarrow> spec_levels m' ls))"

definition entry_weight :: "('k, fixed_size) btree \<Rightarrow> nat" where
  "entry_weight m = (\<Sum>e\<leftarrow>m. unat (size_raw (snd e)))"

definition side_inv :: "('k::linorder, fixed_size) btree \<Rightarrow> u64 \<Rightarrow> bool" where
  "side_inv m t \<longleftrightarrow> bt_ok m \<and> unat t = entry_weight m \<and> list_all (\<lambda>e. \<not> size_is_zero (snd e)) m"

definition book_inv :: "l2book \<Rightarrow> bool" where
  "book_inv b \<longleftrightarrow> side_inv (bids b) (total_bid_raw b) \<and> side_inv (asks b) (total_ask_raw b)"

lemma bt_insert_all:
  "list_all P m \<Longrightarrow> P (k, v) \<Longrightarrow> list_all P (bt_insert k v m)"
  by (induction m) auto

lemma bt_remove_all: "list_all P m \<Longrightarrow> list_all P (bt_remove k m)"
  by (auto simp: bt_remove_def list_all_iff)

lemma entry_weight_insert:
  "bt_ok m \<Longrightarrow> entry_weight (bt_insert k z m) + (case bt_get m k of None \<Rightarrow> 0 | Some s \<Rightarrow> unat (size_raw s))
    = entry_weight m + unat (size_raw z)"
  unfolding entry_weight_def using bt.weight_put [of m "\<lambda>z. unat (size_raw z)" k z] by simp

lemma entry_weight_remove:
  "bt_ok m \<Longrightarrow> entry_weight (bt_remove k m) + (case bt_get m k of None \<Rightarrow> 0 | Some s \<Rightarrow> unat (size_raw s))
    = entry_weight m"
  unfolding entry_weight_def using bt.weight_del [of m "\<lambda>z. unat (size_raw z)" k] by simp

text \<open>A side keyed by any bijective image of the prices implements the price map.\<close>

locale keyed_side =
  fixes key :: "fixed_price \<Rightarrow> 'k::linorder"
  assumes key_bij: "bij key"
begin

definition view :: "('k, fixed_size) btree \<Rightarrow> price_map" where
  "view m p = bt_get m (key p)"

lemma view_insert: "bt_ok m \<Longrightarrow> view (bt_insert (key p) z m) = (view m)(p \<mapsto> z)"
  using key_bij by (auto simp: view_def fun_eq_iff bt.get_put bij_def inj_eq)

lemma view_remove: "bt_ok m \<Longrightarrow> view (bt_remove (key p) m) = (view m)(p := None)"
  using key_bij by (auto simp: view_def fun_eq_iff bt.get_del bij_def inj_eq)

lemma weight_view: "bt_ok m \<Longrightarrow> map_weight (view m) = entry_weight m"
proof -
  assume m: "bt_ok m"
  have inj: "inj_on key (dom (view m))"
    using key_bij by (auto simp: bij_def inj_on_def)
  have img: "key ` dom (view m) = dom (bt_get m)"
  proof
    show "dom (bt_get m) \<subseteq> key ` dom (view m)"
    proof
      fix k assume "k \<in> dom (bt_get m)"
      moreover obtain p where "k = key p"
        using key_bij by (metis bij_def surjD)
      ultimately show "k \<in> key ` dom (view m)" by (auto simp: view_def dom_def)
    qed
  qed (auto simp: view_def dom_def)
  have "entry_weight m = (\<Sum>k\<in>dom (bt_get m). unat (size_raw (the (bt_get m k))))"
    unfolding entry_weight_def using bt.weight_sum [OF m, of "\<lambda>z. unat (size_raw z)"] by simp
  also have "\<dots> = (\<Sum>p\<in>dom (view m). unat (size_raw (the (bt_get m (key p)))))"
    using sum.reindex [OF inj, of "\<lambda>k. unat (size_raw (the (bt_get m k)))"] img by simp
  finally show ?thesis by (simp add: map_weight_def view_def)
qed

lemma put_total:
  assumes "side_inv m t"
  shows "do { s \<leftarrow> checked_sub t (case bt_get m (key p) of None \<Rightarrow> 0 | Some s \<Rightarrow> size_raw s);
              checked_add s (size_raw z) } = Some r \<longleftrightarrow>
    unat r = map_weight ((view m)(p \<mapsto> z))"
proof -
  let ?old = "case bt_get m (key p) of None \<Rightarrow> 0 | Some s \<Rightarrow> size_raw s"
  have m: "bt_ok m" and t: "unat t = entry_weight m"
    using assms by (auto simp: side_inv_def)
  have old: "unat ?old = (case bt_get m (key p) of None \<Rightarrow> 0 | Some s \<Rightarrow> unat (size_raw s))"
    by (simp split: option.splits)
  have le: "unat ?old \<le> unat t"
    using entry_weight_remove [OF m, of "key p"] t old by simp
  have new: "map_weight ((view m)(p \<mapsto> z)) + unat ?old = unat t + unat (size_raw z)"
    using entry_weight_insert [OF m, of "key p" z] t old m
    by (simp add: view_insert [symmetric] weight_view bt.ok_put)
  show ?thesis
  proof
    assume "do { s \<leftarrow> checked_sub t ?old; checked_add s (size_raw z) } = Some r"
    then show "unat r = map_weight ((view m)(p \<mapsto> z))"
      using new by (auto simp: bind_eq_Some_conv checked_iffs)
  next
    assume r: "unat r = map_weight ((view m)(p \<mapsto> z))"
    have "checked_sub t ?old = Some (t - ?old)"
      using le by (simp add: checked_sub_def word_le_nat_alt)
    moreover have "unat (t - ?old) = unat t - unat ?old"
      using le by (simp add: unat_sub word_le_nat_alt)
    moreover have "checked_add (t - ?old) (size_raw z) = Some r"
      using r new le calculation(2) unfolding checked_iffs by linarith
    ultimately show "do { s \<leftarrow> checked_sub t ?old; checked_add s (size_raw z) } = Some r"
      by simp
  qed
qed

lemma put_total_None:
  assumes "side_inv m t"
  shows "do { s \<leftarrow> checked_sub t (case bt_get m (key p) of None \<Rightarrow> 0 | Some s \<Rightarrow> size_raw s);
              checked_add s (size_raw z) } = None \<longleftrightarrow>
    2 ^ 64 \<le> map_weight ((view m)(p \<mapsto> z))" (is "?L \<longleftrightarrow> ?R")
proof
  assume L: ?L
  show ?R
  proof (rule ccontr)
    assume "\<not> ?R"
    then have "unat (of_nat (map_weight ((view m)(p \<mapsto> z))) :: u64) = map_weight ((view m)(p \<mapsto> z))"
      by (simp add: of_nat_inverse)
    with put_total [OF assms] L show False by force
  qed
next
  assume ?R
  then have "unat r \<noteq> map_weight ((view m)(p \<mapsto> z))" for r :: u64
    using unsigned_less [of r, where ?'a = nat] by simp
  with put_total [OF assms] show ?L by (metis not_None_eq)
qed

lemma put_side_inv:
  assumes "side_inv m t" "\<not> size_is_zero z" "unat r = map_weight ((view m)(p \<mapsto> z))"
  shows "side_inv (bt_insert (key p) z m) r"
  using assms weight_view [of "bt_insert (key p) z m"]
  by (simp add: side_inv_def bt.ok_put bt_insert_all view_insert)

text \<open>The delta implements the specification, and cannot abort.\<close>

lemma delta_side_refines:
  assumes "side_inv m t"
  shows "case delta_side (key p) z err m t of
      None \<Rightarrow> False
    | Some (Inl e) \<Rightarrow> e = err \<and> spec_delta (view m) p z = None
    | Some (Inr (m', t')) \<Rightarrow> side_inv m' t' \<and> spec_delta (view m) p z = Some (view m')"
proof (cases "size_is_zero z")
  case True
  have m: "bt_ok m" and t: "unat t = entry_weight m"
    using assms by (auto simp: side_inv_def)
  show ?thesis
  proof (cases "bt_get m (key p)")
    case None
    then have "(view m)(p := None) = view m" by (simp add: view_def fun_eq_iff)
    with True None assms show ?thesis by (simp add: delta_side_def spec_delta_def)
  next
    case (Some old)
    have w: "entry_weight (bt_remove (key p) m) + unat (size_raw old) = unat t"
      using entry_weight_remove [OF m, of "key p"] t Some by simp
    then have le: "size_raw old \<le> t" by (simp add: word_le_nat_alt)
    then have sub: "unat (t - size_raw old) = entry_weight (bt_remove (key p) m)"
      using w by (simp add: unat_sub)
    then have "side_inv (bt_remove (key p) m) (t - size_raw old)"
      using assms by (simp add: side_inv_def bt.ok_del bt_remove_all)
    with True Some le m show ?thesis
      by (simp add: delta_side_def spec_delta_def checked_sub_def view_remove)
  qed
next
  case False
  let ?new = "do { s \<leftarrow> checked_sub t (case bt_get m (key p) of None \<Rightarrow> 0 | Some s \<Rightarrow> size_raw s);
              checked_add s (size_raw z) }"
  show ?thesis
  proof (cases ?new)
    case None
    with False put_total_None [OF assms, of p z] show ?thesis
      by (simp add: delta_side_def spec_delta_def Let_def not_less [symmetric])
  next
    case (Some r)
    then have r: "unat r = map_weight ((view m)(p \<mapsto> z))"
      using put_total [OF assms] by simp
    then have "map_weight ((view m)(p \<mapsto> z)) < 2 ^ 64"
      using unsigned_less [of r, where ?'a = nat] by simp
    with False Some put_side_inv [OF assms False r] assms show ?thesis
      by (simp add: delta_side_def spec_delta_def Let_def view_insert side_inv_def)
  qed
qed

lemma snapshot_side_refines:
  "side_inv m t \<Longrightarrow>
   (case snapshot_side key err ls m t of
       Inl e \<Rightarrow> e = err \<and> spec_levels (view m) ls = None
     | Inr (m', t') \<Rightarrow> side_inv m' t' \<and> spec_levels (view m) ls = Some (view m'))"
proof (induction ls arbitrary: m t)
  case (Cons l ls)
  obtain p z where l: "l = (p, z)" by (cases l)
  let ?new = "do { s \<leftarrow> checked_sub t (case bt_get m (key p) of None \<Rightarrow> 0 | Some s \<Rightarrow> size_raw s);
              checked_add s (size_raw z) }"
  show ?case
  proof (cases "size_is_zero z")
    case True
    with Cons.IH [OF Cons.prems] show ?thesis by (auto simp: l split: sum.splits)
  next
    case False
    show ?thesis
    proof (cases ?new)
      case None
      with False l put_total_None [OF Cons.prems, of p z] show ?thesis
        by (simp add: spec_delta_def not_less [symmetric])
    next
      case (Some r)
      then have r: "unat r = map_weight ((view m)(p \<mapsto> z))"
        using put_total [OF Cons.prems] by simp
      then have "map_weight ((view m)(p \<mapsto> z)) < 2 ^ 64"
        using unsigned_less [of r, where ?'a = nat] by simp
      moreover have "view (bt_insert (key p) z m) = (view m)(p \<mapsto> z)"
        using Cons.prems by (simp add: view_insert side_inv_def)
      ultimately show ?thesis
        using False Some l Cons.IH [OF put_side_inv [OF Cons.prems False r]]
        by (auto simp: l spec_delta_def split: sum.splits)
    qed
  qed
qed simp

text \<open>No stored level is empty, and the map view is finite.\<close>

lemma view_nonzero: "side_inv m t \<Longrightarrow> view m p = Some z \<Longrightarrow> \<not> size_is_zero z"
  unfolding view_def side_inv_def
  by (metis bt.entries_get list_all_iff snd_conv)

lemma view_empty: "view bt_empty = Map.empty"
  by (simp add: view_def fun_eq_iff bt.get_empt)

end

lemma side_inv_empty [simp]: "side_inv bt_empty 0"
  by (simp add: side_inv_def entry_weight_def) (simp add: bt_empty_def)

interpretation bidk: keyed_side Reverse
  by unfold_locales (auto simp: bij_def inj_def surj_def intro: exI [of _ "unreverse _"])

interpretation askk: keyed_side "\<lambda>p. p"
  by unfold_locales (simp add: bij_def inj_def surj_def)

section \<open>Refinement of whole books\<close>

record spec_book =
  sb_asset :: asset_id
  sb_bids :: price_map
  sb_asks :: price_map
  sb_last :: "(sequence \<times> u64) option"

definition book_abs :: "l2book \<Rightarrow> spec_book" where
  "book_abs b = \<lparr> sb_asset = lb_asset_id b,
     sb_bids = (\<lambda>p. bt_get (bids b) (Reverse p)), sb_asks = bt_get (asks b),
     sb_last = (if seq_initialized b then Some (book_sequence b, last_update_us b) else None) \<rparr>"

datatype book_op =
    OpSnapshot book_side book_side sequence u64
  | OpDelta side fixed_price fixed_size sequence u64

fun spec_step :: "spec_book \<Rightarrow> book_op \<Rightarrow> spec_book \<times> (book_error + unit)" where
  "spec_step s (OpSnapshot bs as sq ts) =
     (case spec_levels Map.empty bs of
        None \<Rightarrow> (s, Inl (AggregateOverflow (sb_asset s) ''Bid''))
      | Some mb \<Rightarrow>
          (case spec_levels Map.empty as of
             None \<Rightarrow> (s, Inl (AggregateOverflow (sb_asset s) ''Ask''))
           | Some ma \<Rightarrow> (s\<lparr> sb_bids := mb, sb_asks := ma, sb_last := Some (sq, ts) \<rparr>, Inr ())))"
| "spec_step s (OpDelta Bid p z sq ts) =
     (case spec_delta (sb_bids s) p z of
        None \<Rightarrow> (s, Inl (AggregateOverflow (sb_asset s) ''Bid''))
      | Some m \<Rightarrow> (s\<lparr> sb_bids := m, sb_last := Some (sq, ts) \<rparr>, Inr ()))"
| "spec_step s (OpDelta Ask p z sq ts) =
     (case spec_delta (sb_asks s) p z of
        None \<Rightarrow> (s, Inl (AggregateOverflow (sb_asset s) ''Ask''))
      | Some m \<Rightarrow> (s\<lparr> sb_asks := m, sb_last := Some (sq, ts) \<rparr>, Inr ()))"

fun book_step :: "l2book \<Rightarrow> book_op \<Rightarrow> (l2book \<times> (book_error + unit)) option" where
  "book_step b (OpSnapshot bs as sq ts) = Some (try_apply_snapshot b bs as sq ts)"
| "book_step b (OpDelta s p z sq ts) = try_apply_delta b s p z sq ts"

lemma bid_view: "bidk.view m p = bt_get m (Reverse p)"
  by (simp add: bidk.view_def)

lemma ask_view: "askk.view m = bt_get m"
  by (simp add: askk.view_def fun_eq_iff)

lemma bid_view_fun: "bidk.view m = (\<lambda>p. bt_get m (Reverse p))"
  by (simp add: bid_view fun_eq_iff)

lemma book_step_refines:
  assumes "book_inv b"
  shows "case book_step b op of
      None \<Rightarrow> False
    | Some (b', out) \<Rightarrow> book_inv b' \<and> spec_step (book_abs b) op = (book_abs b', out)"
proof (cases op)
  case (OpSnapshot bs as sq ts)
  let ?eb = "AggregateOverflow (lb_asset_id b) ''Bid''" and ?ea = "AggregateOverflow (lb_asset_id b) ''Ask''"
  note rb = bidk.snapshot_side_refines [of bt_empty 0 ?eb bs, OF side_inv_empty, unfolded bidk.view_empty, unfolded bid_view_fun]
  note ra = askk.snapshot_side_refines [of bt_empty 0 ?ea as, OF side_inv_empty, unfolded askk.view_empty, unfolded ask_view]
  show ?thesis
  proof (cases "snapshot_side Reverse ?eb bs bt_empty 0")
    case (Inl e)
    with rb assms show ?thesis by (simp add: OpSnapshot try_apply_snapshot_def book_abs_def)
  next
    case (Inr r)
    then show ?thesis using rb ra assms
      by (cases r; cases "snapshot_side (\<lambda>p. p) ?ea as bt_empty 0")
        (auto simp: OpSnapshot try_apply_snapshot_def book_abs_def book_inv_def)
  qed
next
  case (OpDelta s p z sq ts)
  show ?thesis
  proof (cases s)
    case Bid
    then show ?thesis
      using bidk.delta_side_refines [where m = "bids b" and t = "total_bid_raw b" and p = p and z = z
          and err = "AggregateOverflow (lb_asset_id b) ''Bid''", unfolded bid_view_fun] assms
      by (auto simp: OpDelta try_apply_delta_def book_abs_def book_inv_def stamp_def split: option.splits sum.splits)
  next
    case Ask
    then show ?thesis
      using askk.delta_side_refines [where m = "asks b" and t = "total_ask_raw b" and p = p and z = z
          and err = "AggregateOverflow (lb_asset_id b) ''Ask''", unfolded ask_view] assms
      by (auto simp: OpDelta try_apply_delta_def book_abs_def book_inv_def stamp_def split: option.splits sum.splits)
  qed
qed

text \<open>The invariant, for the two operations on their own.\<close>

lemma book_apply_inv:
  "book_inv b \<Longrightarrow> try_apply_snapshot b bs as sq ts = (b', r) \<Longrightarrow> book_inv b'"
  using book_step_refines [of b "OpSnapshot bs as sq ts"] by simp

lemma book_delta_inv:
  "book_inv b \<Longrightarrow> \<exists>b' r. try_apply_delta b s p z sq ts = Some (b', r) \<and> book_inv b'"
  using book_step_refines [of b "OpDelta s p z sq ts"] by (auto split: option.splits)

interpretation book: simulation book_step book_inv "\<lambda>_. True" book_abs spec_step
proof unfold_locales
  fix b op s' out
  assume "book_inv b"
  then show "\<exists>s' out. book_step b op = Some (s', out) \<and> book_inv s'"
    using book_step_refines [of b op] by (auto split: option.splits)
  assume "book_step b op = Some (s', out)"
  then show "spec_step (book_abs b) op = (book_abs s', out)"
    using book_step_refines [OF \<open>book_inv b\<close>, of op] by auto
qed

lemma book_new_inv [simp]: "book_inv (book_new a)"
  by (simp add: book_inv_def book_new_def)

definition spec_new :: "asset_id \<Rightarrow> spec_book" where
  "spec_new a = \<lparr> sb_asset = a, sb_bids = Map.empty, sb_asks = Map.empty, sb_last = None \<rparr>"

lemma book_abs_new: "book_abs (book_new a) = spec_new a"
  by (simp add: book_abs_def book_new_def spec_new_def bt.get_empt fun_eq_iff)

text \<open>
  C1. Any sequence of snapshots and deltas, applied to a new book, runs without aborting (the
  unchecked subtraction of a removed level never underflows), keeps the representation
  invariant (ordered maps, no empty level, running totals equal to the sums of the levels),
  and computes exactly what the specification on price maps computes: the same maps, last
  sequence and time, and the same outcome of every operation, where an operation is rejected
  precisely when a side's total would not fit in 64 bits.
\<close>

theorem book_implements_price_maps:
  "\<exists>b' outs. run book_step (book_new a) ops = Some (b', outs) \<and> book_inv b' \<and>
     arun spec_step (spec_new a) ops = (book_abs b', outs)"
  using book.run_refines [of "book_new a" ops] by (simp add: book_abs_new list_all_iff)

section \<open>Content after a snapshot, ordered views and checks\<close>

definition book_bid :: "l2book \<Rightarrow> price_map" where
  "book_bid b p = bt_get (bids b) (Reverse p)"

definition book_ask :: "l2book \<Rightarrow> price_map" where
  "book_ask b p = bt_get (asks b) p"

definition snapshot_content :: "book_side \<Rightarrow> price_map" where
  "snapshot_content ls = map_of (rev (filter (\<lambda>l. \<not> size_is_zero (snd l)) ls))"

lemma spec_levels_content:
  "spec_levels m ls = Some m' \<Longrightarrow> m' = m ++ snapshot_content ls"
proof (induction ls arbitrary: m)
  case (Cons l ls)
  then show ?case
    by (cases l) (auto simp: snapshot_content_def spec_delta_def split: if_splits option.splits)
qed (simp add: snapshot_content_def)

lemma snapshot_sides:
  assumes "try_apply_snapshot b bs as sq ts = (b', Inr ())"
  shows "book_bid b' = snapshot_content bs \<and> book_ask b' = snapshot_content as \<and>
    book_sequence b' = sq \<and> last_update_us b' = ts \<and> seq_initialized b' \<and>
    lb_asset_id b' = lb_asset_id b"
proof -
  note rb = bidk.snapshot_side_refines [of bt_empty 0 _ bs, OF side_inv_empty, unfolded bidk.view_empty, unfolded bid_view_fun]
  note ra = askk.snapshot_side_refines [of bt_empty 0 _ as, OF side_inv_empty, unfolded askk.view_empty, unfolded ask_view]
  from assms obtain mb tb ma ta where
      b: "snapshot_side Reverse (AggregateOverflow (lb_asset_id b) ''Bid'') bs bt_empty 0 = Inr (mb, tb)"
    and a: "snapshot_side (\<lambda>p. p) (AggregateOverflow (lb_asset_id b) ''Ask'') as bt_empty 0 = Inr (ma, ta)"
    and b': "b' = b\<lparr> bids := mb, asks := ma, total_bid_raw := tb, total_ask_raw := ta,
      book_sequence := sq, seq_initialized := True, last_update_us := ts \<rparr>"
    by (auto simp: try_apply_snapshot_def split: sum.splits)
  have "(\<lambda>p. bt_get mb (Reverse p)) = snapshot_content bs"
    using rb [of "AggregateOverflow (lb_asset_id b) ''Bid''"] b spec_levels_content by fastforce
  moreover have "bt_get ma = snapshot_content as"
    using ra [of "AggregateOverflow (lb_asset_id b) ''Ask''"] a spec_levels_content by fastforce
  ultimately show ?thesis
    by (simp add: b' book_bid_def [abs_def] book_ask_def [abs_def])
qed

text \<open>A snapshot is rejected precisely when a side's running total does not fit in 64 bits.\<close>

lemma snapshot_rejected_iff:
  "isl (snd (try_apply_snapshot b bs as sq ts)) \<longleftrightarrow>
     spec_levels Map.empty bs = None \<or> spec_levels Map.empty as = None"
proof -
  let ?eb = "AggregateOverflow (lb_asset_id b) ''Bid''" and ?ea = "AggregateOverflow (lb_asset_id b) ''Ask''"
  note rb = bidk.snapshot_side_refines [of bt_empty 0 ?eb bs, OF side_inv_empty, unfolded bidk.view_empty, unfolded bid_view_fun]
  note ra = askk.snapshot_side_refines [of bt_empty 0 ?ea as, OF side_inv_empty, unfolded askk.view_empty, unfolded ask_view]
  show ?thesis
    using rb ra by (auto simp: try_apply_snapshot_def split: sum.splits)
qed

text \<open>
  An accepted snapshot replaces the whole book: afterwards a price holds the size of the
  last non-empty level given for it on that side, or nothing, whatever the book held before.
\<close>

theorem snapshot_replaces_book:
  assumes "try_apply_snapshot b bs as sq ts = (b', Inr ())"
  shows "book_bid b' = snapshot_content bs \<and> book_ask b' = snapshot_content as \<and>
    book_sequence b' = sq \<and> last_update_us b' = ts \<and> seq_initialized b' \<and>
    lb_asset_id b' = lb_asset_id b"
  by (rule snapshot_sides [OF assms])

theorem snapshot_replaces_book_witness:
  "book_bid (fst (try_apply_snapshot (book_new ''a'')
      [(FixedPrice 5000, FixedSize 7), (FixedPrice 5000, FixedSize 9), (FixedPrice 4000, FixedSize 0)] []
      (Sequence 3) 17)) (FixedPrice 5000) = Some (FixedSize 9)"
proof -
  let ?bs = "[(FixedPrice 5000, FixedSize 7), (FixedPrice 5000, FixedSize 9), (FixedPrice 4000, FixedSize 0)]"
  have "snd (try_apply_snapshot (book_new ''a'') ?bs [] (Sequence 3) 17) = Inr ()"
    by code_simp
  then have "try_apply_snapshot (book_new ''a'') ?bs [] (Sequence 3) 17 =
      (fst (try_apply_snapshot (book_new ''a'') ?bs [] (Sequence 3) 17), Inr ())"
    by (metis prod.collapse)
  from snapshot_replaces_book [OF this] show ?thesis
    by (simp add: snapshot_content_def size_is_zero_def)
qed

lemma bids_entries: "book_inv b \<Longrightarrow> (Reverse p, z) \<in> set (bids b) \<longleftrightarrow> book_bid b p = Some z"
  by (simp add: book_inv_def side_inv_def bt.entries_get book_bid_def)

lemma asks_entries: "book_inv b \<Longrightarrow> (p, z) \<in> set (asks b) \<longleftrightarrow> book_ask b p = Some z"
  by (simp add: book_inv_def side_inv_def bt.entries_get book_ask_def)

lemma best_bid_Some:
  assumes "book_inv b"
  shows "best_bid b = Some (p, z) \<longleftrightarrow> book_bid b p = Some z \<and> (\<forall>q\<in>dom (book_bid b). q \<le> p)"
proof
  assume "best_bid b = Some (p, z)"
  then obtain es where e: "bids b = (Reverse p, z) # es"
    by (auto simp: best_bid_def unrev_entry_def split: list.splits)
  have "bt_ok (bids b)" using assms by (simp add: book_inv_def side_inv_def)
  from bt.first_entry_least [OF this e] show "book_bid b p = Some z \<and> (\<forall>q\<in>dom (book_bid b). q \<le> p)"
    by (auto simp: book_bid_def dom_def less_eq_reverse_def)
next
  assume a: "book_bid b p = Some z \<and> (\<forall>q\<in>dom (book_bid b). q \<le> p)"
  then have "bids b \<noteq> []" by (auto simp: book_bid_def bt_get_def)
  then obtain k v es where e: "bids b = (k, v) # es" by (cases "bids b") auto
  have "bt_ok (bids b)" using assms by (simp add: book_inv_def side_inv_def)
  from bt.first_entry_least [OF this e]
  have k: "bt_get (bids b) k = Some v" "k \<le> Reverse p"
    using a by (auto simp: book_bid_def)
  then have "unreverse k \<in> dom (book_bid b)" "p \<le> unreverse k"
    by (auto simp: book_bid_def less_eq_reverse_def)
  with a have "k = Reverse p" by (metis antisym reverse.collapse)
  with k a e show "best_bid b = Some (p, z)"
    by (simp add: best_bid_def unrev_entry_def book_bid_def)
qed

lemma best_ask_Some:
  assumes "book_inv b"
  shows "best_ask b = Some (p, z) \<longleftrightarrow> book_ask b p = Some z \<and> (\<forall>q\<in>dom (book_ask b). p \<le> q)"
proof
  have ok: "bt_ok (asks b)" using assms by (simp add: book_inv_def side_inv_def)
  {
    assume "best_ask b = Some (p, z)"
    then obtain es where "asks b = (p, z) # es"
      by (auto simp: best_ask_def split: list.splits)
    from bt.first_entry_least [OF ok this]
    show "book_ask b p = Some z \<and> (\<forall>q\<in>dom (book_ask b). p \<le> q)"
      by (simp add: book_ask_def dom_def)
  }
  assume a: "book_ask b p = Some z \<and> (\<forall>q\<in>dom (book_ask b). p \<le> q)"
  then have "asks b \<noteq> []" by (auto simp: book_ask_def bt_get_def)
  then obtain k v es where e: "asks b = (k, v) # es" by (cases "asks b") auto
  from bt.first_entry_least [OF ok e] a have "bt_get (asks b) k = Some v" "k = p"
    by (auto simp: book_ask_def dom_def intro: antisym)
  with a e show "best_ask b = Some (p, z)"
    by (simp add: best_ask_def book_ask_def)
qed

lemma best_bid_None: "book_inv b \<Longrightarrow> best_bid b = None \<longleftrightarrow> book_bid b = Map.empty"
proof -
  assume "book_inv b"
  then have "bids b = [] \<longleftrightarrow> bt_get (bids b) = Map.empty"
    by (simp add: book_inv_def side_inv_def bt.entries_Nil)
  also have "\<dots> \<longleftrightarrow> book_bid b = Map.empty"
    by (auto simp: fun_eq_iff book_bid_def) (metis reverse.exhaust)
  finally show ?thesis by (auto simp: best_bid_def split: list.splits)
qed

lemma best_ask_None: "book_inv b \<Longrightarrow> best_ask b = None \<longleftrightarrow> book_ask b = Map.empty"
proof -
  assume "book_inv b"
  then have "asks b = [] \<longleftrightarrow> bt_get (asks b) = Map.empty"
    by (simp add: book_inv_def side_inv_def bt.entries_Nil)
  then show ?thesis by (auto simp: best_ask_def book_ask_def [abs_def] split: list.splits)
qed

text \<open>
  The best bid is the highest bid price with its size and the best ask the lowest ask
  price with its size; each is absent exactly when its side is empty.
\<close>

theorem best_prices_extremal:
  assumes "book_inv b"
  shows "(best_bid b = Some (p, z) \<longleftrightarrow> book_bid b p = Some z \<and> (\<forall>q\<in>dom (book_bid b). q \<le> p)) \<and>
    (best_ask b = Some (p, z) \<longleftrightarrow> book_ask b p = Some z \<and> (\<forall>q\<in>dom (book_ask b). p \<le> q)) \<and>
    (best_bid b = None \<longleftrightarrow> book_bid b = Map.empty) \<and> (best_ask b = None \<longleftrightarrow> book_ask b = Map.empty)"
  using assms by (simp add: best_bid_Some best_ask_Some best_bid_None best_ask_None)

definition sample_book :: l2book where
  "sample_book = apply_snapshot (book_new ''a'')
     [(FixedPrice 4000, FixedSize 7), (FixedPrice 4500, FixedSize 9)] [(FixedPrice 5000, FixedSize 3)]
     (Sequence 3) 17"

lemma sample_book_inv: "book_inv sample_book"
proof -
  have "side_inv (bids sample_book) (total_bid_raw sample_book)" "side_inv (asks sample_book) (total_ask_raw sample_book)"
    by code_simp+
  then show ?thesis by (simp add: book_inv_def)
qed

theorem best_prices_extremal_witness:
  "book_inv sample_book \<and> best_bid sample_book = Some (FixedPrice 4500, FixedSize 9) \<and>
   book_bid sample_book (FixedPrice 4500) = Some (FixedSize 9)"
proof -
  have "best_bid sample_book = Some (FixedPrice 4500, FixedSize 9)" by code_simp
  then show ?thesis
    using best_prices_extremal [OF sample_book_inv, of "FixedPrice 4500" "FixedSize 9"] sample_book_inv by simp
qed

lemma views_sorted:
  assumes "book_inv b"
  shows "sorted_wrt (>) (map fst (bids_sorted b))" "sorted_wrt (<) (map fst (asks_sorted b))"
proof -
  have "sorted_wrt (<) (map fst (bids b))" "sorted_wrt (<) (map fst (asks b))"
    using assms by (auto simp: book_inv_def side_inv_def bt_ok_def)
  then show "sorted_wrt (>) (map fst (bids_sorted b))" "sorted_wrt (<) (map fst (asks_sorted b))"
    by (simp_all add: bids_sorted_def asks_sorted_def sorted_wrt_map unrev_entry_def less_reverse_def)
qed

lemma views_entries:
  assumes "book_inv b"
  shows "(p, z) \<in> set (bids_sorted b) \<longleftrightarrow> book_bid b p = Some z" "(p, z) \<in> set (asks_sorted b) \<longleftrightarrow> book_ask b p = Some z"
proof -
  have "(p, z) \<in> set (bids_sorted b) \<longleftrightarrow> (Reverse p, z) \<in> set (bids b)"
    by (auto simp: bids_sorted_def unrev_entry_def image_iff intro!: bexI [of _ "(Reverse p, z)"])
  then show "(p, z) \<in> set (bids_sorted b) \<longleftrightarrow> book_bid b p = Some z"
    by (simp add: bids_entries assms)
  show "(p, z) \<in> set (asks_sorted b) \<longleftrightarrow> book_ask b p = Some z"
    by (simp add: asks_sorted_def asks_entries assms)
qed

text \<open>
  The ordered views list every level of their side exactly once, bids strictly from the
  highest price down and asks strictly from the lowest up, and the top-n views are their first
  n levels.
\<close>

theorem ordered_views:
  assumes "book_inv b"
  shows "sorted_wrt (>) (map fst (bids_sorted b)) \<and> sorted_wrt (<) (map fst (asks_sorted b)) \<and>
    (\<forall>p z. (p, z) \<in> set (bids_sorted b) \<longleftrightarrow> book_bid b p = Some z) \<and>
    (\<forall>p z. (p, z) \<in> set (asks_sorted b) \<longleftrightarrow> book_ask b p = Some z) \<and>
    top_bids b n = take n (bids_sorted b) \<and> top_asks b n = take n (asks_sorted b) \<and>
    bid_depth b = length (bids_sorted b) \<and> ask_depth b = length (asks_sorted b)"
proof -
  have "top_bids b n = take n (bids_sorted b)" "top_asks b n = take n (asks_sorted b)"
    "bid_depth b = length (bids_sorted b)" "ask_depth b = length (asks_sorted b)"
    by (simp_all add: top_bids_def top_asks_def bids_sorted_def asks_sorted_def take_map bid_depth_def ask_depth_def)
  with views_sorted [OF assms] views_entries [OF assms] show ?thesis by simp
qed

theorem ordered_views_witness:
  "book_inv sample_book \<and> top_bids sample_book 1 = take 1 (bids_sorted sample_book) \<and>
   sorted_wrt (>) (map fst (bids_sorted sample_book))"
  using ordered_views [OF sample_book_inv, of 1] sample_book_inv by simp

text \<open>
  The integrity check accepts a book exactly when it is not crossed (every bid price is
  below every ask price), and otherwise reports the best bid and best ask as displayed.
\<close>

theorem check_integrity_exact:
  assumes "book_inv b"
  shows "(check_integrity b = Inr () \<longleftrightarrow>
      (\<forall>p\<in>dom (book_bid b). \<forall>q\<in>dom (book_ask b). p < q)) \<and>
    (check_integrity b \<noteq> Inr () \<longleftrightarrow>
      (\<exists>p z q w. best_bid b = Some (p, z) \<and> best_ask b = Some (q, w) \<and> q \<le> p \<and>
         check_integrity b = Inl (CrossedBook (lb_asset_id b) (price_display p) (price_display q))))"
proof (cases "best_bid b")
  case None
  then have "book_bid b = Map.empty" using best_bid_None [OF assms] by simp
  with None show ?thesis by (simp add: check_integrity_def)
next
  case bid: (Some e)
  obtain p z where e: "e = (p, z)" by (cases e)
  with bid have p: "book_bid b p = Some z" "\<forall>q\<in>dom (book_bid b). q \<le> p"
    using best_bid_Some [OF assms] by auto
  show ?thesis
  proof (cases "best_ask b")
    case None
    then have "book_ask b = Map.empty" using best_ask_None [OF assms] by simp
    with None bid e show ?thesis by (simp add: check_integrity_def)
  next
    case ask: (Some f)
    obtain q w where f: "f = (q, w)" by (cases f)
    with ask have q: "book_ask b q = Some w" "\<forall>r\<in>dom (book_ask b). q \<le> r"
      using best_ask_Some [OF assms] by auto
    have "(\<forall>p\<in>dom (book_bid b). \<forall>q\<in>dom (book_ask b). p < q) \<longleftrightarrow> p < q"
    proof
      assume lt: "p < q"
      show "\<forall>p\<in>dom (book_bid b). \<forall>q\<in>dom (book_ask b). p < q"
      proof (intro ballI)
        fix p' q' assume "p' \<in> dom (book_bid b)" "q' \<in> dom (book_ask b)"
        with p q have "p' \<le> p" "q \<le> q'" by blast+
        with lt show "p' < q'" by simp
      qed
    qed (use p q in blast)
    then show ?thesis
      using bid ask e f by (auto simp: check_integrity_def not_le)
  qed
qed

theorem check_integrity_exact_witness:
  "book_inv sample_book \<and> check_integrity sample_book = Inr () \<and>
   \<not> (\<exists>p\<in>dom (book_bid sample_book). \<exists>q\<in>dom (book_ask sample_book). q \<le> p)"
proof -
  have "check_integrity sample_book = Inr ()" by code_simp
  then show ?thesis
    using check_integrity_exact [OF sample_book_inv] sample_book_inv by (simp add: not_le)
qed

text \<open>
  Sequence checking: a book that has not seen a sequence accepts anything; otherwise only
  the successor of the last sequence is accepted (after the largest 64-bit value, zero), and
  the reported gap is the distance between the expected and the received value.
\<close>

theorem check_sequence_exact:
  "check_sequence b incoming =
     (if seq_initialized b \<and> unat (seq_raw incoming) \<noteq> Suc (unat (seq_raw (book_sequence b))) mod 2 ^ 64
      then Inl (BookSequenceGap (lb_asset_id b) (seq_raw (seq_next (book_sequence b))) (seq_raw incoming)
        (of_nat (if seq_raw incoming \<le> seq_raw (seq_next (book_sequence b))
           then unat (seq_raw (seq_next (book_sequence b))) - unat (seq_raw incoming)
           else unat (seq_raw incoming) - unat (seq_raw (seq_next (book_sequence b))))))
      else Inr ())"
proof -
  let ?e = "seq_raw (book_sequence b) + 1" and ?i = "seq_raw incoming"
  have "unat ?e = Suc (unat (seq_raw (book_sequence b))) mod 2 ^ 64"
    by (simp add: unat_word_ariths)
  then have ne: "?i \<noteq> ?e \<longleftrightarrow> unat ?i \<noteq> Suc (unat (seq_raw (book_sequence b))) mod 2 ^ 64"
    by (simp add: word_unat_eq_iff)
  have "abs_diff ?i ?e = of_nat (if ?i \<le> ?e then unat ?e - unat ?i else unat ?i - unat ?e)"
    unfolding unat_abs_diff [symmetric] by simp
  with ne show ?thesis
    by (simp add: check_sequence_def seq_next_def Let_def)
qed

section \<open>Error texts\<close>

fun book_error_display :: "book_error \<Rightarrow> string" where
  "book_error_display (BookInvalidPrice a p s) = ''orderbook '' @ a @ '': invalid price '' @ p @ '' on '' @ s @ '' side''"
| "book_error_display (UnknownSide a r) = ''orderbook '' @ a @ '': unknown side '' @ [CHR 0x27] @ r @ [CHR 0x27]"
| "book_error_display (BookSequenceGap a e g n) = ''orderbook '' @ a @ '': sequence gap '' @ dec (unat e) @ '' -> '' @
     dec (unat g) @ '' (dropped '' @ dec (unat n) @ '' updates)''"
| "book_error_display (CrossedBook a b k) = ''orderbook '' @ a @ '': crossed book detected, best_bid='' @ b @ '' >= best_ask='' @ k"
| "book_error_display (AggregateOverflow a s) = ''orderbook '' @ a @ '': aggregate size overflow on '' @ s @ '' side''"

end
