(* ===== verification/F64.thy ===== *)
theory F64
  imports Complex_Main PB_Prelude "HOL-Library.Log_Nat"
begin

text \<open>
  The \<open>f64\<close> of Rust, IEEE 754 binary64 with round to nearest, ties to even, over executable
  rationals: a value is not a number, an infinity or a finite number, and every operation rounds
  the exact result. The sign of a zero is not kept; none of the modelled code divides by a zero
  or tells the two apart. The lemmas bound the error of one rounding and give its exact cases.
\<close>

section \<open>Rounding\<close>

definition half_even :: "rat \<Rightarrow> int" where
  "half_even q =
     (let n = \<lfloor>q\<rfloor>; r = q - of_int n
      in if r < 1 / 2 then n else if 1 / 2 < r then n + 1 else if even n then n else n + 1)"

text \<open>The binary exponent of a positive rational.\<close>

definition binexp :: "rat \<Rightarrow> int" where
  "binexp x =
     (let (a, b) = quotient_of x; d = bitlen a - bitlen b
      in if x < 2 powi d then d - 1 else d)"

definition unit_exp :: "rat \<Rightarrow> int" where
  "unit_exp x = max (binexp \<bar>x\<bar> - 52) (- 1074)"

text \<open>The nearest number with 53 significant bits.\<close>

definition nearest :: "rat \<Rightarrow> rat" where
  "nearest x =
     (if x = 0 then 0
      else let k = unit_exp x in of_int (half_even (x / 2 powi k)) * 2 powi k)"

datatype f64 = NaN | Infinite (below: bool) | Num rat

definition rounded :: "rat \<Rightarrow> f64" where
  "rounded x = (let y = nearest x in if 2 ^ 1024 \<le> \<bar>y\<bar> then Infinite (y < 0) else Num y)"

section \<open>Operations\<close>

fun f64_add :: "f64 \<Rightarrow> f64 \<Rightarrow> f64" where
  "f64_add (Num x) (Num y) = rounded (x + y)"
| "f64_add (Infinite s) (Infinite t) = (if s = t then Infinite s else NaN)"
| "f64_add (Infinite s) (Num y) = Infinite s"
| "f64_add (Num x) (Infinite t) = Infinite t"
| "f64_add _ _ = NaN"

fun f64_neg :: "f64 \<Rightarrow> f64" where
  "f64_neg (Num x) = Num (- x)"
| "f64_neg (Infinite s) = Infinite (\<not> s)"
| "f64_neg NaN = NaN"

definition f64_sub :: "f64 \<Rightarrow> f64 \<Rightarrow> f64" where
  "f64_sub a b = f64_add a (f64_neg b)"

fun f64_mul :: "f64 \<Rightarrow> f64 \<Rightarrow> f64" where
  "f64_mul (Num x) (Num y) = rounded (x * y)"
| "f64_mul (Infinite s) (Infinite t) = Infinite (s \<noteq> t)"
| "f64_mul (Infinite s) (Num y) = (if y = 0 then NaN else Infinite (s \<noteq> (y < 0)))"
| "f64_mul (Num x) (Infinite t) = (if x = 0 then NaN else Infinite ((x < 0) \<noteq> t))"
| "f64_mul _ _ = NaN"

fun f64_div :: "f64 \<Rightarrow> f64 \<Rightarrow> f64" where
  "f64_div (Num x) (Num y) =
     (if y = 0 then (if x = 0 then NaN else Infinite (x < 0)) else rounded (x / y))"
| "f64_div (Infinite s) (Num y) = Infinite (s \<noteq> (y < 0))"
| "f64_div (Num x) (Infinite t) = Num 0"
| "f64_div _ _ = NaN"

fun f64_less :: "f64 \<Rightarrow> f64 \<Rightarrow> bool" where
  "f64_less (Num x) (Num y) = (x < y)"
| "f64_less (Infinite s) (Infinite t) = (s \<and> \<not> t)"
| "f64_less (Infinite s) (Num y) = s"
| "f64_less (Num x) (Infinite t) = (\<not> t)"
| "f64_less _ _ = False"

text \<open>\<open>f64::round\<close>: half away from zero, without an error.\<close>

fun f64_round :: "f64 \<Rightarrow> f64" where
  "f64_round (Num x) = Num (of_int (if x < 0 then - \<lfloor>1 / 2 - x\<rfloor> else \<lfloor>x + 1 / 2\<rfloor>))"
| "f64_round v = v"

definition f64_of_nat :: "nat \<Rightarrow> f64" where
  "f64_of_nat n = rounded (of_nat n)"

text \<open>The \<open>as\<close> cast to an unsigned integer truncates and saturates.\<close>

fun f64_to_word :: "f64 \<Rightarrow> 'w::len word" where
  "f64_to_word NaN = 0"
| "f64_to_word (Infinite s) = (if s then 0 else - 1)"
| "f64_to_word (Num x) =
     (if x < 0 then 0 else if 2 ^ LENGTH('w) \<le> \<lfloor>x\<rfloor> then - 1 else word_of_int \<lfloor>x\<rfloor>)"

section \<open>The error of a rounding\<close>

lemma half_even_near: "\<bar>of_int (half_even q) - q\<bar> \<le> 1 / 2"
proof -
  have "of_int \<lfloor>q\<rfloor> \<le> q" "q < of_int \<lfloor>q\<rfloor> + 1" by linarith+
  then show ?thesis by (simp add: half_even_def Let_def abs_le_iff)
qed

lemma half_even_int [simp]: "half_even (of_int n) = n"
  by (simp add: half_even_def)

lemma binexp_bounds:
  assumes "0 < x"
  shows "2 powi (binexp x) \<le> x \<and> x < 2 powi (binexp x + 1)"
proof -
  obtain a b where q: "quotient_of x = (a, b)" by (cases "quotient_of x")
  have b: "0 < b" and x: "x = of_int a / of_int b"
    using q quotient_of_denom_pos quotient_of_div by blast+
  with assms have a: "0 < a" by (simp add: zero_less_divide_iff)
  have pw: "2 powi (bitlen n - 1) \<le> (of_int n :: rat) \<and> (of_int n :: rat) < 2 powi (bitlen n)" if "0 < n" for n :: int
  proof -
    have l: "0 < bitlen n" using that bitlen_eq_zero_iff bitlen_nonneg [of n] by (metis less_le not_le)
    have "2 ^ nat (bitlen n - 1) \<le> n \<and> n < 2 ^ nat (bitlen n)" by (rule bitlen_bounds [OF that])
    then have "(of_int (2 ^ nat (bitlen n - 1)) :: rat) \<le> of_int n \<and> (of_int n :: rat) < of_int (2 ^ nat (bitlen n))"
      by (simp only: of_int_le_iff of_int_less_iff)
    then show ?thesis using l by (simp add: power_int_def)
  qed
  have lo: "2 powi (bitlen a - bitlen b - 1) < x"
  proof -
    have "2 powi (bitlen a - 1) / 2 powi (bitlen b) < (of_int a :: rat) / of_int b"
      using pw [OF a] pw [OF b] b
      by (meson divide_right_mono divide_strict_left_mono le_less_trans less_imp_le less_le_trans
          mult_pos_pos of_int_pos zero_less_power_int zero_less_numeral frac_less2)
    moreover have "2 powi (bitlen a - 1) / 2 powi (bitlen b) = (2 powi (bitlen a - bitlen b - 1) :: rat)"
      by (simp add: power_int_diff)
    ultimately show ?thesis by (simp add: x)
  qed
  have hi: "x < 2 powi (bitlen a - bitlen b + 1)"
  proof -
    have "(of_int a :: rat) / of_int b < 2 powi (bitlen a) / 2 powi (bitlen b - 1)"
      using pw [OF a] pw [OF b] a by (intro frac_less) auto
    moreover have "2 powi (bitlen a) / 2 powi (bitlen b - 1) = (2 powi (bitlen a - bitlen b + 1) :: rat)"
      by (simp add: power_int_diff power_int_add)
    ultimately show ?thesis by (simp add: x)
  qed
  show ?thesis using lo hi by (auto simp: binexp_def q Let_def)
qed

lemma nearest_error:
  assumes "x \<noteq> 0" "- 1022 \<le> binexp \<bar>x\<bar>"
  shows "\<bar>nearest x - x\<bar> \<le> \<bar>x\<bar> / 2 ^ 53"
proof -
  let ?k = "unit_exp x"
  let ?u = "2 powi ?k :: rat"
  have k: "?k = binexp \<bar>x\<bar> - 52" using assms(2) by (simp add: unit_exp_def)
  have u: "0 < ?u" by simp
  have "nearest x - x = (of_int (half_even (x / ?u)) - x / ?u) * ?u"
    using assms(1) by (simp add: nearest_def Let_def field_simps)
  then have "\<bar>nearest x - x\<bar> = \<bar>of_int (half_even (x / ?u)) - x / ?u\<bar> * ?u"
    using u by (simp add: abs_mult)
  also have "\<dots> \<le> 1 / 2 * ?u"
    using half_even_near [of "x / ?u"] u by (intro mult_right_mono) auto
  also have "\<dots> = 2 powi (binexp \<bar>x\<bar>) / 2 ^ 53"
    unfolding k by (simp add: power_int_diff)
  also have "\<dots> \<le> \<bar>x\<bar> / 2 ^ 53"
    using binexp_bounds [of "\<bar>x\<bar>"] assms(1) by (intro divide_right_mono) auto
  finally show ?thesis .
qed

lemma power_int_less_exp: "(x::rat) powi m < x powi n \<Longrightarrow> 1 < x \<Longrightarrow> m < n"
  by (meson not_less power_int_increasing less_imp_le)

lemma binexp_ge:
  assumes "0 < x" "2 powi e \<le> x"
  shows "e \<le> binexp x"
proof -
  have "(2::rat) powi e < 2 powi (binexp x + 1)"
    using binexp_bounds [OF assms(1)] assms(2) by linarith
  then have "e < binexp x + 1" by (rule power_int_less_exp) simp
  then show ?thesis by simp
qed

lemma binexp_le:
  assumes "0 < x" "x < 2 powi e"
  shows "binexp x < e"
proof -
  have "(2::rat) powi (binexp x) < 2 powi e"
    using binexp_bounds [OF assms(1)] assms(2) by linarith
  then show ?thesis by (rule power_int_less_exp) simp
qed

lemma binexp_eq: "0 < x \<Longrightarrow> 2 powi e \<le> x \<Longrightarrow> x < 2 powi (e + 1) \<Longrightarrow> binexp x = e"
  using binexp_ge [of x e] binexp_le [of x "e + 1"] by simp

text \<open>One rounding in the range of the program's numbers: no overflow, a relative error of \<open>2^-53\<close>.\<close>

lemma rounded_near:
  assumes "x = 0 \<or> 1 / 2 ^ 200 \<le> \<bar>x\<bar>" "\<bar>x\<bar> \<le> 2 ^ 200"
  obtains y where "rounded x = Num y" "\<bar>y - x\<bar> \<le> \<bar>x\<bar> / 2 ^ 53"
proof (cases "x = 0")
  case True
  then show ?thesis using that [of 0] by (simp add: rounded_def nearest_def)
next
  case False
  have "2 powi (- 200) = (1 / 2 ^ 200 :: rat)" by (simp only: power_int_minus power_int_numeral inverse_eq_divide)
  then have "2 powi (- 200) \<le> \<bar>x\<bar>" using assms(1) False by metis
  then have "- 200 \<le> binexp \<bar>x\<bar>" using False by (intro binexp_ge) auto
  then have err: "\<bar>nearest x - x\<bar> \<le> \<bar>x\<bar> / 2 ^ 53" using False by (intro nearest_error) auto
  have "\<bar>x\<bar> / 2 ^ 53 \<le> \<bar>x\<bar>" by (simp add: divide_le_eq mult_le_cancel_left1)
  with err have "\<bar>nearest x\<bar> \<le> 2 * \<bar>x\<bar>" by linarith
  also have "\<dots> \<le> 2 ^ 201" using mult_left_mono [OF assms(2), of 2] by (simp only: power_Suc [symmetric]) simp
  also have "\<dots> < (2::rat) ^ 1024" by (rule power_strict_increasing) simp_all
  finally have "rounded x = Num (nearest x)" by (simp add: rounded_def Let_def not_le)
  with err show ?thesis using that by blast
qed

text \<open>A bound for any number of that size, including those next to zero.\<close>

lemma rounded_close:
  assumes "\<bar>x\<bar> \<le> 2 ^ 200"
  obtains y where "rounded x = Num y" "\<bar>y - x\<bar> \<le> \<bar>x\<bar> / 2 ^ 53 + 1 / 2 ^ 200"
proof (cases "x = 0 \<or> 1 / 2 ^ 200 \<le> \<bar>x\<bar>")
  case True
  from rounded_near [OF this assms] obtain y where y: "rounded x = Num y" "\<bar>y - x\<bar> \<le> \<bar>x\<bar> / 2 ^ 53" .
  have "(0::rat) \<le> 1 / 2 ^ 200" by simp
  with y that show ?thesis by (metis add_increasing2)
next
  case False
  let ?u = "2 powi (unit_exp x) :: rat"
  have p: "(2::rat) powi (- 200) = 1 / 2 ^ 200" by (simp only: power_int_minus power_int_numeral inverse_eq_divide)
  then have "\<bar>x\<bar> < 2 powi (- 200)" using False by (metis not_le)
  then have "binexp \<bar>x\<bar> < - 200" using False by (intro binexp_le) auto
  then have "unit_exp x \<le> - 200" by (simp add: unit_exp_def)
  then have u: "?u \<le> 1 / 2 ^ 200" unfolding p [symmetric] by (intro power_int_increasing) auto
  have "nearest x - x = (of_int (half_even (x / ?u)) - x / ?u) * ?u"
    using False by (simp add: nearest_def Let_def field_simps)
  then have "\<bar>nearest x - x\<bar> = \<bar>of_int (half_even (x / ?u)) - x / ?u\<bar> * ?u" by (simp add: abs_mult)
  also have "\<dots> \<le> 1 * ?u" using half_even_near [of "x / ?u"] by (intro mult_right_mono) auto
  finally have err: "\<bar>nearest x - x\<bar> \<le> 1 / 2 ^ 200" using u by linarith
  have "\<bar>x\<bar> < 1 / 2 ^ 200" using False by auto
  moreover have "(1::rat) / 2 ^ 200 \<le> 1" by (simp add: divide_le_eq)
  ultimately have "\<bar>nearest x\<bar> < 2" using err by linarith
  also have "(2::rat) = 2 ^ 1" by simp
  also have "\<dots> < 2 ^ 1024" by (rule power_strict_increasing) simp_all
  finally have "rounded x = Num (nearest x)" by (simp add: rounded_def Let_def not_le)
  moreover have "0 \<le> \<bar>x\<bar> / 2 ^ 53" by simp
  ultimately show ?thesis using err that by (metis add_increasing)
qed

lemma nearest_int:
  assumes "\<bar>n\<bar> \<le> 2 ^ 53"
  shows "nearest (of_int n) = of_int n"
proof (cases "n = 0")
  case False
  let ?x = "of_int n :: rat"
  have pos: "0 < \<bar>?x\<bar>" using False by simp
  have "\<bar>?x\<bar> < 2 powi 54"
  proof -
    have "\<bar>?x\<bar> = of_int \<bar>n\<bar>" by simp
    also have "\<dots> \<le> of_int (2 ^ 53)" by (rule of_int_le_iff [THEN iffD2, OF assms])
    finally show ?thesis by simp
  qed
  then have e: "binexp \<bar>?x\<bar> < 54" by (rule binexp_le [OF pos])
  show ?thesis
  proof (cases "unit_exp ?x \<le> 0")
    case True
    have "?x / 2 powi (unit_exp ?x) = of_int (n * 2 ^ nat (- unit_exp ?x))"
      using True by (simp add: power_int_def field_simps)
    then have "half_even (?x / 2 powi (unit_exp ?x)) = n * 2 ^ nat (- unit_exp ?x)"
      by (simp only: half_even_int)
    then show ?thesis using True False by (simp add: nearest_def Let_def power_int_def field_simps)
  next
    case False
    with e have k: "unit_exp ?x = 1" and b: "binexp \<bar>?x\<bar> = 53" by (auto simp: unit_exp_def)
    then have "2 powi 53 \<le> \<bar>?x\<bar>" using binexp_bounds [OF pos] by simp
    then have "of_int (2 ^ 53) \<le> (of_int \<bar>n\<bar> :: rat)" by simp
    then have "2 ^ 53 \<le> \<bar>n\<bar>" by (simp only: of_int_le_iff)
    with assms have "n = 2 * (2 ^ 52) \<or> n = 2 * - (2 ^ 52)" by (auto simp: abs_if split: if_splits)
    then obtain m where n: "n = 2 * m" by blast
    have "?x / 2 powi (unit_exp ?x) = of_int n / 2" by (simp only: k power_int_1_right)
    also have "\<dots> = of_int m" by (simp add: n)
    finally have "?x / 2 powi (unit_exp ?x) = of_int m" .
    then have "half_even (?x / 2 powi (unit_exp ?x)) = m" by (simp only: half_even_int)
    then show ?thesis using \<open>n \<noteq> 0\<close> n unfolding nearest_def Let_def k by simp
  qed
qed (simp add: nearest_def)

lemma f64_of_nat_exact:
  assumes "n \<le> 2 ^ 53"
  shows "f64_of_nat n = Num (of_nat n)"
proof -
  have "nearest (of_int (int n)) = of_int (int n)" using assms by (intro nearest_int) simp
  then have eq: "nearest (of_nat n) = of_nat n" by simp
  have "(of_nat n :: rat) \<le> of_nat (2 ^ 53)" using assms by (simp only: of_nat_le_iff)
  also have "\<dots> < 2 ^ 1024" by (simp only: of_nat_power of_nat_numeral) (rule power_strict_increasing, simp_all)
  finally show ?thesis by (simp add: f64_of_nat_def rounded_def eq)
qed

text \<open>Rounding to the nearest integer and casting find an integer that is less than one half away.\<close>

lemma round_cast:
  assumes "\<bar>x - of_nat n\<bar> < 1 / 2"
  shows "f64_round (Num x) = Num (of_nat n)"
proof -
  have near: "of_nat n - 1 / 2 < x" "x < of_nat n + 1 / 2" using assms by linarith+
  have "\<lfloor>x + 1 / 2\<rfloor> = int n" using near by (intro floor_unique) auto
  moreover have "\<lfloor>1 / 2 - x\<rfloor> = 0" if "x < 0" using assms that by (intro floor_unique) auto
  moreover have "n = 0" if "x < 0"
  proof -
    have "(of_nat n :: rat) < 1" using assms that by auto
    then show ?thesis by simp
  qed
  ultimately show ?thesis by auto
qed

lemma f64_to_word_nat: "n < 2 ^ LENGTH('w) \<Longrightarrow> f64_to_word (Num (of_nat n)) = (of_nat n :: 'w::len word)"
  by simp

end
