(* ===== verification/FixedFloat.thy ===== *)
theory FixedFloat
  imports Book F64
begin

text \<open>
  The \<open>f64\<close> side of \<open>crates/pb-types/src/fixed.rs\<close> and \<open>crates/pb-book/src/book.rs\<close>: the
  conversions of prices and sizes from and to \<open>f64\<close>, and the mid price, spread and
  size-weighted mid price of a book. The text of a float in an error is the parameter
  \<open>show_f64\<close>.
\<close>

section \<open>Conversions\<close>

fun is_nan :: "f64 \<Rightarrow> bool" where
  "is_nan NaN = True"
| "is_nan _ = False"

fun is_infinite :: "f64 \<Rightarrow> bool" where
  "is_infinite (Infinite _) = True"
| "is_infinite _ = False"

definition price_from_f64 :: "(f64 \<Rightarrow> string) \<Rightarrow> f64 \<Rightarrow> types_error + fixed_price" where
  "price_from_f64 show_f64 v =
     (if is_nan v \<or> is_infinite v \<or> f64_less v (Num 0) then Inl (InvalidPriceValue (show_f64 v))
      else price_new (f64_to_word (f64_round (f64_mul v (f64_of_nat (unat PRICE_SCALE))))))"

definition price_as_f64 :: "fixed_price \<Rightarrow> f64" where
  "price_as_f64 p = f64_div (f64_of_nat (unat (price_raw p))) (f64_of_nat (unat PRICE_SCALE))"

definition size_from_f64 :: "(f64 \<Rightarrow> string) \<Rightarrow> f64 \<Rightarrow> types_error + fixed_size" where
  "size_from_f64 show_f64 v =
     (if is_nan v \<or> is_infinite v \<or> f64_less v (Num 0) then Inl (SizeParse (show_f64 v))
      else
        let scaled = f64_round (f64_mul v (f64_of_nat (unat SIZE_SCALE)))
        in if f64_less (f64_of_nat (unat (- 1 :: u64))) scaled then Inl (SizeParse (show_f64 v))
           else Inr (FixedSize (f64_to_word scaled)))"

definition size_as_f64 :: "fixed_size \<Rightarrow> f64" where
  "size_as_f64 z = f64_div (f64_of_nat (unat (size_raw z))) (f64_of_nat (unat SIZE_SCALE))"

section \<open>Views of a book\<close>

definition mid_price :: "l2book \<Rightarrow> f64 option" where
  "mid_price b =
     (case (best_bid b, best_ask b) of
        (Some (bid, _), Some (ask, _)) \<Rightarrow>
          Some (f64_div (f64_add (price_as_f64 bid) (price_as_f64 ask)) (f64_of_nat 2))
      | _ \<Rightarrow> None)"

definition spread :: "l2book \<Rightarrow> f64 option" where
  "spread b =
     (case (best_bid b, best_ask b) of
        (Some (bid, _), Some (ask, _)) \<Rightarrow> Some (f64_sub (price_as_f64 ask) (price_as_f64 bid))
      | _ \<Rightarrow> None)"

definition weighted_mid_price :: "l2book \<Rightarrow> f64 option" where
  "weighted_mid_price b =
     (case (best_bid b, best_ask b) of
        (Some (bid_p, bid_s), Some (ask_p, ask_s)) \<Rightarrow>
          let bid_f = price_as_f64 bid_p;
              ask_f = price_as_f64 ask_p;
              bid_sz = size_as_f64 bid_s;
              ask_sz = size_as_f64 ask_s;
              total = f64_add bid_sz ask_sz
          in if total = Num 0 then Some (f64_div (f64_add bid_f ask_f) (f64_of_nat 2))
             else Some (f64_div (f64_add (f64_mul bid_f ask_sz) (f64_mul ask_f bid_sz)) total)
      | _ \<Rightarrow> None)"

section \<open>Round trips\<close>

lemma scale_exact: "n < 2 ^ 52 \<Longrightarrow> f64_of_nat n = Num (of_nat n)"
  by (rule f64_of_nat_exact) simp

text \<open>An integer scaled down, with one rounding.\<close>

lemma scaled_down:
  assumes "n < 2 ^ 52" "0 < s" "s \<le> 1000000"
  obtains y where "f64_div (f64_of_nat n) (f64_of_nat s) = Num y"
    "\<bar>y - of_nat n / of_nat s\<bar> \<le> of_nat n / of_nat s / 2 ^ 53"
proof -
  let ?x = "of_nat n / of_nat s :: rat"
  have s: "(0::rat) < of_nat s" "of_nat s \<le> (1000000::rat)"
    using assms(2,3) by (simp, metis of_nat_le_iff of_nat_numeral)
  have n: "(of_nat n :: rat) < 2 ^ 52" using assms(1) by (metis of_nat_less_iff of_nat_numeral of_nat_power)
  have "?x \<le> of_nat n / 1" using assms(2) by (intro divide_left_mono) auto
  then have hi: "\<bar>?x\<bar> \<le> 2 ^ 200" using n by simp
  have lo: "?x = 0 \<or> 1 / 2 ^ 200 \<le> \<bar>?x\<bar>"
  proof (cases "n = 0")
    case False
    then have "1 / 1000000 \<le> ?x" using s by (intro frac_le) auto
    then show ?thesis by simp
  qed simp
  obtain y where "rounded ?x = Num y" "\<bar>y - ?x\<bar> \<le> \<bar>?x\<bar> / 2 ^ 53"
    using rounded_near [OF lo hi] .
  moreover have "f64_div (f64_of_nat n) (f64_of_nat s) = rounded ?x"
    using assms by (simp add: scale_exact)
  ultimately show ?thesis using that by simp
qed

text \<open>Scaling up a float that is close to a tick, rounding and casting gives the tick.\<close>

lemma scaled_up:
  assumes "n < 2 ^ 51" "0 < s" "s \<le> 1000000"
    "\<bar>y * of_nat s - of_nat n\<bar> + (of_nat n + 1) / 2 ^ 53 + 1 / 2 ^ 200 < 1 / 2"
  shows "f64_round (f64_mul (Num y) (f64_of_nat s)) = Num (of_nat n)"
proof -
  let ?x = "y * of_nat s"
  have n: "(of_nat n :: rat) < 2 ^ 51" using assms(1) by (metis of_nat_less_iff of_nat_numeral of_nat_power)
  have "(0::rat) \<le> (of_nat n + 1) / 2 ^ 53" "(0::rat) \<le> 1 / 2 ^ 200" by simp_all
  then have near: "\<bar>?x - of_nat n\<bar> < 1 / 2" using assms(4) by linarith
  then have small: "\<bar>?x\<bar> \<le> of_nat n + 1" by linarith
  have "(2::rat) ^ 51 + 1 \<le> 2 ^ 200" by simp
  then have "\<bar>?x\<bar> \<le> 2 ^ 200" using small n by linarith
  from rounded_close [OF this] obtain z
    where z: "rounded ?x = Num z" "\<bar>z - ?x\<bar> \<le> \<bar>?x\<bar> / 2 ^ 53 + 1 / 2 ^ 200" .
  have "\<bar>?x\<bar> / 2 ^ 53 \<le> (of_nat n + 1) / 2 ^ 53" using small by (intro divide_right_mono) auto
  then have "\<bar>z - of_nat n\<bar> < 1 / 2" using z(2) assms(4) by linarith
  then have "f64_round (Num z) = Num (of_nat n)" by (rule round_cast)
  moreover have "f64_of_nat s = Num (of_nat s)" using assms(3) by (intro scale_exact) simp
  ultimately show ?thesis using z(1) by simp
qed

lemma scale_round_trip:
  assumes "n < 2 ^ 51" "0 < s" "s \<le> 1000000"
  obtains y where "f64_div (f64_of_nat n) (f64_of_nat s) = Num y" "0 \<le> y"
    "f64_round (f64_mul (Num y) (f64_of_nat s)) = Num (of_nat n)"
proof -
  have "n < 2 ^ 52" using assms(1) by simp
  from scaled_down [OF this assms(2,3)] obtain y where y: "f64_div (f64_of_nat n) (f64_of_nat s) = Num y"
      "\<bar>y - of_nat n / of_nat s\<bar> \<le> of_nat n / of_nat s / 2 ^ 53" .
  have s: "(0::rat) < of_nat s" using assms(2) by simp
  have "\<bar>y * of_nat s - of_nat n\<bar> = \<bar>y - of_nat n / of_nat s\<bar> * of_nat s"
    using s by (simp add: abs_mult [symmetric] field_simps)
  also have "\<dots> \<le> of_nat n / of_nat s / 2 ^ 53 * of_nat s" using y(2) s by (intro mult_right_mono) auto
  also have "\<dots> = of_nat n / 2 ^ 53" using s by simp
  finally have near: "\<bar>y * of_nat s - of_nat n\<bar> \<le> of_nat n / 2 ^ 53" .
  have "Suc n \<le> 2 ^ 51" using assms(1) by simp
  then have "(of_nat (Suc n) :: rat) \<le> of_nat (2 ^ 51)" by (simp only: of_nat_le_iff)
  then have n: "(of_nat n :: rat) + 1 \<le> 2 ^ 51" by simp
  have "(of_nat n + 1) / 2 ^ 53 \<le> (2 ^ 51 / 2 ^ 53 :: rat)" "of_nat n / 2 ^ 53 \<le> ((2 ^ 51 - 1) / 2 ^ 53 :: rat)"
    using n by (intro divide_right_mono; simp)+
  moreover have "(2 ^ 51 - 1) / 2 ^ 53 + 2 ^ 51 / 2 ^ 53 + 1 / 2 ^ 200 < (1 / 2 :: rat)" by simp
  ultimately have "\<bar>y * of_nat s - of_nat n\<bar> + (of_nat n + 1) / 2 ^ 53 + 1 / 2 ^ 200 < 1 / 2"
    using near by linarith
  then have "f64_round (f64_mul (Num y) (f64_of_nat s)) = Num (of_nat n)"
    by (rule scaled_up [OF assms])
  moreover have "0 \<le> y"
  proof -
    have "of_nat n / of_nat s / 2 ^ 53 \<le> (of_nat n / of_nat s :: rat)"
      using s by (simp add: divide_le_eq mult_le_cancel_left1 del: divide_divide_eq_left)
    then show ?thesis using y(2) by linarith
  qed
  ultimately show ?thesis using y(1) that by blast
qed

lemma nat_word: "of_nat (unat w) = (w :: 'w::len word)"
  by simp

lemma u64_max_f64: "f64_of_nat (unat (- 1 :: u64)) = Num (2 ^ 64)"
proof -
  let ?x = "18446744073709551615 :: rat"
  have "binexp ?x = 63" by (rule binexp_eq) simp_all
  then have k: "unit_exp ?x = 11" by (simp add: unit_exp_def)
  have fl: "\<lfloor>?x / 2 ^ 11\<rfloor> = 9007199254740991" by (rule floor_unique) simp_all
  have "half_even (?x / 2 ^ 11) = 2 ^ 53"
    unfolding half_even_def fl Let_def by simp
  then have "nearest ?x = 2 ^ 64" by (simp add: nearest_def Let_def k)
  moreover have "of_nat (unat (- 1 :: u64)) = ?x" by (simp add: unsigned_minus_1_eq_mask mask_eq_exp_minus_1)
  moreover have "(2::rat) ^ 64 < 2 ^ 1024" by (rule power_strict_increasing) simp_all
  ultimately show ?thesis by (simp add: f64_of_nat_def rounded_def)
qed

text \<open>
  C36. A price survives the way through \<open>f64\<close>, and so does every size below \<open>2^51\<close> raw units
  (about 2.2 thousand million): the scaled integer comes back although both conversions round.
\<close>

theorem float_roundtrip:
  "(price_valid p \<longrightarrow> price_from_f64 show_f64 (price_as_f64 p) = Inr p) \<and>
   (unat (size_raw z) < 2 ^ 51 \<longrightarrow> size_from_f64 show_f64 (size_as_f64 z) = Inr z)"
proof (intro conjI impI)
  assume "price_valid p"
  then have raw: "unat (price_raw p) \<le> 10000" by (simp add: price_valid_def PRICE_SCALE_def word_le_nat_alt)
  then obtain y where y: "price_as_f64 p = Num y" "0 \<le> y"
      "f64_round (f64_mul (Num y) (f64_of_nat (unat PRICE_SCALE))) = Num (of_nat (unat (price_raw p)))"
    using scale_round_trip [of "unat (price_raw p)" 10000]
    by (auto simp: price_as_f64_def PRICE_SCALE_def)
  have "f64_to_word (Num (of_nat (unat (price_raw p)))) = (of_nat (unat (price_raw p)) :: u32)"
    by (rule f64_to_word_nat) (rule unsigned_less)
  then have "f64_to_word (Num (of_nat (unat (price_raw p)))) = price_raw p" by (simp only: nat_word)
  with y \<open>price_valid p\<close> show "price_from_f64 show_f64 (price_as_f64 p) = Inr p"
    by (simp add: price_from_f64_def price_new_def price_valid_def not_less del: f64_to_word.simps f64_round.simps f64_mul.simps)
next
  assume raw: "unat (size_raw z) < 2 ^ 51"
  then obtain y where y: "size_as_f64 z = Num y" "0 \<le> y"
      "f64_round (f64_mul (Num y) (f64_of_nat (unat SIZE_SCALE))) = Num (of_nat (unat (size_raw z)))"
    using scale_round_trip [of "unat (size_raw z)" 1000000]
    by (auto simp: size_as_f64_def SIZE_SCALE_def)
  have w: "f64_to_word (Num (of_nat (unat (size_raw z)))) = size_raw z"
    by (subst f64_to_word_nat) (rule unsigned_less, rule nat_word)
  have n: "(of_nat (unat (size_raw z)) :: rat) < 2 ^ 51"
    using raw by (metis of_nat_less_iff of_nat_numeral of_nat_power)
  have "\<not> f64_less (f64_of_nat (unat (- 1 :: u64))) (Num (of_nat (unat (size_raw z))))"
    using n by (simp add: u64_max_f64)
  with y w show "size_from_f64 show_f64 (size_as_f64 z) = Inr z"
    by (simp add: size_from_f64_def Let_def del: f64_to_word.simps f64_round.simps f64_mul.simps)
qed

theorem float_roundtrip_witness:
  "price_from_f64 (\<lambda>_. []) (price_as_f64 (FixedPrice 4567)) = Inr (FixedPrice 4567) \<and>
   size_from_f64 (\<lambda>_. []) (size_as_f64 (FixedSize 123456789)) = Inr (FixedSize 123456789)"
  using float_roundtrip [of "FixedPrice 4567" "\<lambda>_. []" "FixedSize 123456789"]
  by (simp add: price_valid_def PRICE_SCALE_def)

section \<open>The sign of the spread\<close>

lemma u32_rat: "0 \<le> (of_nat (unat r) :: rat) \<and> (of_nat (unat r) :: rat) < 2 ^ 32" for r :: u32
proof -
  have "unat r < 2 ^ 32" using unsigned_less [of r] by simp
  then have "(of_nat (unat r) :: rat) < of_nat (2 ^ 32)" by (simp only: of_nat_less_iff)
  moreover have "0 \<le> (of_nat (unat r) :: rat)" by (rule of_nat_0_le_iff)
  ultimately show ?thesis by (simp only: of_nat_power of_nat_numeral)
qed

lemma price_near:
  obtains y where "price_as_f64 p = Num y"
    "\<bar>y - of_nat (unat (price_raw p)) / 10000\<bar> \<le> 1 / 2 ^ 30"
    "\<bar>y - of_nat (unat (price_raw p)) / 10000\<bar> \<le> of_nat (unat (price_raw p)) / 10000 / 2 ^ 53"
proof -
  let ?n = "unat (price_raw p)"
  have n: "?n < 2 ^ 32" using unsigned_less [of "price_raw p"] by simp
  then have r: "(of_nat ?n :: rat) < 2 ^ 32" by (metis of_nat_less_iff of_nat_numeral of_nat_power)
  have "?n < 2 ^ 52" using n by simp
  from scaled_down [OF this, of 10000] obtain y where y: "f64_div (f64_of_nat ?n) (f64_of_nat 10000) = Num y"
      "\<bar>y - of_nat ?n / of_nat 10000\<bar> \<le> of_nat ?n / of_nat 10000 / 2 ^ 53" by auto
  have "of_nat ?n / 10000 / 2 ^ 53 \<le> (1 / 2 ^ 30 :: rat)" using r by simp
  with y that [of y] show ?thesis by (simp add: price_as_f64_def PRICE_SCALE_def)
qed

lemma spread_sign:
  assumes "best_bid b = Some (p, v)" "best_ask b = Some (q, w)"
  obtains s where "spread b = Some s" "f64_less (Num 0) s \<longleftrightarrow> p < q" "s = Num 0 \<longleftrightarrow> p = q"
proof -
  obtain x where x: "price_as_f64 p = Num x" "\<bar>x - of_nat (unat (price_raw p)) / 10000\<bar> \<le> 1 / 2 ^ 30"
    using price_near .
  obtain y where y: "price_as_f64 q = Num y" "\<bar>y - of_nat (unat (price_raw q)) / 10000\<bar> \<le> 1 / 2 ^ 30"
    using price_near .
  let ?d = "of_nat (unat (price_raw q)) / 10000 - of_nat (unat (price_raw p)) / 10000 :: rat"
  have sp: "spread b = Some (rounded (y - x))"
    using assms x(1) y(1) by (simp add: spread_def f64_sub_def)
  have gap: "p < q \<longleftrightarrow> 1 / 10000 \<le> ?d" "q < p \<longleftrightarrow> 1 / 10000 \<le> - ?d"
  proof -
    have "p < q \<longleftrightarrow> unat (price_raw p) + 1 \<le> unat (price_raw q)" for p q :: fixed_price
      by (simp add: less_fixed_price_def word_less_nat_alt Suc_le_eq)
    moreover have "n + 1 \<le> m \<longleftrightarrow> 1 / 10000 \<le> (of_nat m / 10000 - of_nat n / 10000 :: rat)" for n m
    proof -
      have "n + 1 \<le> m \<longleftrightarrow> (of_nat (n + 1) :: rat) \<le> of_nat m" by (simp only: of_nat_le_iff)
      then show ?thesis by (simp add: field_simps)
    qed
    ultimately show "p < q \<longleftrightarrow> 1 / 10000 \<le> ?d" "q < p \<longleftrightarrow> 1 / 10000 \<le> - ?d" by (simp_all only: minus_diff_eq)
  qed
  show ?thesis
  proof (cases "p = q")
    case True
    then have "x = y" using x(1) y(1) by simp
    then show ?thesis using that [OF sp] True by (simp add: rounded_def nearest_def)
  next
    case False
    then have d: "1 / 10000 \<le> ?d \<or> 1 / 10000 \<le> - ?d" using gap by (metis neqE)
    have eps: "(1 / 2 ^ 30 + 1 / 2 ^ 30 :: rat) < 1 / 20000" by simp
    have near: "\<bar>(y - x) - ?d\<bar> \<le> 1 / 2 ^ 30 + 1 / 2 ^ 30" using x(2) y(2) by linarith
    have lo: "1 / 20000 \<le> \<bar>y - x\<bar>" using d near eps by linarith
    have "\<bar>?d\<bar> \<le> 2 ^ 32"
      using u32_rat [of "price_raw p"] u32_rat [of "price_raw q"] by (simp add: abs_if)
    moreover have "(2::rat) ^ 32 + 1 \<le> 2 ^ 200" by simp
    ultimately have hi: "\<bar>y - x\<bar> \<le> 2 ^ 200" using near eps by linarith
    have "1 / 2 ^ 200 \<le> (1 / 20000 :: rat)" by simp
    then have "y - x = 0 \<or> 1 / 2 ^ 200 \<le> \<bar>y - x\<bar>" using lo by linarith
    from rounded_near [OF this hi] obtain s where s: "rounded (y - x) = Num s"
        "\<bar>s - (y - x)\<bar> \<le> \<bar>y - x\<bar> / 2 ^ 53" .
    have "\<bar>y - x\<bar> / 2 ^ 53 \<le> \<bar>y - x\<bar> / 2" by (intro divide_left_mono) simp_all
    then have same: "0 < s \<longleftrightarrow> 0 < y - x" "s \<noteq> 0" using s(2) lo by (auto simp: abs_if split: if_splits)
    have "0 < y - x \<longleftrightarrow> 1 / 10000 \<le> ?d" using d near eps by (auto simp: abs_if split: if_splits)
    then show ?thesis using that [OF sp] same s(1) False gap(1) by simp
  qed
qed

lemma check_integrity_tops:
  "best_bid b = Some (p, v) \<Longrightarrow> best_ask b = Some (q, w) \<Longrightarrow> check_integrity b = Inr () \<longleftrightarrow> p < q"
  by (auto simp: check_integrity_def not_le)

text \<open>
  The spread a reader is shown has the right sign in spite of its three roundings: it is positive
  exactly when the integrity check accepts the book, and zero exactly when the book is locked.
  It is absent exactly when a side is empty.
\<close>

theorem spread_sign_exact:
  "(spread b = None \<longleftrightarrow> best_bid b = None \<or> best_ask b = None) \<and>
   (\<forall>s. spread b = Some s \<longrightarrow>
     (f64_less (Num 0) s \<longleftrightarrow> check_integrity b = Inr ()) \<and>
     (s = Num 0 \<longleftrightarrow> map_option fst (best_bid b) = map_option fst (best_ask b)))"
proof (cases "\<exists>p v q w. best_bid b = Some (p, v) \<and> best_ask b = Some (q, w)")
  case True
  then obtain p v q w where tops: "best_bid b = Some (p, v)" "best_ask b = Some (q, w)" by blast
  from spread_sign [OF this] obtain s where
    s: "spread b = Some s" "f64_less (Num 0) s \<longleftrightarrow> p < q" "s = Num 0 \<longleftrightarrow> p = q" .
  with check_integrity_tops [OF tops] tops show ?thesis by simp
next
  case False
  then have "best_bid b = None \<or> best_ask b = None" by (metis not_None_eq surj_pair)
  then show ?thesis by (auto simp: spread_def split: option.split)
qed

theorem spread_sign_exact_witness:
  "\<exists>s. spread sample_book = Some s \<and> f64_less (Num 0) s \<and> s \<noteq> Num 0"
proof -
  have tops: "best_bid sample_book = Some (FixedPrice 4500, FixedSize 9)" "best_ask sample_book = Some (FixedPrice 5000, FixedSize 3)"
    by code_simp+
  then have "check_integrity sample_book = Inr ()" by (simp add: check_integrity_def less_eq_fixed_price_def)
  with spread_sign_exact [of sample_book] tops show ?thesis by (cases "spread sample_book") auto
qed

text \<open>The mid price of valid prices is within \<open>2^-49\<close> of the exact one.\<close>

lemma mid_price_near:
  assumes tops: "best_bid b = Some (p, v)" "best_ask b = Some (q, w)" and valid: "price_valid p" "price_valid q"
    and mid: "mid = (of_nat (unat (price_raw p)) + of_nat (unat (price_raw q))) / 20000"
  obtains m where "mid_price b = Some (Num m)" "\<bar>m - mid\<bar> \<le> 1 / 2 ^ 49"
proof -
  let ?p = "of_nat (unat (price_raw p)) :: rat" and ?q = "of_nat (unat (price_raw q)) :: rat"
  have le: "(of_nat (unat (price_raw r)) :: rat) \<le> 10000" if "price_valid r" for r
  proof -
    have "unat (price_raw r) \<le> 10000" using that by (simp add: price_valid_def PRICE_SCALE_def word_le_nat_alt)
    then have "(of_nat (unat (price_raw r)) :: rat) \<le> of_nat 10000" by (simp only: of_nat_le_iff)
    then show ?thesis by (simp only: of_nat_numeral)
  qed
  obtain x where x: "price_as_f64 p = Num x" "\<bar>x - ?p / 10000\<bar> \<le> ?p / 10000 / 2 ^ 53" using price_near .
  obtain y where y: "price_as_f64 q = Num y" "\<bar>y - ?q / 10000\<bar> \<le> ?q / 10000 / 2 ^ 53" using price_near .
  have bx: "\<bar>x - ?p / 10000\<bar> \<le> 1 / 2 ^ 53" "\<bar>y - ?q / 10000\<bar> \<le> 1 / 2 ^ 53"
    using x(2) y(2) le [OF valid(1)] le [OF valid(2)] by simp_all
  have pq: "0 \<le> ?p" "0 \<le> ?q" "?p \<le> 10000" "?q \<le> 10000"
    using le [OF valid(1)] le [OF valid(2)] u32_rat by blast+
  have tiny: "3 / 2 ^ 53 + 1 / 2 ^ 200 \<le> (1 / 2 ^ 51 :: rat)" "2 / 2 ^ 53 + 1 / 2 ^ 200 \<le> (3 / 2 ^ 53 :: rat)"
    "3 / 2 ^ 53 + 1 / 2 ^ 51 + 1 / 2 ^ 53 + 1 / 2 ^ 53 \<le> (1 / 2 ^ 49 :: rat)" "1 / 2 ^ 51 \<le> (1 / 2 :: rat)" "1 / 2 ^ 53 \<le> (1 / 2 :: rat)"
    by simp_all
  have "2 * mid = ?p / 10000 + ?q / 10000" by (simp add: mid)
  then have sum: "\<bar>x + y - 2 * mid\<bar> \<le> 1 / 2 ^ 53 + 1 / 2 ^ 53" using bx by linarith
  have mid2: "0 \<le> mid" "mid \<le> 1" using pq by (simp_all add: mid)
  have small: "\<bar>x + y\<bar> \<le> 3" using sum mid2 tiny by linarith
  have "(3::rat) \<le> 2 ^ 200" by simp
  then have "\<bar>x + y\<bar> \<le> 2 ^ 200" using small by linarith
  from rounded_close [OF this] obtain s
    where s: "rounded (x + y) = Num s" "\<bar>s - (x + y)\<bar> \<le> \<bar>x + y\<bar> / 2 ^ 53 + 1 / 2 ^ 200" .
  have s1: "\<bar>s - (x + y)\<bar> \<le> 3 / 2 ^ 53 + 1 / 2 ^ 200"
    using s(2) divide_right_mono [OF small, of "2 ^ 53"] by simp
  have s3: "\<bar>s / 2\<bar> \<le> 2" using s1 small tiny by linarith
  have "(2::rat) \<le> 2 ^ 200" by simp
  then have "\<bar>s / 2\<bar> \<le> 2 ^ 200" using s3 by linarith
  from rounded_close [OF this] obtain m
    where m: "rounded (s / 2) = Num m" "\<bar>m - s / 2\<bar> \<le> \<bar>s / 2\<bar> / 2 ^ 53 + 1 / 2 ^ 200" .
  have m1: "\<bar>m - s / 2\<bar> \<le> 3 / 2 ^ 53"
    using m(2) divide_right_mono [OF s3, of "2 ^ 53"] tiny by simp
  have "\<bar>m - mid\<bar> \<le> 1 / 2 ^ 49"
    using m1 s1 sum tiny by linarith
  moreover have "mid_price b = Some (Num m)"
    using tops x(1) y(1) s(1) m(1) by (simp add: mid_price_def f64_of_nat_exact)
  ultimately show ?thesis using that by blast
qed

section \<open>What the conversions accept\<close>

text \<open>
  A float within 49 hundredths of a tick of a valid price becomes that price.
\<close>

lemma price_from_tick:
  assumes "price_valid p" "0 \<le> x" "\<bar>x * 10000 - of_nat (unat (price_raw p))\<bar> \<le> 49 / 100"
  shows "price_from_f64 show_f64 (Num x) = Inr p"
proof -
  let ?n = "unat (price_raw p)"
  have n: "?n \<le> 10000" using assms(1) by (simp add: price_valid_def PRICE_SCALE_def word_le_nat_alt)
  then have "(of_nat ?n :: rat) \<le> of_nat 10000" by (simp only: of_nat_le_iff)
  then have "(of_nat ?n + 1) / 2 ^ 53 \<le> (10001 / 2 ^ 53 :: rat)" by (intro divide_right_mono) (simp_all only: of_nat_numeral, simp_all)
  moreover have "49 / 100 + 10001 / 2 ^ 53 + 1 / 2 ^ 200 < (1 / 2 :: rat)" by simp
  ultimately have "\<bar>x * 10000 - of_nat ?n\<bar> + (of_nat ?n + 1) / 2 ^ 53 + 1 / 2 ^ 200 < 1 / 2"
    using assms(3) by linarith
  then have r: "f64_round (f64_mul (Num x) (f64_of_nat 10000)) = Num (of_nat ?n)"
    using n by (intro scaled_up) simp_all
  have "f64_to_word (Num (of_nat ?n)) = (of_nat ?n :: u32)" by (rule f64_to_word_nat) (rule unsigned_less)
  then have "f64_to_word (Num (of_nat ?n)) = price_raw p" by (simp only: nat_word)
  with assms r show ?thesis
    by (simp add: price_from_f64_def PRICE_SCALE_def price_new_def price_valid_def not_less
        del: f64_to_word.simps f64_round.simps f64_mul.simps)
qed

text \<open>
  The size at which the overflow test misses: the scaled value rounds to exactly \<open>2^64\<close>, which is
  also the float of the largest \<open>u64\<close>, so the cast clamps instead of the error.
\<close>

lemma half_even_unique: "\<bar>q - of_int n\<bar> < 1 / 2 \<Longrightarrow> half_even q = n"
  using half_even_near [of q] by linarith

lemma nearest_eq:
  assumes "x \<noteq> 0" "2 powi e \<le> \<bar>x\<bar>" "\<bar>x\<bar> < 2 powi (e + 1)" "- 1022 \<le> e" "\<bar>x / 2 powi (e - 52) - of_int n\<bar> < 1 / 2"
  shows "nearest x = of_int n * 2 powi (e - 52)"
proof -
  have "binexp \<bar>x\<bar> = e" using assms(1-3) by (intro binexp_eq) auto
  then have "unit_exp x = e - 52" using assms(4) by (simp add: unit_exp_def)
  then show ?thesis using assms(1) half_even_unique [OF assms(5)] by (simp add: nearest_def Let_def)
qed

text \<open>
  The largest sizes are clamped in spite of the overflow test: the float of \<open>2^64\<close> raw units
  is accepted as the size \<open>2^64 - 1\<close>.
\<close>

theorem size_overflow_clamped:
  "size_from_f64 show_f64 (rounded (2 ^ 64 / 10 ^ 6)) = Inr (FixedSize (- 1))"
proof -
  let ?x = "4722366482869645 / 256 :: rat"
  have big: "(2::rat) ^ 64 < 2 ^ 1024" by (rule power_strict_increasing) simp_all
  have "nearest (2 ^ 64 / 10 ^ 6) = of_int 4722366482869645 * 2 powi (44 - 52)"
    by (rule nearest_eq) (simp_all add: power_int_minus field_simps)
  then have x: "nearest (2 ^ 64 / 10 ^ 6) = ?x" by (simp add: power_int_minus)
  have "?x < 2 ^ 64" by simp
  then have "\<not> 2 ^ 1024 \<le> \<bar>?x\<bar>" using big by linarith
  then have v: "rounded (2 ^ 64 / 10 ^ 6) = Num ?x" unfolding rounded_def x Let_def by (simp only: if_False)
  have "nearest (?x * 1000000) = of_int (2 ^ 53) * 2 powi (63 - 52)"
    by (rule nearest_eq) (simp_all add: field_simps)
  then have p: "nearest (?x * 1000000) = 2 ^ 64" by simp
  have "\<not> 2 ^ 1024 \<le> \<bar>2 ^ 64 :: rat\<bar>" using big by (simp only: not_le abs_of_pos zero_less_power zero_less_numeral)
  then have m: "rounded (?x * 1000000) = Num (2 ^ 64)" unfolding rounded_def p Let_def by (simp only: if_False)
  have "f64_round (Num (2 ^ 64)) = Num (of_nat (2 ^ 64))" by (rule round_cast) simp
  then have r: "f64_round (Num (2 ^ 64)) = Num (2 ^ 64)" by (simp only: of_nat_power of_nat_numeral)
  have "f64_of_nat (unat SIZE_SCALE) = Num 1000000" by (simp add: SIZE_SCALE_def f64_of_nat_exact)
  then have "f64_mul (Num ?x) (f64_of_nat (unat SIZE_SCALE)) = Num (2 ^ 64)" using m by simp
  moreover have "f64_to_word (Num (2 ^ 64)) = (- 1 :: u64)" by simp
  ultimately show ?thesis
    unfolding v size_from_f64_def u64_max_f64 Let_def by (simp only: r) simp
qed

end
