(* ===== verification/Labels.thy ===== *)
theory Labels
  imports Book
begin

text \<open>
  The storage labels of the event enums: written by \<open>crates/pb-store/src/schema.rs\<close> (numbers) and
  by the displays of \<open>event.rs\<close> (texts), read back by \<open>crates/pb-replay/src/reader.rs\<close>, with the
  errors of \<open>crates/pb-replay/src/error.rs\<close>.
\<close>

section \<open>Errors\<close>

text \<open>Errors of third-party libraries are their texts; the object store's tells a missing object.\<close>

datatype object_error = NotFound string | StoreFailure string

datatype replay_error =
    ReplayIo string
  | ReplayParquet string "object_error option"
  | ReplayObjectStore object_error
  | ReplayArrow string
  | ReplayBook book_error
  | ReplayTypes types_error
  | ReplayJson string
  | NoSnapshotFound string u64
  | InvalidEventType string
  | InvalidReplaySide string
  | ReplayHttp string string
  | ReplayOther string

text \<open>The walk along the error chain: a Parquet error may wrap an object store error.\<close>

fun is_object_not_found :: "replay_error \<Rightarrow> bool" where
  "is_object_not_found (ReplayObjectStore (NotFound _)) = True"
| "is_object_not_found (ReplayParquet _ (Some (NotFound _))) = True"
| "is_object_not_found _ = False"

section \<open>Writing labels\<close>

fun book_kind_to_u8 :: "book_event_kind \<Rightarrow> u8" where
  "book_kind_to_u8 Snapshot = 1"
| "book_kind_to_u8 Delta = 2"

definition side_to_u8 :: "side option \<Rightarrow> u8 option" where
  "side_to_u8 s = map_option (\<lambda>s. case s of Bid \<Rightarrow> 1 | Ask \<Rightarrow> 2) s"

section \<open>Reading labels\<close>

definition parse_source :: "string \<Rightarrow> replay_error + data_source" where
  "parse_source value =
     (if value = ''websocket'' then Inr WebSocket
      else if value = ''rest_snapshot'' then Inr RestSnapshot
      else if value = ''replay_validator'' then Inr ReplayValidator
      else if value = ''system'' then Inr System
      else Inl (ReplayOther (''invalid source: '' @ value)))"

definition parse_book_kind :: "u8 \<Rightarrow> replay_error + book_event_kind" where
  "parse_book_kind value =
     (if value = 1 then Inr Snapshot
      else if value = 2 then Inr Delta
      else Inl (InvalidEventType (dec (unat value))))"

definition parse_side_value :: "u8 \<Rightarrow> replay_error + side" where
  "parse_side_value value =
     (if value = 1 then Inr Bid
      else if value = 2 then Inr Ask
      else Inl (InvalidReplaySide (dec (unat value))))"

definition parse_trade_fidelity :: "string \<Rightarrow> replay_error + trade_fidelity" where
  "parse_trade_fidelity value =
     (if value = ''partial'' then Inr PartialFidelity
      else if value = ''full'' then Inr FullFidelity
      else Inl (ReplayOther (''invalid trade fidelity: '' @ value)))"

definition parse_ingest_kind :: "string \<Rightarrow> replay_error + ingest_event_kind" where
  "parse_ingest_kind value =
     (if value = ''reconnect_start'' then Inr ReconnectStart
      else if value = ''reconnect_success'' then Inr ReconnectSuccess
      else if value = ''sequence_gap'' then Inr SequenceGap
      else if value = ''stale_snapshot_skip'' then Inr StaleSnapshotSkip
      else if value = ''source_reset'' then Inr SourceReset
      else if value = ''book_mismatch'' then Inr BookMismatch
      else Inl (ReplayOther (''invalid ingest event kind: '' @ value)))"

definition parse_replay_mode :: "string \<Rightarrow> replay_error + replay_mode" where
  "parse_replay_mode value =
     (if value = ''recv_time'' then Inr RecvTime
      else if value = ''exchange_time'' then Inr ExchangeTime
      else Inl (ReplayOther (''invalid replay mode: '' @ value)))"

section \<open>Round trip\<close>

lemma parse_source_iff: "parse_source t = Inr x \<longleftrightarrow> t = source_display x"
  by (cases x) (auto simp: parse_source_def)

lemma parse_fidelity_iff: "parse_trade_fidelity t = Inr x \<longleftrightarrow> t = fidelity_display x"
  by (cases x) (auto simp: parse_trade_fidelity_def)

lemma parse_ingest_kind_iff: "parse_ingest_kind t = Inr x \<longleftrightarrow> t = ingest_kind_display x"
  by (cases x) (auto simp: parse_ingest_kind_def)

lemma parse_mode_iff: "parse_replay_mode t = Inr x \<longleftrightarrow> t = replay_mode_display x"
  by (cases x) (auto simp: parse_replay_mode_def)

lemma parse_book_kind_iff: "parse_book_kind n = Inr x \<longleftrightarrow> n = book_kind_to_u8 x"
  by (cases x) (auto simp: parse_book_kind_def)

lemma parse_side_iff: "parse_side_value n = Inr x \<longleftrightarrow> side_to_u8 (Some x) = Some n"
  by (cases x) (auto simp: parse_side_value_def side_to_u8_def)

lemmas label_iffs = parse_source_iff parse_fidelity_iff parse_ingest_kind_iff parse_mode_iff
  parse_book_kind_iff parse_side_iff

lemma label_roundtrips [simp]:
  "parse_source (source_display s) = Inr s"
  "parse_trade_fidelity (fidelity_display f) = Inr f"
  "parse_ingest_kind (ingest_kind_display k) = Inr k"
  "parse_replay_mode (replay_mode_display m) = Inr m"
  "parse_book_kind (book_kind_to_u8 b) = Inr b"
  by (simp_all add: label_iffs)

text \<open>
  The reader of stored rows accepts exactly the labels the writer stores: a label parses to
  a value precisely when it is the label written for that value, for every labelled enum, so no
  two values share a label, every stored label reads back, and every other text or number is an
  error.
\<close>

theorem storage_labels_exact:
  "(parse_source t = Inr src \<longleftrightarrow> t = source_display src) \<and>
   (parse_trade_fidelity t = Inr fid \<longleftrightarrow> t = fidelity_display fid) \<and>
   (parse_ingest_kind t = Inr kind \<longleftrightarrow> t = ingest_kind_display kind) \<and>
   (parse_replay_mode t = Inr mode \<longleftrightarrow> t = replay_mode_display mode) \<and>
   (parse_book_kind n = Inr bk \<longleftrightarrow> n = book_kind_to_u8 bk) \<and>
   (parse_side_value n = Inr sd \<longleftrightarrow> side_to_u8 (Some sd) = Some n)"
  by (intro conjI label_iffs)

end
