(* ===== verification/Frame.thy ===== *)
theory Frame
  imports PB_Text PB_Maps Event
begin

text \<open>
  \<open>crates/pb-wal/src/segment.rs\<close> (framing and recovery scan), \<open>codec.rs\<close>, \<open>error.rs\<close> and
  \<open>lib.rs\<close> (configuration): the on-disk frame format of the write-ahead log. The checksum is
  third-party code and a parameter; nothing is assumed of it. File offsets and lengths are
  natural numbers (a file never reaches \<open>2 ^ 63\<close> bytes).
\<close>

section \<open>Errors and configuration\<close>

type_synonym bytes = "u8 list"

datatype wal_error =
    WalIo string
  | CrcMismatch nat nat u32 u32
  | RecordTooLarge nat nat
  | TruncatedRecord nat nat
  | Codec string
  | SegmentGap string nat nat
  | WriterLocked string

record wal_config =
  base_path :: string
  segment_size :: nat
  max_segments :: nat
  max_consumer_lag_bytes :: nat
  position_commit_interval_ms :: nat
  flush_interval_ms :: nat
  sync_interval_ms :: nat

definition wal_config_default :: wal_config where
  "wal_config_default = \<lparr> base_path = ''./data/wal'', segment_size = 64 * 1024 * 1024, max_segments = 16,
     max_consumer_lag_bytes = 256 * 1024 * 1024, position_commit_interval_ms = 1000,
     flush_interval_ms = 20, sync_interval_ms = 200 \<rparr>"

definition HEADER_SIZE :: nat where
  "HEADER_SIZE = 8"

definition MAX_RECORD_SIZE :: nat where
  "MAX_RECORD_SIZE = 256 * 1024 * 1024"

text \<open>The two entry points of the checksum library.\<close>

record crc_lib =
  crc32c :: "bytes \<Rightarrow> u32"
  crc32c_append :: "u32 \<Rightarrow> bytes \<Rightarrow> u32"

section \<open>Little-endian integers\<close>

definition u32_to_le_bytes :: "u32 \<Rightarrow> bytes" where
  "u32_to_le_bytes w = [ucast w, ucast (drop_bit 8 w), ucast (drop_bit 16 w), ucast (drop_bit 24 w)]"

fun u32_from_le_bytes :: "bytes \<Rightarrow> u32" where
  "u32_from_le_bytes [] = 0"
| "u32_from_le_bytes (b # bs) = ucast b + 256 * u32_from_le_bytes bs"

lemma length_u32_le [simp]: "length (u32_to_le_bytes w) = 4"
  by (simp add: u32_to_le_bytes_def)

lemma div_bytes:
  "(n::nat) div 65536 = n div 256 div 256" "n div 16777216 = n div 256 div 256 div 256"
  by (simp_all flip: div_mult2_eq)

lemma byte_parts:
  fixes n :: nat
  shows "n = n mod 256 + 256 * (n div 256 mod 256 + 256 * (n div 65536 mod 256 + 256 * (n div 16777216)))"
  unfolding div_bytes by (simp only: mod_mult_div_eq mod_div_mult_eq add.commute mult.commute)

lemma byte_digits:
  fixes a :: nat
  assumes "a < 256" "b < 256" "c < 256" "d < 256"
  shows "(a + 256 * (b + 256 * (c + 256 * d))) mod 256 = a"
    and "(a + 256 * (b + 256 * (c + 256 * d))) div 256 mod 256 = b"
    and "(a + 256 * (b + 256 * (c + 256 * d))) div 65536 mod 256 = c"
    and "(a + 256 * (b + 256 * (c + 256 * d))) div 16777216 mod 256 = d"
proof -
  have "(x + 256 * y) div 256 = y" "(x + 256 * y) mod 256 = x" if "x < 256" for x y :: nat
    using that by simp_all
  note step = this
  show "(a + 256 * (b + 256 * (c + 256 * d))) mod 256 = a"
    and "(a + 256 * (b + 256 * (c + 256 * d))) div 256 mod 256 = b"
    and "(a + 256 * (b + 256 * (c + 256 * d))) div 65536 mod 256 = c"
    and "(a + 256 * (b + 256 * (c + 256 * d))) div 16777216 mod 256 = d"
    unfolding div_bytes using assms by (simp_all only: step mod_less)
qed

lemma u32_le_roundtrip [simp]: "u32_from_le_bytes (u32_to_le_bytes w) = w"
proof -
  have b: "unat (ucast (drop_bit n w) :: u8) = unat w div 2 ^ n mod 256" for n
    unfolding unat_ucast_take_bit unat_drop_bit_eq by (simp add: take_bit_eq_mod drop_bit_eq_div)
  have c: "unat (ucast w :: u8) = unat w mod 256"
    using b [of 0] by simp
  have up: "ucast x = (of_nat (unat x) :: u32)" for x :: u8
    by simp
  have "unat w < 2 ^ 32" using unsigned_less [of w, where ?'a = nat] by simp
  then have "unat w div 2 ^ 24 mod 256 = unat w div 2 ^ 24" by simp
  moreover have "unat w = unat w mod 256 + 256 * (unat w div 2 ^ 8 mod 256 + 256 *
      (unat w div 2 ^ 16 mod 256 + 256 * (unat w div 2 ^ 24)))"
    using byte_parts [of "unat w"] by simp
  ultimately have "unat w = unat w mod 256 + 256 * (unat w div 2 ^ 8 mod 256 + 256 *
      (unat w div 2 ^ 16 mod 256 + 256 * (unat w div 2 ^ 24 mod 256)))"
    by simp
  from arg_cong [OF this, of "of_nat :: nat \<Rightarrow> u32"]
  have "(of_nat (unat w) :: u32) = of_nat (unat w mod 256) + 256 * (of_nat (unat w div 2 ^ 8 mod 256) + 256 *
      (of_nat (unat w div 2 ^ 16 mod 256) + 256 * (of_nat (unat w div 2 ^ 24 mod 256))))"
    unfolding of_nat_add of_nat_mult of_nat_numeral .
  then show ?thesis
    unfolding u32_to_le_bytes_def u32_from_le_bytes.simps up b c by simp
qed

section \<open>Frames\<close>

definition frame_crc :: "crc_lib \<Rightarrow> u32 \<Rightarrow> bytes \<Rightarrow> u32" where
  "frame_crc L n payload = crc32c_append L (crc32c L (u32_to_le_bytes n)) payload"

text \<open>The header assembled by \<open>Segment::append\<close>, and the whole frame.\<close>

definition frame_header :: "crc_lib \<Rightarrow> bytes \<Rightarrow> bytes" where
  "frame_header L payload =
     (let n = of_nat (length payload) :: u32
      in u32_to_le_bytes n @ u32_to_le_bytes (frame_crc L n payload))"

definition frame :: "crc_lib \<Rightarrow> bytes \<Rightarrow> bytes" where
  "frame L payload = frame_header L payload @ payload"

definition slice :: "bytes \<Rightarrow> nat \<Rightarrow> nat \<Rightarrow> bytes" where
  "slice data i j = take (j - i) (drop i data)"

definition read_record_at :: "crc_lib \<Rightarrow> bytes \<Rightarrow> nat \<Rightarrow> nat \<Rightarrow> wal_error + (bytes \<times> nat) option" where
  "read_record_at L data offset segment_id =
     (if length data \<le> offset then Inr None
      else if length data < offset + HEADER_SIZE then Inr None
      else
        let n = unat (u32_from_le_bytes (slice data offset (offset + 4)));
            stored_crc = u32_from_le_bytes (slice data (offset + 4) (offset + 8))
        in if n = 0 then Inr None
           else
             let payload_start = offset + HEADER_SIZE; payload_end = payload_start + n
             in if length data < payload_end then Inl (TruncatedRecord segment_id offset)
                else
                  let payload = slice data payload_start payload_end;
                      computed_crc = frame_crc L (of_nat n) payload
                  in if stored_crc \<noteq> computed_crc
                     then Inl (CrcMismatch segment_id offset stored_crc computed_crc)
                     else Inr (Some (payload, payload_end)))"

lemma read_record_at_progress:
  "read_record_at L data offset seg = Inr (Some (p, next)) \<Longrightarrow>
     next = offset + HEADER_SIZE + length p \<and> next \<le> length data \<and> p \<noteq> [] \<and> offset < next"
  by (auto simp: read_record_at_def Let_def slice_def HEADER_SIZE_def split: if_splits)

text \<open>The recovery scan: the end of the last contiguous valid frame.\<close>

function scan_from :: "crc_lib \<Rightarrow> bytes \<Rightarrow> nat \<Rightarrow> nat \<Rightarrow> nat" where
  "scan_from L data segment_id offset =
     (case read_record_at L data offset segment_id of
        Inr (Some (_, next)) \<Rightarrow> scan_from L data segment_id next
      | _ \<Rightarrow> offset)"
  by auto
termination
  by (relation "measure (\<lambda>(L, data, seg, offset). length data - offset)")
    (auto dest!: read_record_at_progress simp: HEADER_SIZE_def)

declare scan_from.simps [simp del]

definition scan_valid_end :: "crc_lib \<Rightarrow> bytes \<Rightarrow> nat \<Rightarrow> nat" where
  "scan_valid_end L data segment_id = scan_from L data segment_id 0"

definition frames :: "crc_lib \<Rightarrow> bytes list \<Rightarrow> bytes" where
  "frames L ps = concat (map (frame L) ps)"

definition valid_payload :: "bytes \<Rightarrow> bool" where
  "valid_payload p \<longleftrightarrow> p \<noteq> [] \<and> length p \<le> MAX_RECORD_SIZE"

lemma frames_simps [simp]:
  "frames L [] = []" "frames L (p # ps) = frame L p @ frames L ps"
  "frames L (ps @ qs) = frames L ps @ frames L qs"
  by (simp_all add: frames_def)

lemma length_frame_header [simp]: "length (frame_header L p) = HEADER_SIZE"
  by (simp add: frame_header_def Let_def HEADER_SIZE_def)

lemma length_frame [simp]: "length (frame L p) = HEADER_SIZE + length p"
  by (simp add: frame_def)

lemma slice_mid: "slice (a @ b @ c) (length a) (length a + length b) = b"
  by (simp add: slice_def)

lemma slice_at:
  assumes "data = a @ b @ c" "i = length a" "j = i + length b"
  shows "slice data i j = b"
  using assms by (simp add: slice_def)

lemma payload_len:
  "valid_payload p \<Longrightarrow> unat (of_nat (length p) :: u32) = length p"
  by (simp add: valid_payload_def MAX_RECORD_SIZE_def of_nat_inverse)

lemma read_frame:
  assumes "valid_payload p"
  shows "read_record_at L (pre @ frame L p @ post) (length pre) seg =
    Inr (Some (p, length pre + HEADER_SIZE + length p))"
proof -
  let ?n = "of_nat (length p) :: u32" and ?data = "pre @ frame L p @ post"
  have n: "unat ?n = length p" by (rule payload_len [OF assms])
  have f: "frame L p = u32_to_le_bytes ?n @ u32_to_le_bytes (frame_crc L ?n p) @ p"
    by (simp add: frame_def frame_header_def Let_def)
  have "slice ?data (length pre) (length pre + 4) = u32_to_le_bytes ?n"
    by (rule slice_at [of _ pre _ "u32_to_le_bytes (frame_crc L ?n p) @ p @ post"]) (simp_all add: f)
  moreover have "slice ?data (length pre + 4) (length pre + 8) = u32_to_le_bytes (frame_crc L ?n p)"
    by (rule slice_at [of _ "pre @ u32_to_le_bytes ?n" _ "p @ post"]) (simp_all add: f)
  moreover have "slice ?data (length pre + HEADER_SIZE) (length pre + HEADER_SIZE + length p) = p"
    by (rule slice_at [of _ "pre @ frame_header L p" _ "post"]) (simp_all add: frame_def)
  ultimately show ?thesis
    using assms n by (simp add: read_record_at_def Let_def valid_payload_def HEADER_SIZE_def)
qed

text \<open>Bytes that end the log: nothing that parses as a record starts there.\<close>

definition stops :: "crc_lib \<Rightarrow> bytes \<Rightarrow> bytes \<Rightarrow> bool" where
  "stops L pre tail \<longleftrightarrow> (\<forall>seg r. read_record_at L (pre @ tail) (length pre) seg \<noteq> Inr (Some r))"

lemma scan_frames:
  assumes "list_all valid_payload ps" "stops L (pre @ frames L ps) tail"
  shows "scan_from L (pre @ frames L ps @ tail) seg (length pre) = length pre + length (frames L ps)"
  using assms
proof (induction ps arbitrary: pre)
  case Nil
  then show ?case
    by (subst scan_from.simps) (auto simp: stops_def split: sum.splits option.splits)
next
  case (Cons p ps)
  have "read_record_at L (pre @ frame L p @ (frames L ps @ tail)) (length pre) seg =
      Inr (Some (p, length (pre @ frame L p)))"
    using read_frame Cons.prems(1) by simp
  then have "scan_from L (pre @ frames L (p # ps) @ tail) seg (length pre) =
      scan_from L ((pre @ frame L p) @ frames L ps @ tail) seg (length (pre @ frame L p))"
    by (subst scan_from.simps) simp
  also have "\<dots> = length (pre @ frame L p) + length (frames L ps)"
    by (rule Cons.IH) (use Cons.prems in simp_all)
  finally show ?case by simp
qed

text \<open>A torn append leaves a proper prefix of a frame; an unsynced tail page leaves zeros.\<close>

lemma torn_read:
  assumes "valid_payload p" "n < length (frame L p)"
  shows "read_record_at L (pre @ take n (frame L p)) (length pre) seg \<in>
    {Inr None, Inl (TruncatedRecord seg (length pre))}"
proof -
  let ?tail = "take n (frame L p)"
  have len: "length ?tail = n" using assms(2) by simp
  show ?thesis
  proof (cases "n < HEADER_SIZE")
    case True
    then show ?thesis by (simp add: read_record_at_def min_def)
  next
    case False
    let ?w = "of_nat (length p) :: u32"
    have f: "frame L p = u32_to_le_bytes ?w @ u32_to_le_bytes (frame_crc L ?w p) @ p"
      by (simp add: frame_def frame_header_def Let_def)
    have "take n (frame L p) = u32_to_le_bytes ?w @ take (n - 4) (u32_to_le_bytes (frame_crc L ?w p) @ p)"
      using False by (simp add: f HEADER_SIZE_def)
    then have "slice (pre @ ?tail) (length pre) (length pre + 4) = u32_to_le_bytes ?w"
      by (intro slice_at [of _ pre]) simp_all
    moreover have "unat ?w = length p" by (rule payload_len [OF assms(1)])
    ultimately show ?thesis
      using assms False len
      by (auto simp: read_record_at_def Let_def HEADER_SIZE_def)
  qed
qed

lemma torn_stops:
  "valid_payload p \<Longrightarrow> n < length (frame L p) \<Longrightarrow> stops L pre (take n (frame L p))"
proof (unfold stops_def, intro allI notI)
  fix seg r
  assume "valid_payload p" "n < length (frame L p)"
    "read_record_at L (pre @ take n (frame L p)) (length pre) seg = Inr (Some r)"
  with torn_read [of p n L pre seg] show False by simp
qed

lemma zeros_stop: "stops L pre (replicate k 0)"
proof (cases "k < HEADER_SIZE")
  case True
  then show ?thesis by (simp add: stops_def read_record_at_def)
next
  case False
  then have "replicate k 0 = replicate 4 (0 :: u8) @ replicate (k - 4) 0"
    by (simp add: HEADER_SIZE_def flip: replicate_add)
  then have "slice (pre @ replicate k 0) (length pre) (length pre + 4) = replicate 4 0"
    by (intro slice_at [of _ pre]) simp_all
  moreover have "u32_from_le_bytes (replicate 4 0) = 0"
    by (simp add: eval_nat_numeral)
  ultimately show ?thesis by (auto simp: stops_def read_record_at_def Let_def)
qed

section \<open>What the frame format guarantees\<close>

lemma u32_le_surj:
  assumes "length bs = 4"
  shows "u32_to_le_bytes (u32_from_le_bytes bs) = bs"
proof -
  obtain a b c d where bs: "bs = [a, b, c, d]"
    using assms by (auto simp: length_Suc_conv eval_nat_numeral)
  have a: "unat a < 256" "unat b < 256" "unat c < 256" "unat d < 256"
    using unsigned_less [where ?'a = nat and w = a] unsigned_less [where ?'a = nat and w = b]
      unsigned_less [where ?'a = nat and w = c] unsigned_less [where ?'a = nat and w = d] by simp_all
  let ?n = "unat a + 256 * (unat b + 256 * (unat c + 256 * unat d))"
  have "u32_from_le_bytes bs = of_nat ?n"
    by (simp add: bs)
  moreover have "?n < 2 ^ 32" using a by simp
  ultimately have n: "unat (u32_from_le_bytes bs) = ?n"
    by (simp add: of_nat_inverse del: of_nat_add of_nat_mult)
  have m: "?n mod 256 = unat a" "?n div 2 ^ 8 mod 256 = unat b" "?n div 2 ^ 16 mod 256 = unat c"
    "?n div 2 ^ 24 mod 256 = unat d"
    using byte_digits [OF a] by simp_all
  have b: "unat (ucast (drop_bit k w) :: u8) = unat w div 2 ^ k mod 256" for k and w :: u32
    unfolding unat_ucast_take_bit unat_drop_bit_eq by (simp add: take_bit_eq_mod drop_bit_eq_div)
  have c: "unat (ucast w :: u8) = unat w mod 256" for w :: u32
    using b [of 0 w] by simp
  show ?thesis
    unfolding u32_to_le_bytes_def bs list.inject word_unat_eq_iff
    unfolding bs [symmetric] b
    unfolding c n m by simp
qed

lemma slice_append: "i \<le> j \<Longrightarrow> j \<le> k \<Longrightarrow> slice data i j @ slice data j k = slice data i k"
proof -
  assume "i \<le> j" "j \<le> k"
  then have "drop j data = drop (j - i) (drop i data)" "k - i = (j - i) + (k - j)" by auto
  then show ?thesis by (simp only: slice_def take_add)
qed

lemma length_slice: "j \<le> length data \<Longrightarrow> length (slice data i j) = j - i"
  by (simp add: slice_def)

lemma read_record_frame:
  assumes "read_record_at L data offset seg = Inr (Some (p, nxt))"
  shows "slice data offset nxt = frame L p \<and> length p < 2 ^ 32"
proof -
  let ?w = "u32_from_le_bytes (slice data offset (offset + 4))"
  note prog = read_record_at_progress [OF assms]
  have bnd: "offset + 8 \<le> length data" using prog by (simp add: HEADER_SIZE_def)
  have p: "p = slice data (offset + HEADER_SIZE) nxt" and n: "unat ?w = length p"
    and crc: "u32_from_le_bytes (slice data (offset + 4) (offset + 8)) = frame_crc L ?w p"
    using assms by (auto simp: read_record_at_def Let_def length_slice split: if_splits)
  have w: "?w = of_nat (length p)" using n by (metis word_unat_eq_iff of_nat_inverse unsigned_less)
  have l1: "slice data offset (offset + 4) = u32_to_le_bytes ?w"
    by (rule u32_le_surj [symmetric]) (use bnd in \<open>simp add: length_slice\<close>)
  have l2: "slice data (offset + 4) (offset + 8) = u32_to_le_bytes (frame_crc L ?w p)"
    unfolding crc [symmetric] by (rule u32_le_surj [symmetric]) (use bnd in \<open>simp add: length_slice\<close>)
  have "slice data offset nxt =
      (slice data offset (offset + 4) @ slice data (offset + 4) (offset + 8)) @ slice data (offset + 8) nxt"
    using prog by (simp add: slice_append HEADER_SIZE_def)
  then have "slice data offset nxt = frame L p"
    using l1 l2 p w by (simp add: frame_def frame_header_def Let_def HEADER_SIZE_def)
  moreover have "length p < 2 ^ 32"
    using n unsigned_less [of ?w, where ?'a = nat] by simp
  ultimately show ?thesis by simp
qed

lemma slice_split: "i \<le> j \<Longrightarrow> j \<le> length data \<Longrightarrow> data = take i data @ slice data i j @ drop j data"
  by (metis append_take_drop_id drop_drop le_add_diff_inverse2 slice_def)

text \<open>
  The framing is exact: a record is read at an offset precisely when the bytes there are
  the frame (length, checksum over length and payload, payload) of a non-empty record of that
  length, and the nxt offset is the end of that frame. In particular, whatever was appended
  is read back whatever bytes precede and follow it.
\<close>

theorem read_record_exact:
  assumes "length p \<le> MAX_RECORD_SIZE"
  shows "read_record_at L data offset seg = Inr (Some (p, nxt)) \<longleftrightarrow>
    p \<noteq> [] \<and> nxt = offset + HEADER_SIZE + length p \<and> nxt \<le> length data \<and>
    slice data offset nxt = frame L p"
proof
  assume r: "read_record_at L data offset seg = Inr (Some (p, nxt))"
  show "p \<noteq> [] \<and> nxt = offset + HEADER_SIZE + length p \<and> nxt \<le> length data \<and>
      slice data offset nxt = frame L p"
    using read_record_at_progress [OF r] read_record_frame [OF r] by simp
next
  assume a: "p \<noteq> [] \<and> nxt = offset + HEADER_SIZE + length p \<and> nxt \<le> length data \<and>
    slice data offset nxt = frame L p"
  then have "data = take offset data @ frame L p @ drop nxt data"
    using slice_split [of offset nxt data] by (metis le_add1 add.assoc)
  moreover have "valid_payload p" "length (take offset data) = offset"
    using a assms by (auto simp: valid_payload_def min_def)
  ultimately show "read_record_at L data offset seg = Inr (Some (p, nxt))"
    using read_frame [of p L "take offset data" "drop nxt data" seg] a by metis
qed

definition sum_lib :: crc_lib where
  "sum_lib = \<lparr> crc32c = (\<lambda>bs. foldr (\<lambda>b a. ucast b + a) bs 0),
     crc32c_append = (\<lambda>c bs. foldr (\<lambda>b a. ucast b + a) bs c) \<rparr>"

theorem read_record_exact_witness:
  "length [7 :: u8, 9] \<le> MAX_RECORD_SIZE \<and>
   read_record_at sum_lib ([1] @ frame sum_lib [7, 9] @ [5, 5]) 1 0 = Inr (Some ([7, 9], 11))"
proof -
  have m: "length [7 :: u8, 9] \<le> MAX_RECORD_SIZE" by (simp add: MAX_RECORD_SIZE_def)
  have "slice ([1] @ frame sum_lib [7, 9] @ [5, 5]) 1 11 = frame sum_lib [7, 9]"
    by (simp add: slice_def HEADER_SIZE_def)
  with m show ?thesis
    using read_record_exact [OF m, of sum_lib "[1] @ frame sum_lib [7, 9] @ [5, 5]" 1 0 11]
    by (simp add: HEADER_SIZE_def)
qed

lemma frames_take_split:
  "k < length ps \<Longrightarrow> frames L ps = frames L (take k ps) @ frame L (ps ! k) @ frames L (drop (Suc k) ps)"
  by (metis append_take_drop_id Cons_nth_drop_Suc frames_simps(2,3))

lemma frame_cut:
  "n \<le> length (frames L ps) \<Longrightarrow> \<exists>k\<le>length ps. length (frames L (take k ps)) \<le> n \<and>
     (if k = length ps then take n (frames L ps) = frames L (take k ps)
      else n < length (frames L (take (Suc k) ps)) \<and>
        take n (frames L ps) = frames L (take k ps) @ take (n - length (frames L (take k ps))) (frame L (ps ! k)))"
proof (induction ps arbitrary: n)
  case (Cons p ps)
  show ?case
  proof (cases "n < length (frame L p)")
    case True
    then show ?thesis by (intro exI [of _ 0]) simp
  next
    case False
    then obtain m where m: "n = length (frame L p) + m" by (metis le_iff_add not_less)
    with Cons obtain k where "k \<le> length ps" "length (frames L (take k ps)) \<le> m"
      "if k = length ps then take m (frames L ps) = frames L (take k ps)
       else m < length (frames L (take (Suc k) ps)) \<and>
         take m (frames L ps) = frames L (take k ps) @ take (m - length (frames L (take k ps))) (frame L (ps ! k))"
      by auto
    with m show ?thesis by (intro exI [of _ "Suc k"]) (auto split: if_splits)
  qed
qed simp

lemma scan_valid_frames:
  assumes "list_all valid_payload ps" "stops L (frames L ps) tail"
  shows "scan_valid_end L (frames L ps @ tail) seg = length (frames L ps)"
  using scan_frames [of ps L "[]" tail seg] assms by (simp add: scan_valid_end_def)

lemma stops_Nil: "stops L pre []"
  using zeros_stop [of L pre 0] by simp

text \<open>
  C20. Crash recovery loses no completed record and keeps no torn one. If a segment holding the
  frames of some records is cut at any byte (a crash in the middle of an append), the recovery
  scan ends exactly after the last record whose frame is completely on disk; and if the last
  pages were zero-filled after a record boundary, it ends at that boundary.
\<close>

theorem crash_recovery_exact:
  assumes "list_all valid_payload ps" "n \<le> length (frames L ps)"
  shows "(\<exists>k\<le>length ps. scan_valid_end L (take n (frames L ps)) seg = length (frames L (take k ps)) \<and>
      length (frames L (take k ps)) \<le> n \<and>
      (k < length ps \<longrightarrow> n < length (frames L (take (Suc k) ps)))) \<and>
    scan_valid_end L (frames L ps @ replicate z 0) seg = length (frames L ps)"
proof
  obtain k where k: "k \<le> length ps" "length (frames L (take k ps)) \<le> n"
    and cut: "if k = length ps then take n (frames L ps) = frames L (take k ps)
      else n < length (frames L (take (Suc k) ps)) \<and>
        take n (frames L ps) = frames L (take k ps) @ take (n - length (frames L (take k ps))) (frame L (ps ! k))"
    using frame_cut [OF assms(2)] by blast
  have v: "list_all valid_payload (take k ps)"
    using assms(1) by (auto simp: list_all_iff dest: in_set_takeD)
  have "scan_valid_end L (take n (frames L ps)) seg = length (frames L (take k ps))"
  proof (cases "k = length ps")
    case True
    with cut scan_valid_frames [OF v stops_Nil, of L seg] show ?thesis by simp
  next
    case False
    with k have lt: "k < length ps" by simp
    then have "valid_payload (ps ! k)" using assms(1) by (simp add: list_all_length)
    moreover have "n - length (frames L (take k ps)) < length (frame L (ps ! k))"
      using cut False k lt by (simp add: take_Suc_conv_app_nth less_diff_conv2)
    ultimately have "stops L (frames L (take k ps)) (take (n - length (frames L (take k ps))) (frame L (ps ! k)))"
      by (rule torn_stops)
    with scan_valid_frames [OF v, of L _ seg] cut False show ?thesis by simp
  qed
  with k cut show "\<exists>k\<le>length ps. scan_valid_end L (take n (frames L ps)) seg = length (frames L (take k ps)) \<and>
      length (frames L (take k ps)) \<le> n \<and> (k < length ps \<longrightarrow> n < length (frames L (take (Suc k) ps)))"
    by (intro exI [of _ k]) auto
qed (rule scan_valid_frames [OF assms(1) zeros_stop])

theorem crash_recovery_exact_witness:
  "list_all valid_payload [[1], [2, 3]] \<and> 12 \<le> length (frames sum_lib [[1], [2, 3]]) \<and>
   scan_valid_end sum_lib (frames sum_lib [[1], [2, 3]] @ replicate 5 0) 0 = 19"
proof -
  have v: "list_all valid_payload [[1], [2, 3]]" by (simp add: valid_payload_def MAX_RECORD_SIZE_def)
  have n: "12 \<le> length (frames sum_lib [[1], [2, 3]])" by (simp add: HEADER_SIZE_def)
  show ?thesis
    using crash_recovery_exact [OF v n, of 0 5] v n by (simp add: HEADER_SIZE_def)
qed

section \<open>The record codec\<close>

text \<open>The serialisation library, as far as the codec calls it; errors are their display texts.\<close>

record bincode_lib =
  serialized_size :: "persisted_record \<Rightarrow> string + nat"
  serialize_record :: "persisted_record \<Rightarrow> string + bytes"
  deserialize_record :: "bytes \<Rightarrow> string + persisted_record"

definition CURRENT_VERSION :: u8 where
  "CURRENT_VERSION = 3"

definition encode :: "bincode_lib \<Rightarrow> persisted_record \<Rightarrow> wal_error + bytes" where
  "encode B r =
     (case serialized_size B r of
        Inl e \<Rightarrow> Inl (Codec e)
      | Inr _ \<Rightarrow>
          (case serialize_record B r of
             Inl e \<Rightarrow> Inl (Codec e)
           | Inr payload \<Rightarrow> Inr (CURRENT_VERSION # payload)))"

definition decode :: "bincode_lib \<Rightarrow> bytes \<Rightarrow> wal_error + persisted_record" where
  "decode B data =
     (case data of
        [] \<Rightarrow> Inl (Codec ''empty record'')
      | version # rest \<Rightarrow>
          if version = CURRENT_VERSION then
            (case deserialize_record B rest of Inl e \<Rightarrow> Inl (Codec e) | Inr r \<Rightarrow> Inr r)
          else if version = 1 \<or> version = 2 then
            Inl (Codec (''record written by an older binary (codec v'' @ dec (unat version) @
              ''); drain the WAL before upgrading''))
          else Inl (Codec (''unsupported record version: '' @ dec (unat version))))"

text \<open>
  If the serialiser's output is read back by the deserialiser, an encoded record decodes to
  itself and is never empty (so it never collides with the zero-length end mark of the log);
  and a buffer with any other version byte is refused, never decoded.
\<close>

theorem codec_roundtrip:
  assumes "\<And>r bs. serialize_record B r = Inr bs \<Longrightarrow> deserialize_record B bs = Inr r"
    and "encode B r = Inr data"
  shows "decode B data = Inr r \<and> data \<noteq> [] \<and>
    (\<forall>v bs. v \<noteq> CURRENT_VERSION \<longrightarrow> (\<exists>m. decode B (v # bs) = Inl (Codec m)))"
  using assms by (auto simp: encode_def decode_def split: sum.splits)

definition unit_record :: persisted_record where
  "unit_record = Validation \<lparr> rv_asset_id = ''a'', rv_mode = RecvTime, rv_replay_timestamp_us = 1,
     rv_reference_timestamp_us = 1, rv_matched = True, rv_mismatch_summary = None, rv_persisted_at_us = 2 \<rparr>"

definition unit_bincode :: bincode_lib where
  "unit_bincode = \<lparr> serialized_size = (\<lambda>r. Inr 1),
     serialize_record = (\<lambda>r. if r = unit_record then Inr [0] else Inl ''other''),
     deserialize_record = (\<lambda>bs. Inr unit_record) \<rparr>"

theorem codec_roundtrip_witness:
  "encode unit_bincode unit_record = Inr [3, 0] \<and> decode unit_bincode [3, 0] = Inr unit_record"
proof -
  have e: "encode unit_bincode unit_record = Inr [3, 0]"
    by (simp add: encode_def unit_bincode_def CURRENT_VERSION_def)
  have "deserialize_record unit_bincode bs = Inr r" if "serialize_record unit_bincode r = Inr bs" for r bs
    using that by (auto simp: unit_bincode_def split: if_splits)
  from codec_roundtrip [of unit_bincode, OF this e] e show ?thesis by simp
qed

end
