(* ===== verification/WalWriter.thy ===== *)
theory WalWriter
  imports Frame PB_Machine
begin

text \<open>
  \<open>crates/pb-wal/src/writer.rs\<close> and the file operations of \<open>segment.rs\<close>: segment files in a
  directory, buffered appends, rotation, recovery at open, and the two prune policies. The
  directory is a map from file names to bytes; a \<open>BufWriter\<close> is the list of bytes not yet
  written to its file. Errors of the operating system on existing files, \<open>fsync\<close> and logging
  are not modelled. Segment ids are natural numbers below \<open>2 ^ 64\<close>, with the overflow of an id
  increment written out as an abort.
\<close>

section \<open>The directory\<close>

type_synonym wal_files = "(string, bytes) hmap"

record wal_world =
  wal_files :: wal_files
  pos_files :: "string \<rightharpoonup> string"
  wal_locked :: bool

definition segment_path :: "nat \<Rightarrow> string" where
  "segment_path i = ''segment_'' @ zero_pad 20 (dec i) @ ''.wal''"

definition parse_segment_name :: "string \<Rightarrow> nat option" where
  "parse_segment_name name =
     do { rest \<leftarrow> strip_prefix ''segment_'' name;
          id_str \<leftarrow> strip_suffix ''.wal'' rest;
          parse_uint (2 ^ 64) id_str }"

definition list_segment_ids :: "wal_files \<Rightarrow> nat list" where
  "list_segment_ids fs = sort (List.map_filter parse_segment_name (hm_keys fs))"

text \<open>Appending bytes at the end of an open file.\<close>

definition file_append :: "string \<Rightarrow> bytes \<Rightarrow> wal_files \<Rightarrow> wal_files" where
  "file_append path bs fs =
     (case hm_get fs path of None \<Rightarrow> fs | Some c \<Rightarrow> hm_insert path (c @ bs) fs)"

definition BUF_WRITER_CAPACITY :: nat where
  "BUF_WRITER_CAPACITY = 64 * 1024"

text \<open>\<open>BufWriter::write_all\<close>: buffered when it fits, else flushed first; large writes bypass it.\<close>

definition buf_write :: "string \<Rightarrow> bytes \<Rightarrow> wal_files \<Rightarrow> bytes \<Rightarrow> wal_files \<times> bytes" where
  "buf_write path bs fs buf =
     (let spare = BUF_WRITER_CAPACITY - length buf
      in if length bs < spare then (fs, buf @ bs)
         else
           let (fs1, buf1) = (if spare < length bs then (file_append path buf fs, []) else (fs, buf))
           in if BUF_WRITER_CAPACITY \<le> length bs then (file_append path bs fs1, buf1)
              else (fs1, buf1 @ bs))"

section \<open>Segments\<close>

record segment =
  seg_id :: nat
  write_offset :: nat
  wbuf :: bytes

definition segment_create :: "nat \<Rightarrow> wal_files \<Rightarrow> wal_files \<times> segment" where
  "segment_create i fs = (hm_insert (segment_path i) [] fs, \<lparr> seg_id = i, write_offset = 0, wbuf = [] \<rparr>)"

definition segment_open_append :: "crc_lib \<Rightarrow> nat \<Rightarrow> wal_files \<Rightarrow> wal_error + wal_files \<times> segment" where
  "segment_open_append L i fs =
     (case hm_get fs (segment_path i) of
        None \<Rightarrow> Inl (WalIo (segment_path i))
      | Some existing \<Rightarrow>
          let valid_end = scan_valid_end L existing i;
              fs' = (if valid_end < length existing
                     then hm_insert (segment_path i) (take valid_end existing) fs else fs)
          in Inr (fs', \<lparr> seg_id = i, write_offset = valid_end, wbuf = [] \<rparr>))"

definition segment_append :: "crc_lib \<Rightarrow> segment \<Rightarrow> bytes \<Rightarrow> wal_files \<Rightarrow>
    wal_files \<times> segment \<times> (wal_error + nat)" where
  "segment_append L s payload fs =
     (if MAX_RECORD_SIZE < length payload
      then (fs, s, Inl (RecordTooLarge (length payload) MAX_RECORD_SIZE))
      else
        let path = segment_path (seg_id s);
            (fs1, buf1) = buf_write path (frame_header L payload) fs (wbuf s);
            (fs2, buf2) = buf_write path payload fs1 buf1
        in (fs2, s\<lparr> write_offset := write_offset s + (HEADER_SIZE + length payload), wbuf := buf2 \<rparr>,
            Inr (write_offset s)))"

definition segment_flush :: "segment \<Rightarrow> wal_files \<Rightarrow> wal_files \<times> segment" where
  "segment_flush s fs = (file_append (segment_path (seg_id s)) (wbuf s) fs, s\<lparr> wbuf := [] \<rparr>)"

definition segment_sync :: "segment \<Rightarrow> wal_files \<Rightarrow> wal_files \<times> segment" where
  "segment_sync s fs = segment_flush s fs"

definition remaining :: "segment \<Rightarrow> nat \<Rightarrow> nat" where
  "remaining s cap = cap - write_offset s"

section \<open>The writer\<close>

record wal_writer =
  w_config :: wal_config
  active :: segment
  next_segment_id :: nat

definition acquire_lock :: "wal_config \<Rightarrow> wal_world \<Rightarrow> wal_world \<times> (wal_error + unit)" where
  "acquire_lock cfg w =
     (if wal_locked w then (w, Inl (WriterLocked (base_path cfg)))
      else (w\<lparr> wal_locked := True \<rparr>, Inr ()))"

definition writer_open :: "crc_lib \<Rightarrow> wal_config \<Rightarrow> wal_world \<Rightarrow>
    (wal_world \<times> (wal_error + wal_writer)) option" where
  "writer_open L cfg w =
     (case acquire_lock cfg w of
        (w1, Inl e) \<Rightarrow> Some (w1, Inl e)
      | (w1, Inr _) \<Rightarrow>
          (let ids = list_segment_ids (wal_files w1)
           in if ids = [] then
                (case segment_create 0 (wal_files w1) of
                   (fs, s) \<Rightarrow> Some (w1\<lparr> wal_files := fs \<rparr>,
                     Inr \<lparr> w_config = cfg, active = s, next_segment_id = 1 \<rparr>))
              else
                let last_id = last ids
                in case segment_open_append L last_id (wal_files w1) of
                     Inl e \<Rightarrow> Some (w1\<lparr> wal_locked := False \<rparr>, Inl e)
                   | Inr (fs, s) \<Rightarrow>
                       if last_id + 1 < 2 ^ 64
                       then Some (w1\<lparr> wal_files := fs \<rparr>,
                         Inr \<lparr> w_config = cfg, active = s, next_segment_id = last_id + 1 \<rparr>)
                       else None))"

text \<open>Sealing the active segment and starting the next; the id increment can abort.\<close>

definition rotate :: "wal_writer \<Rightarrow> wal_files \<Rightarrow> (wal_files \<times> wal_writer) option" where
  "rotate wr fs =
     (let (fs1, s1) = segment_sync (active wr) fs; i = next_segment_id wr
      in if i + 1 < 2 ^ 64 then
           let (fs2, s2) = segment_create i fs1
           in Some (fs2, wr\<lparr> active := s2, next_segment_id := i + 1 \<rparr>)
         else None)"

definition writer_append :: "crc_lib \<Rightarrow> wal_writer \<Rightarrow> bytes \<Rightarrow> wal_files \<Rightarrow>
    (wal_files \<times> wal_writer \<times> (wal_error + nat)) option" where
  "writer_append L wr payload fs =
     (let frame_size = HEADER_SIZE + length payload
      in case (if remaining (active wr) (segment_size (w_config wr)) < frame_size
               then rotate wr fs else Some (fs, wr)) of
           None \<Rightarrow> None
         | Some (fs1, wr1) \<Rightarrow>
             let (fs2, s, r) = segment_append L (active wr1) payload fs1
             in Some (fs2, wr1\<lparr> active := s \<rparr>, r))"

definition writer_flush :: "wal_writer \<Rightarrow> wal_files \<Rightarrow> wal_files \<times> wal_writer" where
  "writer_flush wr fs = (let (fs1, s) = segment_flush (active wr) fs in (fs1, wr\<lparr> active := s \<rparr>))"

definition writer_sync :: "wal_writer \<Rightarrow> wal_files \<Rightarrow> wal_files \<times> wal_writer" where
  "writer_sync wr fs = (let (fs1, s) = segment_sync (active wr) fs in (fs1, wr\<lparr> active := s \<rparr>))"

definition writer_position :: "wal_writer \<Rightarrow> nat \<times> nat" where
  "writer_position wr = (seg_id (active wr), write_offset (active wr))"

text \<open>The combined offset; multiplication and addition abort on overflow.\<close>

definition global_offset :: "wal_writer \<Rightarrow> nat option" where
  "global_offset wr =
     (let g = seg_id (active wr) * segment_size (w_config wr) + write_offset (active wr)
      in if g < 2 ^ 64 then Some g else None)"

section \<open>Pruning\<close>

text \<open>The scan over the consumers' position files, with its running minimum.\<close>

definition position_segment :: "string \<Rightarrow> nat option" where
  "position_segment content =
     (case split_once (CHR '':'') (trim content) of
        None \<Rightarrow> None | Some (seg_str, _) \<Rightarrow> parse_uint (2 ^ 64) seg_str)"

fun min_consumer_from :: "(string \<rightharpoonup> string) \<Rightarrow> nat \<Rightarrow> string list \<Rightarrow> nat option" where
  "min_consumer_from pos m [] = Some m"
| "min_consumer_from pos m (f # fs) =
     (case pos f of
        None \<Rightarrow> None
      | Some content \<Rightarrow>
          (case position_segment content of
             Some seg \<Rightarrow> min_consumer_from pos (min m seg) fs
           | None \<Rightarrow> None))"

definition min_consumer_segment :: "wal_writer \<Rightarrow> (string \<rightharpoonup> string) \<Rightarrow> string list \<Rightarrow> nat" where
  "min_consumer_segment wr pos consumers =
     (if consumers = [] then seg_id (active wr)
      else
        (case min_consumer_from pos (2 ^ 64 - 1) consumers of
           None \<Rightarrow> 0
         | Some m \<Rightarrow> if m = 2 ^ 64 - 1 then seg_id (active wr) else m))"

definition remove_segment :: "nat \<Rightarrow> wal_files \<Rightarrow> wal_files" where
  "remove_segment i fs =
     (if hm_get fs (segment_path i) \<noteq> None then hm_remove (segment_path i) fs else fs)"

definition prune :: "wal_writer \<Rightarrow> string list \<Rightarrow> wal_world \<Rightarrow> wal_world" where
  "prune wr consumers w =
     (let min_consumed = min_consumer_segment wr (pos_files w) consumers;
          ids = list_segment_ids (wal_files w)
      in w\<lparr> wal_files := fold (\<lambda>i fs.
             if seg_id (active wr) \<le> i then fs
             else if i < min_consumed then remove_segment i fs else fs) ids (wal_files w) \<rparr>)"

text \<open>The retention window: from the newest sealed segment backwards.\<close>

fun retention_cutoff :: "wal_config \<Rightarrow> nat \<Rightarrow> wal_files \<Rightarrow> nat \<Rightarrow> nat \<Rightarrow> nat \<Rightarrow> nat list \<Rightarrow> nat" where
  "retention_cutoff cfg act fs retained_bytes retained_count cutoff [] = cutoff"
| "retention_cutoff cfg act fs retained_bytes retained_count cutoff (i # is) =
     (if act \<le> i then retention_cutoff cfg act fs retained_bytes retained_count cutoff is
      else if max_segments cfg \<le> retained_count then cutoff
      else
        let file_size = (case hm_get fs (segment_path i) of None \<Rightarrow> 0 | Some c \<Rightarrow> length c);
            retained_bytes' = retained_bytes + file_size
        in if retained_bytes' \<le> max_consumer_lag_bytes cfg
           then retention_cutoff cfg act fs retained_bytes' (retained_count + 1) i is
           else cutoff)"

record prune_report =
  blocked_by_lag :: nat
  over_cap_warning :: bool

definition prune_with_backpressure :: "wal_writer \<Rightarrow> string list \<Rightarrow> wal_world \<Rightarrow> wal_world \<times> prune_report" where
  "prune_with_backpressure wr consumers w =
     (let min_consumed = min_consumer_segment wr (pos_files w) consumers;
          ids = list_segment_ids (wal_files w);
          act = seg_id (active wr);
          cutoff = retention_cutoff (w_config wr) act (wal_files w) 0 1 act (rev ids);
          (fs, blocked) = fold (\<lambda>i (fs, blocked).
             if act \<le> i then (fs, blocked)
             else if cutoff \<le> i then (fs, blocked)
             else if i < min_consumed then (remove_segment i fs, blocked)
             else (fs, blocked + 1)) ids (wal_files w, 0);
          remaining_segments = length ids
      in (w\<lparr> wal_files := fs \<rparr>,
          \<lparr> blocked_by_lag = blocked,
            over_cap_warning = (max_segments (w_config wr) < remaining_segments) \<rparr>))"

text \<open>Dropping a writer flushes its buffer and releases the lock.\<close>

definition writer_drop :: "wal_writer \<Rightarrow> wal_world \<Rightarrow> wal_world" where
  "writer_drop wr w = w\<lparr> wal_files := fst (segment_flush (active wr) (wal_files w)), wal_locked := False \<rparr>"

section \<open>File names and the directory invariant\<close>

lemma segment_path_inj [simp]: "segment_path i = segment_path j \<longleftrightarrow> i = j"
proof
  assume "segment_path i = segment_path j"
  then have "zero_pad 20 (dec i) = zero_pad 20 (dec j)" by (simp add: segment_path_def)
  then have "digits_val (zero_pad 20 (dec i)) = digits_val (zero_pad 20 (dec j))" by simp
  then show "i = j" by simp
qed simp

lemma parse_segment_path [simp]: "i < 2 ^ 64 \<Longrightarrow> parse_segment_name (segment_path i) = Some i"
proof -
  assume i: "i < 2 ^ 64"
  have "zero_pad 20 (dec i) \<noteq> []" using length_zero_pad [of 20 "dec i"] by auto
  then have "parse_uint (2 ^ 64) (zero_pad 20 (dec i)) = Some i"
    using i by (simp add: parse_uint_digits)
  moreover have "strip_prefix ''segment_'' (segment_path i) = Some (zero_pad 20 (dec i) @ ''.wal'')"
    unfolding segment_path_def by (rule strip_prefix_append)
  ultimately show ?thesis by (simp add: parse_segment_name_def)
qed

lemma parse_segment_bound: "parse_segment_name n = Some i \<Longrightarrow> i < 2 ^ 64"
  by (auto simp: parse_segment_name_def parse_uint_def Let_def bind_eq_Some_conv split: if_splits)

text \<open>A directory the program wrote: segment-like names are canonical.\<close>

definition dir_ok :: "wal_files \<Rightarrow> bool" where
  "dir_ok fs \<longleftrightarrow> hm_ok fs \<and>
     (\<forall>n i. hm_get fs n \<noteq> None \<longrightarrow> parse_segment_name n = Some i \<longrightarrow> n = segment_path i)"

definition seg_ids :: "wal_files \<Rightarrow> nat set" where
  "seg_ids fs = {i. i < 2 ^ 64 \<and> hm_get fs (segment_path i) \<noteq> None}"

lemma set_list_segment_ids:
  assumes "dir_ok fs"
  shows "set (list_segment_ids fs) = seg_ids fs"
proof -
  have "i \<in> set (list_segment_ids fs) \<longleftrightarrow> (\<exists>n. hm_get fs n \<noteq> None \<and> parse_segment_name n = Some i)" for i
    using hm_keys_get [of _ fs] by (auto simp: list_segment_ids_def List.map_filter_def) force
  moreover have "(\<exists>n. hm_get fs n \<noteq> None \<and> parse_segment_name n = Some i) \<longleftrightarrow> i \<in> seg_ids fs" for i
  proof
    assume "\<exists>n. hm_get fs n \<noteq> None \<and> parse_segment_name n = Some i"
    then obtain n where n: "hm_get fs n \<noteq> None" "parse_segment_name n = Some i" by blast
    then have "n = segment_path i" using assms by (simp add: dir_ok_def)
    with n parse_segment_bound [OF n(2)] show "i \<in> seg_ids fs" by (simp add: seg_ids_def)
  next
    assume "i \<in> seg_ids fs"
    then show "\<exists>n. hm_get fs n \<noteq> None \<and> parse_segment_name n = Some i"
      by (intro exI [of _ "segment_path i"]) (simp add: seg_ids_def)
  qed
  ultimately show ?thesis by blast
qed

lemma distinct_map_filter_inj:
  "distinct xs \<Longrightarrow> (\<And>x y z. x \<in> set xs \<Longrightarrow> y \<in> set xs \<Longrightarrow> f x = Some z \<Longrightarrow> f y = Some z \<Longrightarrow> x = y) \<Longrightarrow>
   distinct (List.map_filter f xs)"
proof (induction xs)
  case (Cons x xs)
  have "distinct (List.map_filter f xs)"
    using Cons.prems by (intro Cons.IH) auto
  moreover have "z \<notin> set (List.map_filter f xs)" if "f x = Some z" for z
  proof
    assume "z \<in> set (List.map_filter f xs)"
    then obtain y where "y \<in> set xs" "f y = Some z" by (auto simp: List.map_filter_def)
    then have "x = y" using Cons.prems(2) [of x y z] that by simp
    with \<open>y \<in> set xs\<close> Cons.prems(1) show False by simp
  qed
  ultimately show ?case by (cases "f x") (simp_all add: List.map_filter_simps)
qed (simp add: List.map_filter_simps)

lemma list_segment_ids_sorted:
  assumes "dir_ok fs"
  shows "sorted_wrt (<) (list_segment_ids fs)"
proof -
  have "x = y" if "x \<in> set (hm_keys fs)" "y \<in> set (hm_keys fs)" "parse_segment_name x = Some i" "parse_segment_name y = Some i"
    for x y i
    using that assms by (auto simp: hm_keys_get dir_ok_def)
  moreover have "distinct (hm_keys fs)"
    using assms by (simp add: dir_ok_def hm_ok_def hm_keys_def)
  ultimately have "distinct (List.map_filter parse_segment_name (hm_keys fs))"
    by (intro distinct_map_filter_inj) simp_all
  then show ?thesis
    by (simp add: list_segment_ids_def strict_sorted_iff)
qed

text \<open>The listing is the only strictly increasing list of the segment ids present.\<close>

lemma list_segment_idsI:
  "dir_ok fs \<Longrightarrow> sorted_wrt (<) xs \<Longrightarrow> set xs = seg_ids fs \<Longrightarrow> list_segment_ids fs = xs"
  using list_segment_ids_sorted [of fs] set_list_segment_ids [of fs]
  by (auto simp: strict_sorted_iff intro: sorted_distinct_set_unique)

text \<open>Operations that keep the set of names keep the listing.\<close>

lemma dir_same_names:
  assumes "dir_ok fs" "hm_ok fs'" "\<And>n. hm_get fs' n = None \<longleftrightarrow> hm_get fs n = None"
  shows "dir_ok fs' \<and> list_segment_ids fs' = list_segment_ids fs"
proof -
  have "dir_ok fs'" using assms by (simp add: dir_ok_def)
  moreover have "seg_ids fs' = seg_ids fs" using assms(3) by (simp add: seg_ids_def)
  ultimately show ?thesis
    using assms(1) by (auto intro: list_segment_idsI simp: list_segment_ids_sorted set_list_segment_ids)
qed

lemma dir_insert_new:
  assumes d: "dir_ok fs" and i: "i < 2 ^ 64" "\<forall>j\<in>set (list_segment_ids fs). j < i"
  shows "dir_ok (hm_insert (segment_path i) c fs)"
    and "list_segment_ids (hm_insert (segment_path i) c fs) = list_segment_ids fs @ [i]"
proof -
  let ?fs = "hm_insert (segment_path i) c fs"
  have hm: "hm_ok fs" using d by (simp add: dir_ok_def)
  show d': "dir_ok ?fs"
    using d i(1) by (auto simp: dir_ok_def hm.get_put hm.ok_put split: if_splits)
  have "seg_ids ?fs = insert i (seg_ids fs)"
    using i(1) by (auto simp: seg_ids_def hm.get_put [OF hm])
  moreover have "sorted_wrt (<) (list_segment_ids fs @ [i])"
    using i(2) list_segment_ids_sorted [OF d] by (simp add: sorted_wrt_append)
  ultimately show "list_segment_ids ?fs = list_segment_ids fs @ [i]"
    by (intro list_segment_idsI [OF d']) (simp_all add: set_list_segment_ids d)
qed

lemma dir_remove:
  assumes d: "dir_ok fs"
  shows "dir_ok (hm_remove (segment_path i) fs)"
    and "list_segment_ids (hm_remove (segment_path i) fs) = filter (\<lambda>j. j \<noteq> i) (list_segment_ids fs)"
proof -
  let ?fs = "hm_remove (segment_path i) fs"
  have hm: "hm_ok fs" using d by (simp add: dir_ok_def)
  show d': "dir_ok ?fs"
    using d by (auto simp: dir_ok_def hm.get_del hm.ok_del split: if_splits)
  have "seg_ids ?fs = {j\<in>seg_ids fs. j \<noteq> i}"
    by (auto simp: seg_ids_def hm.get_del [OF hm])
  then show "list_segment_ids ?fs = filter (\<lambda>j. j \<noteq> i) (list_segment_ids fs)"
    using list_segment_ids_sorted [OF d]
    by (intro list_segment_idsI [OF d']) (simp_all add: set_list_segment_ids d sorted_wrt_filter)
qed

section \<open>What a writer's state stands for\<close>

definition holds :: "crc_lib \<Rightarrow> wal_files \<Rightarrow> (nat \<times> bytes list) list \<Rightarrow> bool" where
  "holds L fs segs \<longleftrightarrow>
     list_all (\<lambda>(i, ps). hm_get fs (segment_path i) = Some (frames L ps) \<and> list_all valid_payload ps) segs"

text \<open>
  The writer's log: the sealed segments with the records they hold, and the records of the
  active segment, part of which is still in the buffer.
\<close>

definition active_holds :: "crc_lib \<Rightarrow> segment \<Rightarrow> wal_files \<Rightarrow> bytes list \<Rightarrow> bool" where
  "active_holds L s fs act \<longleftrightarrow>
     (\<exists>c. hm_get fs (segment_path (seg_id s)) = Some c \<and> c @ wbuf s = frames L act) \<and>
     write_offset s = length (frames L act) \<and> list_all valid_payload act"

definition writer_ok :: "crc_lib \<Rightarrow> wal_writer \<Rightarrow> wal_files \<Rightarrow> (nat \<times> bytes list) list \<Rightarrow> bytes list \<Rightarrow> bool" where
  "writer_ok L wr fs sealed act \<longleftrightarrow>
     dir_ok fs \<and> holds L fs sealed \<and>
     list_segment_ids fs = map fst sealed @ [seg_id (active wr)] \<and>
     active_holds L (active wr) fs act \<and>
     next_segment_id wr = seg_id (active wr) + 1 \<and> next_segment_id wr < 2 ^ 64"

definition wal_log :: "(nat \<times> bytes list) list \<Rightarrow> bytes list \<Rightarrow> bytes list" where
  "wal_log sealed act = concat (map snd sealed) @ act"

text \<open>Changing one file only.\<close>

definition only_file :: "string \<Rightarrow> wal_files \<Rightarrow> wal_files \<Rightarrow> bool" where
  "only_file path fs fs' \<longleftrightarrow> hm_ok fs' \<and> (\<forall>n. n \<noteq> path \<longrightarrow> hm_get fs' n = hm_get fs n)"

lemma only_file_refl: "hm_ok fs \<Longrightarrow> only_file path fs fs"
  by (simp add: only_file_def)

lemma only_file_trans: "only_file path fs gs \<Longrightarrow> only_file path gs hs \<Longrightarrow> only_file path fs hs"
  by (simp add: only_file_def)

lemma file_append_spec:
  assumes "hm_ok fs" "hm_get fs path = Some c"
  shows "hm_get (file_append path bs fs) path = Some (c @ bs) \<and> only_file path fs (file_append path bs fs)"
  using assms by (simp add: file_append_def only_file_def hm.get_put hm.ok_put)

lemma buf_write_spec:
  assumes "hm_ok fs" "hm_get fs path = Some c" "buf_write path bs fs buf = (fs', buf')"
  shows "\<exists>c'. hm_get fs' path = Some c' \<and> c' @ buf' = c @ buf @ bs \<and> only_file path fs fs'"
proof (cases "length bs < BUF_WRITER_CAPACITY - length buf")
  case True
  with assms show ?thesis by (auto simp: buf_write_def Let_def only_file_refl)
next
  case no: False
  show ?thesis
  proof (cases "BUF_WRITER_CAPACITY - length buf < length bs")
    case True
    have f: "hm_get (file_append path buf fs) path = Some (c @ buf)" "only_file path fs (file_append path buf fs)"
      using file_append_spec [OF assms(1,2), of buf] by simp_all
    then have "hm_ok (file_append path buf fs)" by (simp add: only_file_def)
    from file_append_spec [OF this f(1), of bs] f assms(3) no True show ?thesis
      by (auto simp: buf_write_def Let_def only_file_trans split: if_splits)
  next
    case False
    then have eq: "BUF_WRITER_CAPACITY - length buf = length bs" using no by simp
    show ?thesis
    proof (cases "BUF_WRITER_CAPACITY \<le> length bs")
      case big: True
      then have "length buf = 0" using eq unfolding BUF_WRITER_CAPACITY_def by arith
      then have "buf = []" by simp
      with big eq assms(3) file_append_spec [OF assms(1,2), of bs] show ?thesis
        by (auto simp: buf_write_def Let_def)
    next
      case small: False
      with eq assms show ?thesis by (auto simp: buf_write_def Let_def only_file_refl)
    qed
  qed
qed

lemma only_file_names:
  assumes "dir_ok fs" "only_file path fs fs'" "hm_get fs path \<noteq> None" "hm_get fs' path \<noteq> None"
  shows "dir_ok fs' \<and> list_segment_ids fs' = list_segment_ids fs"
proof (rule dir_same_names [OF assms(1)])
  show "hm_ok fs'" using assms(2) by (simp add: only_file_def)
  show "hm_get fs' n = None \<longleftrightarrow> hm_get fs n = None" for n
    using assms by (cases "n = path") (auto simp: only_file_def)
qed

lemma holds_only_file:
  "holds L fs segs \<Longrightarrow> only_file (segment_path i) fs fs' \<Longrightarrow> i \<notin> set (map fst segs) \<Longrightarrow> holds L fs' segs"
proof -
  assume a: "holds L fs segs" "only_file (segment_path i) fs fs'" "i \<notin> set (map fst segs)"
  have "hm_get fs' (segment_path j) = hm_get fs (segment_path j)" if "(j, ps) \<in> set segs" for j ps
  proof -
    from that have "j \<in> set (map fst segs)" by force
    with a(3) have "j \<noteq> i" by blast
    with a(2) show ?thesis by (simp add: only_file_def)
  qed
  with a(1) show ?thesis by (auto simp: holds_def list_all_iff)
qed

lemma segment_flush_spec:
  assumes "hm_ok fs" "active_holds L s fs act" "segment_flush s fs = (fs', s')"
  shows "active_holds L s' fs' act \<and> hm_get fs' (segment_path (seg_id s)) = Some (frames L act) \<and>
    only_file (segment_path (seg_id s)) fs fs' \<and> seg_id s' = seg_id s \<and> wbuf s' = []"
  using assms file_append_spec [OF assms(1), of "segment_path (seg_id s)" _ "wbuf s"]
  by (fastforce simp: segment_flush_def active_holds_def)

lemma segment_append_spec:
  assumes "hm_ok fs" "active_holds L s fs act" "valid_payload p" "segment_append L s p fs = (fs', s', r)"
  shows "active_holds L s' fs' (act @ [p]) \<and> only_file (segment_path (seg_id s)) fs fs' \<and>
    seg_id s' = seg_id s \<and> r = Inr (length (frames L act))"
proof -
  let ?path = "segment_path (seg_id s)"
  obtain c where c: "hm_get fs ?path = Some c" "c @ wbuf s = frames L act"
    using assms(2) by (auto simp: active_holds_def)
  obtain fs1 buf1 where w1: "buf_write ?path (frame_header L p) fs (wbuf s) = (fs1, buf1)"
    by (cases "buf_write ?path (frame_header L p) fs (wbuf s)")
  obtain fs2 buf2 where w2: "buf_write ?path p fs1 buf1 = (fs2, buf2)"
    by (cases "buf_write ?path p fs1 buf1")
  obtain c1 where c1: "hm_get fs1 ?path = Some c1" "c1 @ buf1 = c @ wbuf s @ frame_header L p" "only_file ?path fs fs1"
    using buf_write_spec [OF assms(1) c(1) w1] by blast
  then have "hm_ok fs1" by (simp add: only_file_def)
  from buf_write_spec [OF this c1(1) w2] obtain c2 where
    c2: "hm_get fs2 ?path = Some c2" "c2 @ buf2 = c1 @ buf1 @ p" "only_file ?path fs1 fs2"
    by blast
  have "c2 @ buf2 = frames L (act @ [p])"
    using c(2) c1(2) c2(2) by (simp add: frame_def)
  moreover have "fs' = fs2" "r = Inr (write_offset s)" "seg_id s' = seg_id s" "wbuf s' = buf2"
    "write_offset s' = write_offset s + (HEADER_SIZE + length p)"
    using assms(3,4) w1 w2 by (auto simp: segment_append_def Let_def valid_payload_def)
  ultimately show ?thesis
    using assms(2,3) c1(3) c2(1,3) by (auto simp: active_holds_def intro: only_file_trans)
qed

lemma writer_ok_distinct:
  assumes "writer_ok L wr fs sealed act"
  shows "seg_id (active wr) \<notin> set (map fst sealed)" "\<forall>i\<in>set (map fst sealed). i < seg_id (active wr)"
proof -
  have "sorted_wrt (<) (map fst sealed @ [seg_id (active wr)])"
    using assms list_segment_ids_sorted [of fs] by (simp add: writer_ok_def)
  then show "seg_id (active wr) \<notin> set (map fst sealed)" "\<forall>i\<in>set (map fst sealed). i < seg_id (active wr)"
    by (auto simp: sorted_wrt_append)
qed

lemma hm_ok_dir: "dir_ok fs \<Longrightarrow> hm_ok fs"
  by (simp add: dir_ok_def)

text \<open>Any change of the active segment's file alone keeps the rest of the writer's state.\<close>

lemma writer_ok_active:
  assumes ok: "writer_ok L wr fs sealed act"
    and f: "only_file (segment_path (seg_id (active wr))) fs fs'"
    and a: "active_holds L s' fs' act'" and i: "seg_id s' = seg_id (active wr)"
  shows "writer_ok L (wr\<lparr> active := s' \<rparr>) fs' sealed act'"
proof -
  have "hm_get fs (segment_path (seg_id (active wr))) \<noteq> None" "hm_get fs' (segment_path (seg_id (active wr))) \<noteq> None"
    using ok a i by (auto simp: writer_ok_def active_holds_def)
  with only_file_names [OF _ f] ok have "dir_ok fs' \<and> list_segment_ids fs' = list_segment_ids fs"
    by (simp add: writer_ok_def)
  with ok a i holds_only_file [OF _ f, of L sealed] writer_ok_distinct [OF ok] show ?thesis
    by (simp add: writer_ok_def)
qed

lemma writer_flush_ok:
  assumes "writer_ok L wr fs sealed act" "writer_flush wr fs = (fs', wr')"
  shows "writer_ok L wr' fs' sealed act \<and> wbuf (active wr') = [] \<and> w_config wr' = w_config wr \<and>
    holds L fs' (sealed @ [(seg_id (active wr'), act)]) \<and>
    list_segment_ids fs' = map fst (sealed @ [(seg_id (active wr'), act)])"
proof -
  obtain s where s: "segment_flush (active wr) fs = (fs', s)" "wr' = wr\<lparr> active := s \<rparr>"
    using assms(2) by (auto simp: writer_flush_def split: prod.splits)
  have "hm_ok fs" "active_holds L (active wr) fs act"
    using assms(1) by (auto simp: writer_ok_def hm_ok_dir)
  note f = segment_flush_spec [OF this s(1)]
  then have ok: "writer_ok L wr' fs' sealed act"
    using writer_ok_active [OF assms(1)] s(2) by simp
  with f s(2) show ?thesis
    by (auto simp: writer_ok_def holds_def active_holds_def)
qed

lemma rotate_ok:
  assumes ok: "writer_ok L wr fs sealed act" and r: "next_segment_id wr + 1 < 2 ^ 64"
  shows "\<exists>fs' wr'. rotate wr fs = Some (fs', wr') \<and>
    writer_ok L wr' fs' (sealed @ [(seg_id (active wr), act)]) [] \<and>
    w_config wr' = w_config wr \<and> next_segment_id wr' = next_segment_id wr + 1"
proof -
  obtain fs1 s1 where fl: "segment_flush (active wr) fs = (fs1, s1)" by (cases "segment_flush (active wr) fs")
  let ?i = "next_segment_id wr"
  let ?fs2 = "hm_insert (segment_path ?i) [] fs1"
  let ?sealed = "sealed @ [(seg_id (active wr), act)]"
  let ?wr' = "wr\<lparr> active := \<lparr> seg_id = ?i, write_offset = 0, wbuf = [] \<rparr>, next_segment_id := ?i + 1 \<rparr>"
  have fok: "holds L fs1 ?sealed" "list_segment_ids fs1 = map fst ?sealed" and ok1: "dir_ok fs1" "seg_id s1 = seg_id (active wr)"
    using writer_flush_ok [OF ok, of fs1 "wr\<lparr> active := s1 \<rparr>"] fl
    by (auto simp: writer_flush_def writer_ok_def segment_flush_def)
  have lt: "\<forall>j\<in>set (list_segment_ids fs1). j < ?i"
    using ok writer_ok_distinct [OF ok] fok(2) by (auto simp: writer_ok_def)
  have i: "?i < 2 ^ 64" using r by simp
  note new = dir_insert_new [OF ok1(1) i lt, of "[]"]
  have "only_file (segment_path ?i) fs1 ?fs2"
    using hm_ok_dir [OF ok1(1)] by (simp add: only_file_def hm.ok_put hm.get_put)
  then have "holds L ?fs2 ?sealed"
    by (rule holds_only_file [OF fok(1)]) (use lt fok(2) in auto)
  then have "writer_ok L ?wr' ?fs2 ?sealed []"
    using new fok(2) r hm_ok_dir [OF ok1(1)] by (simp add: writer_ok_def active_holds_def hm.get_put)
  moreover have "rotate wr fs = Some (?fs2, ?wr')"
    using fl r by (simp add: rotate_def segment_sync_def segment_create_def Let_def)
  ultimately show ?thesis by simp
qed

text \<open>Appending a record: onto the active segment if its frame fits, else onto a new one.\<close>

lemma writer_append_ok:
  assumes ok: "writer_ok L wr fs sealed act" and p: "valid_payload p"
    and r: "next_segment_id wr + 1 < 2 ^ 64"
  shows "\<exists>fs' wr' sealed' act' off. writer_append L wr p fs = Some (fs', wr', Inr off) \<and>
    writer_ok L wr' fs' sealed' act' \<and> w_config wr' = w_config wr \<and>
    next_segment_id wr' \<le> next_segment_id wr + 1 \<and>
    (if length (frames L act) + (HEADER_SIZE + length p) \<le> segment_size (w_config wr)
     then sealed' = sealed \<and> act' = act @ [p]
     else sealed' = sealed @ [(seg_id (active wr), act)] \<and> act' = [p])"
proof -
  have woff: "write_offset (active wr) = length (frames L act)"
    using ok by (simp add: writer_ok_def active_holds_def)
  let ?fits = "length (frames L act) + (HEADER_SIZE + length p) \<le> segment_size (w_config wr)"
  have fits: "remaining (active wr) (segment_size (w_config wr)) < HEADER_SIZE + length p \<longleftrightarrow> \<not> ?fits"
    by (auto simp: remaining_def woff HEADER_SIZE_def)
  obtain fs1 wr1 sealed1 act1 where
    rot: "(if \<not> ?fits then rotate wr fs else Some (fs, wr)) = Some (fs1, wr1)"
    and ok1: "writer_ok L wr1 fs1 sealed1 act1" and c1: "w_config wr1 = w_config wr"
    and n1: "next_segment_id wr1 \<le> next_segment_id wr + 1"
    and s1: "if ?fits then sealed1 = sealed \<and> act1 = act
      else sealed1 = sealed @ [(seg_id (active wr), act)] \<and> act1 = []"
    using rotate_ok [OF ok r] ok by (cases ?fits) fastforce+
  obtain fs2 s r where ap: "segment_append L (active wr1) p fs1 = (fs2, s, r)"
    by (cases "segment_append L (active wr1) p fs1")
  have h: "hm_ok fs1" "active_holds L (active wr1) fs1 act1"
    using ok1 by (auto simp: writer_ok_def hm_ok_dir)
  note sp = segment_append_spec [OF h p ap]
  have ok2: "writer_ok L (wr1\<lparr> active := s \<rparr>) fs2 sealed1 (act1 @ [p])"
    using sp by (intro writer_ok_active [OF ok1]) simp_all
  have "writer_append L wr p fs = Some (fs2, wr1\<lparr> active := s \<rparr>, r)"
    unfolding writer_append_def Let_def fits rot using ap by simp
  with ok2 sp c1 n1 s1 show ?thesis
    by (intro exI [of _ fs2] exI [of _ "wr1\<lparr> active := s \<rparr>"] exI [of _ sealed1] exI [of _ "act1 @ [p]"])
      (auto split: if_splits)
qed

section \<open>Appending\<close>

definition append_step :: "crc_lib \<Rightarrow> wal_files \<times> wal_writer \<Rightarrow> bytes \<Rightarrow>
    ((wal_files \<times> wal_writer) \<times> (wal_error + nat)) option" where
  "append_step L st p =
     (case writer_append L (snd st) p (fst st) of
        None \<Rightarrow> None | Some (fs, wr, r) \<Rightarrow> Some ((fs, wr), r))"

definition seg_bounded :: "crc_lib \<Rightarrow> nat \<Rightarrow> (nat \<times> bytes list) list \<Rightarrow> bool" where
  "seg_bounded L cap segs \<longleftrightarrow> list_all (\<lambda>(i, ps). length (frames L ps) \<le> cap \<or> length ps \<le> 1) segs"

lemma append_run:
  assumes "writer_ok L wr fs sealed act" "list_all valid_payload ps"
    and "next_segment_id wr + length ps < 2 ^ 64"
    and "seg_bounded L (segment_size (w_config wr)) (sealed @ [(seg_id (active wr), act)])"
  shows "\<exists>fs' wr' outs sealed' act'. run (append_step L) (fs, wr) ps = Some ((fs', wr'), outs) \<and>
    writer_ok L wr' fs' sealed' act' \<and> w_config wr' = w_config wr \<and>
    wal_log sealed' act' = wal_log sealed act @ ps \<and>
    seg_bounded L (segment_size (w_config wr)) (sealed' @ [(seg_id (active wr'), act')])"
  using assms
proof (induction ps arbitrary: wr fs sealed act)
  case Nil
  then show ?case by auto
next
  case (Cons p ps)
  have p: "valid_payload p" and r: "next_segment_id wr + 1 < 2 ^ 64"
    using Cons.prems(2,3) by auto
  obtain fs1 wr1 sealed1 act1 off where st: "writer_append L wr p fs = Some (fs1, wr1, Inr off)"
    and ok1: "writer_ok L wr1 fs1 sealed1 act1" and c1: "w_config wr1 = w_config wr"
    and n1: "next_segment_id wr1 \<le> next_segment_id wr + 1"
    and s1: "if length (frames L act) + (HEADER_SIZE + length p) \<le> segment_size (w_config wr)
      then sealed1 = sealed \<and> act1 = act @ [p]
      else sealed1 = sealed @ [(seg_id (active wr), act)] \<and> act1 = [p]"
    using writer_append_ok [OF Cons.prems(1) p r] by blast
  have log1: "wal_log sealed1 act1 = wal_log sealed act @ [p]"
    using s1 by (auto simp: wal_log_def split: if_splits)
  have b1: "seg_bounded L (segment_size (w_config wr1)) (sealed1 @ [(seg_id (active wr1), act1)])"
    using s1 Cons.prems(4) c1 by (auto simp: seg_bounded_def split: if_splits)
  have "next_segment_id wr1 + length ps < 2 ^ 64" using n1 Cons.prems(3) by simp
  from Cons.IH [OF ok1 _ this b1] Cons.prems(2) obtain fs' wr' outs sealed' act' where
    "run (append_step L) (fs1, wr1) ps = Some ((fs', wr'), outs)" "writer_ok L wr' fs' sealed' act'"
    "w_config wr' = w_config wr1" "wal_log sealed' act' = wal_log sealed1 act1 @ ps"
    "seg_bounded L (segment_size (w_config wr1)) (sealed' @ [(seg_id (active wr'), act')])"
    by auto
  moreover have "append_step L (fs, wr) p = Some ((fs1, wr1), Inr off)"
    using st by (simp add: append_step_def)
  ultimately show ?case using c1 log1
    by (intro exI [of _ fs'] exI [of _ wr'] exI [of _ "Inr off # outs"] exI [of _ sealed'] exI [of _ act']) simp
qed

text \<open>
  C19. Appending any number of valid records to a log never aborts while segment ids remain, and
  the log grows by exactly those records in that order: the sealed segments and the active one
  (its file followed by its buffer) hold the old records and then the new ones as complete
  frames, and no segment exceeds the configured size unless it holds a single record.
\<close>

theorem appends_extend_log:
  assumes "writer_ok L wr fs sealed act" "list_all valid_payload ps"
    and "next_segment_id wr + length ps < 2 ^ 64"
    and "seg_bounded L (segment_size (w_config wr)) (sealed @ [(seg_id (active wr), act)])"
  shows "\<exists>fs' wr' outs sealed' act'. run (append_step L) (fs, wr) ps = Some ((fs', wr'), outs) \<and>
    writer_ok L wr' fs' sealed' act' \<and>
    wal_log sealed' act' = wal_log sealed act @ ps \<and>
    seg_bounded L (segment_size (w_config wr)) (sealed' @ [(seg_id (active wr'), act')])"
  using append_run [OF assms] by blast

definition empty_world :: wal_world where
  "empty_world = \<lparr> wal_files = [], pos_files = Map.empty, wal_locked = False \<rparr>"

lemma open_empty:
  "\<exists>w wr. writer_open L cfg empty_world = Some (w, Inr wr) \<and> writer_ok L wr (wal_files w) [] [] \<and>
     w_config wr = cfg \<and> next_segment_id wr = 1 \<and> pos_files w = Map.empty"
proof -
  have d: "dir_ok []" by (simp add: dir_ok_def hm_ok_def hm_get_def)
  have l: "list_segment_ids [] = []" by (simp add: list_segment_ids_def hm_keys_def List.map_filter_simps)
  have "dir_ok (hm_insert (segment_path 0) [] [])" "list_segment_ids (hm_insert (segment_path 0) [] []) = [0]"
    using dir_insert_new [OF d, of 0 "[]"] l by simp_all
  then show ?thesis
    by (simp add: writer_open_def acquire_lock_def empty_world_def l segment_create_def writer_ok_def
        holds_def active_holds_def hm.get_put hm_ok_def)
qed

theorem appends_extend_log_witness:
  "\<exists>w wr fs' wr' outs sealed act.
     writer_open sum_lib (wal_config_default\<lparr> segment_size := 20 \<rparr>) empty_world = Some (w, Inr wr) \<and>
     run (append_step sum_lib) (wal_files w, wr) [[1, 2], [3, 4]] = Some ((fs', wr'), outs) \<and>
     writer_ok sum_lib wr' fs' sealed act \<and> wal_log sealed act = [[1, 2], [3, 4]]"
proof -
  let ?cfg = "wal_config_default\<lparr> segment_size := 20 \<rparr>"
  obtain w wr where o: "writer_open sum_lib ?cfg empty_world = Some (w, Inr wr)"
    "writer_ok sum_lib wr (wal_files w) [] []" "w_config wr = ?cfg" "next_segment_id wr = 1"
    using open_empty [of sum_lib ?cfg] by blast
  have "list_all valid_payload [[1, 2], [3, 4]]" by (simp add: valid_payload_def MAX_RECORD_SIZE_def)
  moreover have "next_segment_id wr + length [[1 :: u8, 2], [3, 4]] < 2 ^ 64" using o by simp
  moreover have "seg_bounded sum_lib (segment_size (w_config wr)) ([] @ [(seg_id (active wr), [])])"
    by (simp add: seg_bounded_def)
  ultimately show ?thesis
    using appends_extend_log [OF o(2)] o(1) by (fastforce simp: wal_log_def)
qed

section \<open>Recovery at open\<close>

text \<open>
  C18. Reopening after a crash. Whatever prefix of the active segment's frames reached the disk,
  opening the log takes the lock, keeps every sealed segment, cuts the active segment back to
  its last complete record (the file holds exactly those frames), and resumes there; a second
  open is refused while the lock is held and changes nothing.
\<close>

theorem reopen_after_crash:
  assumes "wal_locked w = False" "dir_ok (wal_files w)" "holds L (wal_files w) sealed"
    and "list_segment_ids (wal_files w) = map fst sealed @ [a]" "a + 1 < 2 ^ 64"
    and "hm_get (wal_files w) (segment_path a) = Some (take n (frames L act))"
    and "list_all valid_payload act" "n \<le> length (frames L act)"
  shows "\<exists>w' wr k. writer_open L cfg w = Some (w', Inr wr) \<and> k \<le> length act \<and>
    writer_ok L wr (wal_files w') sealed (take k act) \<and>
    hm_get (wal_files w') (segment_path a) = Some (frames L (take k act)) \<and>
    (k < length act \<longrightarrow> n < length (frames L (take (Suc k) act))) \<and>
    writer_open L cfg w' = Some (w', Inl (WriterLocked (base_path cfg)))"
proof -
  let ?fs = "wal_files w" and ?path = "segment_path a"
  obtain c where c: "c = take n (frames L act)" by simp
  note disk = assms(6) [folded c]
  obtain k where k: "k \<le> length act" "length (frames L (take k act)) \<le> n"
    and cut: "if k = length act then c = frames L (take k act)
      else n < length (frames L (take (Suc k) act)) \<and>
        c = frames L (take k act) @ take (n - length (frames L (take k act))) (frame L (act ! k))"
    using frame_cut [OF assms(8)] unfolding c by blast
  have v: "list_all valid_payload (take k act)"
    using assms(7) by (auto simp: list_all_iff dest: in_set_takeD)
  have scan: "scan_valid_end L c a = length (frames L (take k act))"
  proof (cases "k = length act")
    case True
    with cut scan_valid_frames [OF v stops_Nil, of L a] show ?thesis by simp
  next
    case False
    with k have lt: "k < length act" by simp
    then have "valid_payload (act ! k)" using assms(7) by (simp add: list_all_length)
    moreover have "n - length (frames L (take k act)) < length (frame L (act ! k))"
      using cut False k lt by (simp add: take_Suc_conv_app_nth less_diff_conv2)
    ultimately have "stops L (frames L (take k act)) (take (n - length (frames L (take k act))) (frame L (act ! k)))"
      by (rule torn_stops)
    with scan_valid_frames [OF v, of L _ a] cut False show ?thesis by simp
  qed
  have tk: "take (length (frames L (take k act))) c = frames L (take k act)"
  proof -
    have "\<exists>t. c = frames L (take k act) @ t" using cut by (cases "k = length act") auto
    then show ?thesis by (metis append_eq_conv_conj)
  qed
  let ?fs' = "if length (frames L (take k act)) < length c then hm_insert ?path (frames L (take k act)) ?fs else ?fs"
  have get: "hm_get ?fs' ?path = Some (frames L (take k act))"
  proof (cases "length (frames L (take k act)) < length c")
    case True
    then show ?thesis using assms(2) by (simp only: if_True hm.get_put hm_ok_dir simp_thms)
  next
    case False
    then have "length c \<le> length (frames L (take k act))" by (simp only: not_less)
    from take_all [OF this] tk have "c = frames L (take k act)" by (simp only:)
    with False disk show ?thesis by simp
  qed
  have of': "only_file ?path ?fs ?fs'"
    using hm_ok_dir [OF assms(2)] by (simp add: only_file_def hm.get_put hm.ok_put)
  have names: "dir_ok ?fs' \<and> list_segment_ids ?fs' = list_segment_ids ?fs"
    using only_file_names [OF assms(2) of'] get disk by simp
  have "a \<notin> set (map fst sealed)"
    using list_segment_ids_sorted [OF assms(2)] assms(4) by (auto simp: sorted_wrt_append)
  then have sealed: "holds L ?fs' sealed" by (rule holds_only_file [OF assms(3) of'])
  let ?w' = "w\<lparr> wal_locked := True, wal_files := ?fs' \<rparr>"
  let ?wr = "\<lparr> w_config = cfg, active = \<lparr> seg_id = a, write_offset = length (frames L (take k act)), wbuf = [] \<rparr>,
    next_segment_id = a + 1 \<rparr>"
  have "writer_open L cfg w = Some (?w', Inr ?wr)"
    using assms(1,4,5) disk scan tk
    by (simp add: writer_open_def acquire_lock_def segment_open_append_def Let_def)
  moreover have "writer_ok L ?wr (wal_files ?w') sealed (take k act)"
    using names sealed assms(4,5) get v by (simp add: writer_ok_def active_holds_def)
  moreover have "writer_open L cfg ?w' = Some (?w', Inl (WriterLocked (base_path cfg)))"
    by (simp add: writer_open_def acquire_lock_def)
  ultimately show ?thesis
    using k get cut by (intro exI [of _ ?w'] exI [of _ ?wr] exI [of _ k]) auto
qed

definition torn_world :: wal_world where
  "torn_world = \<lparr> wal_files = [(segment_path 0, take 12 (frames sum_lib [[1], [2, 3]]))],
     pos_files = Map.empty, wal_locked = False \<rparr>"

lemma single_segment_dir:
  "i < 2 ^ 64 \<Longrightarrow> dir_ok [(segment_path i, c)] \<and> list_segment_ids [(segment_path i, c)] = [i]"
  using parse_segment_path [of i]
  by (auto simp: dir_ok_def hm_ok_def hm_get_def list_segment_ids_def hm_keys_def List.map_filter_simps split: if_splits)

theorem reopen_after_crash_witness:
  "\<exists>w' wr k. writer_open sum_lib wal_config_default torn_world = Some (w', Inr wr) \<and>
     writer_ok sum_lib wr (wal_files w') [] (take k [[1], [2, 3]])"
proof -
  have "list_all valid_payload [[1], [2, 3]]" by (simp add: valid_payload_def MAX_RECORD_SIZE_def)
  moreover have "12 \<le> length (frames sum_lib [[1], [2, 3]])" by (simp add: HEADER_SIZE_def)
  ultimately show ?thesis
    using reopen_after_crash [of torn_world sum_lib "[]" 0 12 "[[1], [2, 3]]" wal_config_default]
      single_segment_dir [of 0 "take 12 (frames sum_lib [[1], [2, 3]])"]
    by (auto simp: torn_world_def holds_def hm_get_def simp del: frames_simps)
qed

section \<open>Pruning is safe and bounded\<close>

lemma remove_segment_get:
  "hm_ok fs \<Longrightarrow> hm_get (remove_segment i fs) n = (if n = segment_path i then None else hm_get fs n)"
  by (simp add: remove_segment_def hm.get_del)

lemma remove_segment_dir: "dir_ok fs \<Longrightarrow> dir_ok (remove_segment i fs)"
  by (simp add: remove_segment_def dir_remove)

lemma fold_remove:
  "dir_ok fs \<Longrightarrow>
   dir_ok (fold (\<lambda>i fs. if P i then remove_segment i fs else fs) is fs) \<and>
   hm_get (fold (\<lambda>i fs. if P i then remove_segment i fs else fs) is fs) n =
     (if \<exists>i\<in>set is. P i \<and> n = segment_path i then None else hm_get fs n)"
proof (induction "is" arbitrary: fs)
  case (Cons i "is")
  have "dir_ok (if P i then remove_segment i fs else fs)"
    using Cons.prems by (simp add: remove_segment_dir)
  from Cons.IH [OF this] show ?case
    using remove_segment_get [OF hm_ok_dir [OF Cons.prems]] by auto
qed simp

lemma fold_remove_ids:
  assumes "dir_ok fs"
  shows "list_segment_ids (fold (\<lambda>i fs. if P i then remove_segment i fs else fs) (list_segment_ids fs) fs)
    = filter (\<lambda>i. \<not> P i) (list_segment_ids fs)"
proof (rule list_segment_idsI)
  let ?fs = "fold (\<lambda>i fs. if P i then remove_segment i fs else fs) (list_segment_ids fs) fs"
  note f = fold_remove [OF assms, of P "list_segment_ids fs"]
  then show "dir_ok ?fs" by blast
  show "sorted_wrt (<) (filter (\<lambda>i. \<not> P i) (list_segment_ids fs))"
    using list_segment_ids_sorted [OF assms] by (rule sorted_wrt_filter)
  have "hm_get ?fs (segment_path i) \<noteq> None \<longleftrightarrow> \<not> P i \<and> hm_get fs (segment_path i) \<noteq> None" if "i < 2 ^ 64" for i
    using f [THEN conjunct2, of "segment_path i"] that
    by (auto simp: set_list_segment_ids [OF assms] seg_ids_def split: if_splits)
  then show "set (filter (\<lambda>i. \<not> P i) (list_segment_ids fs)) = seg_ids ?fs"
    by (auto simp: set_list_segment_ids [OF assms] seg_ids_def)
qed

lemma prune_fold:
  "wal_files (prune wr cs w) =
     fold (\<lambda>i fs. if i < seg_id (active wr) \<and> i < min_consumer_segment wr (pos_files w) cs
        then remove_segment i fs else fs) (list_segment_ids (wal_files w)) (wal_files w)"
proof -
  have "(\<lambda>i fs. if a \<le> i then fs else if i < m then remove_segment i fs else fs) =
      (\<lambda>i fs. if i < a \<and> i < m then remove_segment i fs else fs)" for a m
    by (intro ext) auto
  then show ?thesis by (simp add: prune_def Let_def)
qed

text \<open>Whether a consumer may still read a segment: its position file is missing, unreadable or not beyond it.\<close>

definition consumer_needs :: "(string \<rightharpoonup> string) \<Rightarrow> string \<Rightarrow> nat \<Rightarrow> bool" where
  "consumer_needs pos f i =
     (case pos f of
        None \<Rightarrow> True
      | Some content \<Rightarrow> (case position_segment content of None \<Rightarrow> True | Some seg \<Rightarrow> seg \<le> i))"

lemma min_consumer_from_needs:
  "min_consumer_from pos m fs = Some k \<Longrightarrow>
     k \<le> m \<and> (\<forall>f\<in>set fs. consumer_needs pos f i \<longrightarrow> k \<le> i) \<and>
     (k = m \<or> (\<exists>f\<in>set fs. consumer_needs pos f k))"
proof (induction pos m fs rule: min_consumer_from.induct)
  case (2 pos m f fs)
  then obtain content s where c: "pos f = Some content" "position_segment content = Some s"
    by (auto split: option.splits)
  with 2 have "k \<le> min m s \<and> (\<forall>f\<in>set fs. consumer_needs pos f i \<longrightarrow> k \<le> i) \<and>
      (k = min m s \<or> (\<exists>f\<in>set fs. consumer_needs pos f k))"
    by simp
  with c show ?case by (auto simp: consumer_needs_def min_def split: if_splits)
qed auto

lemma min_consumer_from_None:
  "min_consumer_from pos m fs = None \<Longrightarrow> \<exists>f\<in>set fs. \<forall>i. consumer_needs pos f i"
proof (induction pos m fs rule: min_consumer_from.induct)
  case (2 pos m f fs)
  show ?case
  proof (cases "\<exists>content s. pos f = Some content \<and> position_segment content = Some s")
    case True
    with 2 show ?thesis by fastforce
  next
    case False
    then have "consumer_needs pos f i" for i by (auto simp: consumer_needs_def split: option.splits)
    then show ?thesis by auto
  qed
qed simp

text \<open>Below the minimum no consumer needs anything; at it somebody does, or it is the active segment.\<close>

lemma min_consumer_needs:
  assumes "i < seg_id (active wr)" "seg_id (active wr) < 2 ^ 64"
  shows "i < min_consumer_segment wr pos cs \<longleftrightarrow> \<not> (\<exists>f\<in>set cs. consumer_needs pos f i)"
proof (cases "cs = []")
  case True
  with assms show ?thesis by (simp add: min_consumer_segment_def)
next
  case False
  have mono: "consumer_needs pos f k \<Longrightarrow> k \<le> j \<Longrightarrow> consumer_needs pos f j" for f k j
    by (auto simp: consumer_needs_def split: option.splits)
  show ?thesis
  proof (cases "min_consumer_from pos (2 ^ 64 - 1) cs")
    case None
    with min_consumer_from_None [OF None] False show ?thesis by (auto simp: min_consumer_segment_def)
  next
    case (Some m)
    note f = min_consumer_from_needs [OF Some]
    show ?thesis
    proof (cases "m = 2 ^ 64 - 1")
      case True
      with f [of i] Some False assms show ?thesis by (auto simp: min_consumer_segment_def)
    next
      case ne: False
      with f obtain g where "g \<in> set cs" "consumer_needs pos g m" by blast
      with f [of i] mono [of g m i] Some False ne show ?thesis
        by (auto simp: min_consumer_segment_def not_less)
    qed
  qed
qed

text \<open>
  C33. Pruning deletes exactly the sealed segments that every registered consumer has moved
  past. The active segment is never deleted; a consumer whose position file is missing or
  cannot be parsed protects every segment; and no file that is not a deleted segment changes.
\<close>

theorem prune_exact:
  assumes "dir_ok (wal_files w)" "seg_id (active wr) < 2 ^ 64"
  shows "list_segment_ids (wal_files (prune wr cs w)) =
      filter (\<lambda>i. seg_id (active wr) \<le> i \<or> (\<exists>f\<in>set cs. consumer_needs (pos_files w) f i))
        (list_segment_ids (wal_files w)) \<and>
    (\<forall>n. hm_get (wal_files (prune wr cs w)) n = hm_get (wal_files w) n \<or>
      hm_get (wal_files (prune wr cs w)) n = None \<and>
      (\<exists>i < seg_id (active wr). n = segment_path i \<and> \<not> (\<exists>f\<in>set cs. consumer_needs (pos_files w) f i))) \<and>
    pos_files (prune wr cs w) = pos_files w"
proof -
  let ?m = "min_consumer_segment wr (pos_files w) cs" and ?a = "seg_id (active wr)"
  have eq: "i < ?a \<and> i < ?m \<longleftrightarrow> \<not> (?a \<le> i \<or> (\<exists>f\<in>set cs. consumer_needs (pos_files w) f i))" for i
    using min_consumer_needs [OF _ assms(2), of i "pos_files w" cs] by auto
  note f = fold_remove [OF assms(1), of "\<lambda>i. i < ?a \<and> i < ?m" "list_segment_ids (wal_files w)"]
  have "list_segment_ids (wal_files (prune wr cs w)) =
      filter (\<lambda>i. ?a \<le> i \<or> (\<exists>f\<in>set cs. consumer_needs (pos_files w) f i)) (list_segment_ids (wal_files w))"
    using fold_remove_ids [OF assms(1), of "\<lambda>i. i < ?a \<and> i < ?m"] unfolding prune_fold eq by (simp only: not_not)
  moreover have "hm_get (wal_files (prune wr cs w)) n = (if \<exists>i\<in>set (list_segment_ids (wal_files w)).
      (i < ?a \<and> i < ?m) \<and> n = segment_path i then None else hm_get (wal_files w) n)" for n
    using f [of n] by (simp only: prune_fold)
  moreover have "pos_files (prune wr cs w) = pos_files w"
    by (simp add: prune_def Let_def)
  ultimately show ?thesis
    unfolding eq by (auto simp: not_le)
qed

definition pruned_world :: "(string \<rightharpoonup> string) \<Rightarrow> wal_world" where
  "pruned_world pos = \<lparr> wal_files = hm_insert (segment_path 2) [] (hm_insert (segment_path 1) [7]
     (hm_insert (segment_path 0) [8] [])), pos_files = pos, wal_locked = True \<rparr>"

definition writer_at :: "wal_config \<Rightarrow> nat \<Rightarrow> wal_writer" where
  "writer_at cfg i = \<lparr> w_config = cfg, active = \<lparr> seg_id = i, write_offset = 0, wbuf = [] \<rparr>, next_segment_id = i + 1 \<rparr>"

lemma pruned_world_dir:
  "dir_ok (wal_files (pruned_world pos)) \<and> list_segment_ids (wal_files (pruned_world pos)) = [0, 1, 2]"
proof -
  have d: "dir_ok []" "list_segment_ids [] = []"
    by (simp_all add: dir_ok_def hm_ok_def hm_get_def list_segment_ids_def hm_keys_def List.map_filter_simps)
  have "dir_ok (hm_insert (segment_path 0) [8] []) \<and> list_segment_ids (hm_insert (segment_path 0) [8] []) = [0]"
    using dir_insert_new [OF d(1), of 0 "[8]"] d(2) by simp
  then have "dir_ok (hm_insert (segment_path 1) [7] (hm_insert (segment_path 0) [8] [])) \<and>
      list_segment_ids (hm_insert (segment_path 1) [7] (hm_insert (segment_path 0) [8] [])) = [0, 1]"
    using dir_insert_new [of "hm_insert (segment_path 0) [8] []" 1 "[7]"] by simp
  then show ?thesis
    unfolding pruned_world_def
    using dir_insert_new [of "hm_insert (segment_path 1) [7] (hm_insert (segment_path 0) [8] [])" 2 "[]"] by simp
qed

theorem prune_exact_witness:
  "list_segment_ids (wal_files (prune (writer_at wal_config_default 2) [''c''] (pruned_world [''c'' \<mapsto> ''1:0'']))) = [1, 2]"
proof -
  let ?w = "pruned_world [''c'' \<mapsto> ''1:0'']" and ?wr = "writer_at wal_config_default 2"
  have d: "dir_ok (wal_files ?w)" "list_segment_ids (wal_files ?w) = [0, 1, 2]" using pruned_world_dir by auto
  have s: "split_once (CHR '':'') (trim ''1:0'') = Some (dec 1, ''0'')" by code_simp
  have "position_segment ''1:0'' = Some 1" unfolding position_segment_def s by simp
  then have "consumer_needs (pos_files ?w) ''c'' i \<longleftrightarrow> 1 \<le> i" for i
    by (simp add: consumer_needs_def pruned_world_def)
  then show ?thesis
    using prune_exact [OF d(1), of ?wr "[''c'']"] d(2) by (simp add: writer_at_def)
qed

section \<open>Pruning with back-pressure\<close>

definition file_size :: "wal_files \<Rightarrow> nat \<Rightarrow> nat" where
  "file_size fs i = (case hm_get fs (segment_path i) of None \<Rightarrow> 0 | Some c \<Rightarrow> length c)"

text \<open>The segments the window takes, newest first.\<close>

fun window :: "wal_config \<Rightarrow> wal_files \<Rightarrow> nat \<Rightarrow> nat \<Rightarrow> nat list \<Rightarrow> nat" where
  "window cfg fs rb rc [] = 0"
| "window cfg fs rb rc (i # is) =
     (if rc < max_segments cfg \<and> rb + file_size fs i \<le> max_consumer_lag_bytes cfg
      then Suc (window cfg fs (rb + file_size fs i) (rc + 1) is) else 0)"

lemma window_le: "window cfg fs rb rc is \<le> length is"
  by (induction cfg fs rb rc "is" rule: window.induct) auto

lemma window_bounds:
  "rb \<le> max_consumer_lag_bytes cfg \<Longrightarrow>
   rb + (\<Sum>i\<leftarrow>take (window cfg fs rb rc is) is. file_size fs i) \<le> max_consumer_lag_bytes cfg \<and>
   rc + window cfg fs rb rc is \<le> max rc (max_segments cfg)"
proof (induction cfg fs rb rc "is" rule: window.induct)
  case (2 cfg fs rb rc i "is")
  then show ?case by (auto simp: max_def split: if_splits)
qed simp

lemma cutoff_window:
  "\<forall>i\<in>set is. i < act \<Longrightarrow>
   retention_cutoff cfg act fs rb rc cutoff is = last (cutoff # take (window cfg fs rb rc is) is)"
  by (induction cfg act fs rb rc cutoff "is" rule: retention_cutoff.induct)
    (auto simp: file_size_def Let_def)

lemma filter_from:
  assumes "sorted_wrt (<) (xs @ y # ys)"
  shows "filter (\<lambda>i::nat. y \<le> i) (xs @ y # ys) = y # ys"
proof -
  have "filter (\<lambda>i. y \<le> i) xs = []" using assms by (auto simp: sorted_wrt_append filter_empty_conv)
  moreover have "filter (\<lambda>i. y \<le> i) ys = ys" using assms by (auto simp: sorted_wrt_append intro!: filter_True)
  ultimately show ?thesis by simp
qed

lemma last_hd_rev: "last (a # xs) = hd (rev xs @ [a])"
  by (cases xs rule: rev_cases) simp_all

lemma from_cutoff:
  assumes "sorted_wrt (<) (ds @ [a])" "k \<le> length ds" "i \<in> set (ds @ [a])"
  shows "last (a # take k (rev ds)) \<le> i \<longleftrightarrow> i \<in> set (drop (length ds - k) ds) \<or> i = (a::nat)"
proof -
  let ?keep = "drop (length ds - k) ds"
  have keep: "rev (take k (rev ds)) = ?keep" using assms(2) by (simp add: take_rev)
  obtain y ys where y: "?keep @ [a] = y # ys" by (cases "?keep @ [a]") auto
  have c: "last (a # take k (rev ds)) = y" unfolding last_hd_rev keep y by simp
  have eq: "ds @ [a] = take (length ds - k) ds @ y # ys" by (simp flip: y)
  then have "set (filter (\<lambda>i. y \<le> i) (ds @ [a])) = set (?keep @ [a])"
    using filter_from [of "take (length ds - k) ds" y ys] assms(1) y by simp
  then have "i \<in> set (ds @ [a]) \<and> y \<le> i \<longleftrightarrow> i \<in> set (?keep @ [a])"
    unfolding set_filter by blast
  with assms(3) c show ?thesis by auto
qed

lemma backpressure_fold:
  "fold (\<lambda>i (fs, blocked). if a \<le> i then (fs, blocked) else if c \<le> i then (fs, blocked)
      else if i < m then (remove_segment i fs, blocked) else (fs, blocked + 1)) is (fs, b) =
   (fold (\<lambda>i fs. if \<not> (a \<le> i \<or> c \<le> i) \<and> i < m then remove_segment i fs else fs) is fs,
    b + length (filter (\<lambda>i. \<not> (a \<le> i \<or> c \<le> i \<or> i < m)) is))"
  by (induction "is" arbitrary: fs b) auto



section \<open>The combined offset\<close>

text \<open>
  The combined offset strictly increases with every append whose frame fits in one segment
  (and whose position is within the configured segment size), whether or not it rotates.
\<close>

theorem global_offset_increases:
  assumes "writer_ok L wr fs sealed act" "valid_payload p" "next_segment_id wr + 1 < 2 ^ 64"
    and "HEADER_SIZE + length p \<le> segment_size (w_config wr)"
    and "write_offset (active wr) \<le> segment_size (w_config wr)"
    and "writer_append L wr p fs = Some (fs', wr', r)"
    and "global_offset wr = Some g" "global_offset wr' = Some g'"
  shows "g < g'"
proof -
  obtain sealed' act' where ok: "writer_ok L wr' fs' sealed' act'" "w_config wr' = w_config wr"
    and s: "if length (frames L act) + (HEADER_SIZE + length p) \<le> segment_size (w_config wr)
      then sealed' = sealed \<and> act' = act @ [p]
      else sealed' = sealed @ [(seg_id (active wr), act)] \<and> act' = [p]"
    using writer_append_ok [OF assms(1-3)] assms(6) by auto
  have off: "write_offset (active wr) = length (frames L act)" "write_offset (active wr') = length (frames L act')"
    using assms(1) ok by (auto simp: writer_ok_def active_holds_def)
  have i: "(if length (frames L act) + (HEADER_SIZE + length p) \<le> segment_size (w_config wr)
      then seg_id (active wr') = seg_id (active wr) else seg_id (active wr) + 1 \<le> seg_id (active wr'))"
  proof (cases "length (frames L act) + (HEADER_SIZE + length p) \<le> segment_size (w_config wr)")
    case True
    then have "\<not> remaining (active wr) (segment_size (w_config wr)) < HEADER_SIZE + length p"
      by (simp add: remaining_def off)
    then have "wr' = wr\<lparr> active := fst (snd (segment_append L (active wr) p fs)) \<rparr>"
      using assms(6) by (auto simp: writer_append_def split: prod.splits)
    moreover have "seg_id (fst (snd (segment_append L (active wr) p fs))) = seg_id (active wr)"
      by (simp add: segment_append_def Let_def split: prod.splits)
    ultimately show ?thesis using True by simp
  next
    case False
    then have "seg_id (active wr) < seg_id (active wr')"
      using s writer_ok_distinct(2) [OF ok(1)] by simp
    with False show ?thesis by simp
  qed
  let ?S = "segment_size (w_config wr)"
  have g: "g = seg_id (active wr) * ?S + write_offset (active wr)"
    "g' = seg_id (active wr') * ?S + write_offset (active wr')"
    using assms(7,8) ok(2) by (auto simp: global_offset_def Let_def split: if_splits)
  show ?thesis
  proof (cases "length (frames L act) + (HEADER_SIZE + length p) \<le> ?S")
    case True
    with i s g off show ?thesis by (simp add: HEADER_SIZE_def)
  next
    case False
    then have "(seg_id (active wr) + 1) * ?S \<le> seg_id (active wr') * ?S"
      using i by (intro mult_le_mono1) simp
    with False s g off assms(5) show ?thesis by (simp add: HEADER_SIZE_def)
  qed
qed

theorem global_offset_increases_witness:
  "\<exists>fs' wr' r g'. writer_append sum_lib (writer_at wal_config_default 0) [1, 2] [(segment_path 0, [])] = Some (fs', wr', r) \<and>
     global_offset (writer_at wal_config_default 0) = Some 0 \<and> global_offset wr' = Some g' \<and> 0 < g'"
proof -
  let ?wr = "writer_at wal_config_default 0" and ?fs = "[(segment_path 0, [])]"
  have ok: "writer_ok sum_lib ?wr ?fs [] []"
    using single_segment_dir [of 0 "[]"]
    by (simp add: writer_ok_def writer_at_def holds_def active_holds_def hm_get_def)
  have p: "valid_payload [1, 2]" by (simp add: valid_payload_def MAX_RECORD_SIZE_def)
  have n: "next_segment_id ?wr + 1 < 2 ^ 64" by (simp add: writer_at_def)
  have c: "w_config ?wr = wal_config_default" "write_offset (active ?wr) = 0" by (simp_all add: writer_at_def)
  obtain fs' wr' sealed' act' off where a: "writer_append sum_lib ?wr [1, 2] ?fs = Some (fs', wr', Inr off)"
    and ok': "writer_ok sum_lib wr' fs' sealed' act'" "w_config wr' = w_config ?wr" "next_segment_id wr' \<le> next_segment_id ?wr + 1"
    and act: "if length (frames sum_lib []) + (HEADER_SIZE + length [1 :: u8, 2]) \<le> segment_size (w_config ?wr)
      then sealed' = [] \<and> act' = [] @ [[1, 2]] else sealed' = [] @ [(seg_id (active ?wr), [])] \<and> act' = [[1, 2]]"
    using writer_append_ok [OF ok p n] by blast
  have "write_offset (active wr') = 10" "seg_id (active wr') \<le> 1" "segment_size (w_config wr') = 64 * 1024 * 1024"
    using ok' act c by (auto simp: writer_ok_def active_holds_def HEADER_SIZE_def writer_at_def wal_config_default_def split: if_splits)
  then have g': "global_offset wr' = Some (seg_id (active wr') * (64 * 1024 * 1024) + 10)"
    by (simp add: global_offset_def)
  have g: "global_offset ?wr = Some 0" by (simp add: global_offset_def writer_at_def)
  have "HEADER_SIZE + length [1 :: u8, 2] \<le> segment_size (w_config ?wr)"
    "write_offset (active ?wr) \<le> segment_size (w_config ?wr)"
    unfolding c by (simp_all add: HEADER_SIZE_def wal_config_default_def)
  from global_offset_increases [OF ok p n this a g g'] a g g' show ?thesis by blast
qed

end
