(* ===== verification/WalReader.thy ===== *)
theory WalReader
  imports WalWriter
begin

text \<open>
  \<open>crates/pb-wal/src/reader.rs\<close>: the tailing reader, its strict variant for recovery, and the
  committed consumer position. One call of \<open>next\<close> sees one state of the directory. The reader's
  \<open>loop\<close> is a step function iterated until it returns; its termination proof is the argument
  that no corrupt segment can make the reader spin.
\<close>

section \<open>State\<close>

record wal_position =
  wp_segment_id :: nat
  wp_offset :: nat

record wal_reader =
  r_config :: wal_config
  consumer_name :: string
  current_segment_id :: nat
  current_offset :: nat
  current_data :: "bytes option"
  available_segments :: "nat list"

definition position_file :: "string \<Rightarrow> string" where
  "position_file consumer = ''consumer_'' @ consumer @ ''.pos''"

text \<open>The file holds \<open>segment:offset\<close>; anything else counts as no position.\<close>

definition parse_position :: "string \<Rightarrow> (nat \<times> nat) option" where
  "parse_position content =
     (case split_once (CHR '':'') (trim content) of
        None \<Rightarrow> None
      | Some (seg_str, off_str) \<Rightarrow>
          (case (parse_uint (2 ^ 64) seg_str, parse_uint (2 ^ 64) off_str) of
             (Some seg, Some off) \<Rightarrow> Some (seg, off)
           | _ \<Rightarrow> None))"

definition load_position :: "(string \<rightharpoonup> string) \<Rightarrow> string \<Rightarrow> (nat \<times> nat) option" where
  "load_position pos consumer =
     (case pos (position_file consumer) of None \<Rightarrow> None | Some content \<Rightarrow> parse_position content)"

text \<open>Write to a temporary file, then rename over the position file.\<close>

definition commit_position :: "wal_reader \<Rightarrow> (string \<rightharpoonup> string) \<Rightarrow> (string \<rightharpoonup> string)" where
  "commit_position r pos =
     (let path = position_file (consumer_name r);
          content = dec (current_segment_id r) @ CHR '':'' # dec (current_offset r);
          tmp = path @ ''.tmp'';
          pos1 = pos(tmp \<mapsto> content)
      in (pos1(path := pos1 tmp))(tmp := None))"

section \<open>Opening and moving between segments\<close>

definition load_segment :: "wal_files \<Rightarrow> nat \<Rightarrow> wal_reader \<Rightarrow> wal_reader \<times> bool" where
  "load_segment fs i r =
     (case hm_get fs (segment_path i) of
        None \<Rightarrow> (r\<lparr> current_data := None \<rparr>, False)
      | Some data \<Rightarrow> (r\<lparr> current_data := Some data, current_segment_id := i \<rparr>, True))"

definition reader_at :: "wal_config \<Rightarrow> string \<Rightarrow> wal_files \<Rightarrow> nat \<Rightarrow> nat \<Rightarrow> wal_reader" where
  "reader_at cfg consumer fs seg off =
     fst (load_segment fs seg \<lparr> r_config = cfg, consumer_name = consumer, current_segment_id = seg,
       current_offset = off, current_data = None, available_segments = list_segment_ids fs \<rparr>)"

definition first_segment :: "wal_files \<Rightarrow> nat" where
  "first_segment fs = (case list_segment_ids fs of [] \<Rightarrow> 0 | i # _ \<Rightarrow> i)"

definition reader_open :: "wal_config \<Rightarrow> string \<Rightarrow> wal_world \<Rightarrow> wal_reader" where
  "reader_open cfg consumer w =
     (case load_position (pos_files w) consumer of
        Some (seg, off) \<Rightarrow> reader_at cfg consumer (wal_files w) seg off
      | None \<Rightarrow> reader_at cfg consumer (wal_files w) (first_segment (wal_files w)) 0)"

definition open_from_start :: "wal_config \<Rightarrow> string \<Rightarrow> wal_world \<Rightarrow> wal_reader" where
  "open_from_start cfg consumer w = reader_at cfg consumer (wal_files w) (first_segment (wal_files w)) 0"

definition open_at :: "wal_config \<Rightarrow> string \<Rightarrow> wal_position \<Rightarrow> wal_world \<Rightarrow> wal_reader" where
  "open_at cfg consumer p w = reader_at cfg consumer (wal_files w) (wp_segment_id p) (wp_offset p)"

text \<open>Picking up what was appended to the current segment; a shrunken file is reloaded.\<close>

definition top_up :: "wal_files \<Rightarrow> wal_reader \<Rightarrow> wal_reader \<times> bool" where
  "top_up fs r =
     (case hm_get fs (segment_path (current_segment_id r)) of
        None \<Rightarrow> (r, False)
      | Some file \<Rightarrow>
          let file_len = length file;
              prev_len = (case current_data r of None \<Rightarrow> 0 | Some d \<Rightarrow> length d)
          in if file_len < prev_len then
               let (r1, reloaded) = load_segment fs (current_segment_id r) r
               in (if file_len < current_offset r1 then r1\<lparr> current_offset := file_len \<rparr> else r1, reloaded)
             else if file_len = prev_len then (r, False)
             else
               let suffix = drop prev_len file
               in (r\<lparr> current_data := Some (case current_data r of None \<Rightarrow> suffix | Some d \<Rightarrow> d @ suffix) \<rparr>, True))"

definition next_available :: "wal_reader \<Rightarrow> nat option" where
  "next_available r = find (\<lambda>i. current_segment_id r < i) (available_segments r)"

definition advance_segment :: "wal_files \<Rightarrow> wal_reader \<Rightarrow> wal_reader \<times> bool" where
  "advance_segment fs r0 =
     (let r = r0\<lparr> available_segments := list_segment_ids fs \<rparr>
      in case next_available r of
           Some i \<Rightarrow> load_segment fs i (r\<lparr> current_offset := 0 \<rparr>)
         | None \<Rightarrow> top_up fs r)"

definition advance_segment_strict :: "wal_files \<Rightarrow> wal_reader \<Rightarrow> wal_reader \<times> (wal_error + bool)" where
  "advance_segment_strict fs r0 =
     (let r = r0\<lparr> available_segments := list_segment_ids fs \<rparr>
      in case next_available r of
           Some i \<Rightarrow>
             if i \<noteq> current_segment_id r + 1
             then (r, Inl (SegmentGap (consumer_name r) (current_segment_id r) i))
             else map_prod id Inr (load_segment fs i (r\<lparr> current_offset := 0 \<rparr>))
         | None \<Rightarrow> map_prod id Inr (top_up fs r))"

definition reload_when_unloaded :: "wal_files \<Rightarrow> wal_reader \<Rightarrow> wal_reader \<times> bool" where
  "reload_when_unloaded fs r0 =
     (let r = r0\<lparr> available_segments := list_segment_ids fs \<rparr>
      in if hm_get fs (segment_path (current_segment_id r)) \<noteq> None
         then load_segment fs (current_segment_id r) r
         else
           (case available_segments r of
              [] \<Rightarrow> (r, False)
            | earliest # _ \<Rightarrow>
                if current_segment_id r < earliest
                then load_segment fs earliest (r\<lparr> current_segment_id := earliest, current_offset := 0 \<rparr>)
                else (r, False)))"

definition current_position :: "wal_reader \<Rightarrow> wal_position" where
  "current_position r = \<lparr> wp_segment_id = current_segment_id r, wp_offset = current_offset r \<rparr>"

definition needs_resync :: "wal_reader \<Rightarrow> bool" where
  "needs_resync r = (case available_segments r of [] \<Rightarrow> False | earliest # _ \<Rightarrow> current_segment_id r < earliest)"

text \<open>The byte lag over the cached listing; a listed file that is gone gives no answer.\<close>

fun lag_from :: "wal_files \<Rightarrow> nat \<Rightarrow> nat \<Rightarrow> nat \<Rightarrow> nat list \<Rightarrow> nat option" where
  "lag_from fs cur off lag [] = Some lag"
| "lag_from fs cur off lag (i # is) =
     (if i < cur then lag_from fs cur off lag is
      else (case hm_get fs (segment_path i) of
              None \<Rightarrow> None
            | Some c \<Rightarrow> lag_from fs cur off (lag + (if i = cur then length c - off else length c)) is))"

definition lag_bytes :: "wal_files \<Rightarrow> wal_reader \<Rightarrow> nat option" where
  "lag_bytes fs r =
     (if available_segments r = [] then Some 0
      else lag_from fs (current_segment_id r) (current_offset r) 0 (available_segments r))"

definition refresh_segments :: "wal_files \<Rightarrow> wal_reader \<Rightarrow> wal_reader" where
  "refresh_segments fs r = r\<lparr> available_segments := list_segment_ids fs \<rparr>"

section \<open>The loops\<close>

type_synonym read_result = "wal_error + bytes option"

text \<open>One round of \<open>next\<close>: continue with a new state, or return.\<close>

definition next_round :: "crc_lib \<Rightarrow> wal_files \<Rightarrow> wal_reader \<Rightarrow> wal_reader + wal_reader \<times> read_result" where
  "next_round L fs r =
     (let go = (\<lambda>(r', ok). if ok then Inl r' else Inr (r', Inr None))
      in case current_data r of
           None \<Rightarrow> go (reload_when_unloaded fs r)
         | Some data \<Rightarrow>
             (case read_record_at L data (current_offset r) (current_segment_id r) of
                Inr (Some (payload, nxt)) \<Rightarrow> Inr (r\<lparr> current_offset := nxt \<rparr>, Inr (Some payload))
              | Inr None \<Rightarrow> go (advance_segment fs r)
              | Inl (CrcMismatch _ _ _ _) \<Rightarrow>
                  let n = unat (u32_from_le_bytes (slice data (current_offset r) (current_offset r + 4)))
                  in Inl (r\<lparr> current_offset := current_offset r + (HEADER_SIZE + n) \<rparr>)
              | Inl (TruncatedRecord _ _) \<Rightarrow> go (advance_segment fs r)
              | Inl e \<Rightarrow> Inr (r, Inl e)))"

definition strict_round :: "crc_lib \<Rightarrow> wal_files \<Rightarrow> wal_reader \<Rightarrow> wal_reader + wal_reader \<times> read_result" where
  "strict_round L fs r =
     (case current_data r of
        None \<Rightarrow>
          (case reload_when_unloaded fs r of (r', ok) \<Rightarrow> if ok then Inl r' else Inr (r', Inr None))
      | Some data \<Rightarrow>
          let trunc = Inr (r, Inl (TruncatedRecord (current_segment_id r) (current_offset r)))
          in if current_offset r < length data \<and> length data - current_offset r < HEADER_SIZE then trunc
             else if current_offset r < length data \<and>
               u32_from_le_bytes (slice data (current_offset r) (current_offset r + 4)) = 0 then trunc
             else
               (case read_record_at L data (current_offset r) (current_segment_id r) of
                  Inr (Some (payload, nxt)) \<Rightarrow> Inr (r\<lparr> current_offset := nxt \<rparr>, Inr (Some payload))
                | Inr None \<Rightarrow>
                    (case advance_segment_strict fs r of
                       (r', Inl e) \<Rightarrow> Inr (r', Inl e)
                     | (r', Inr True) \<Rightarrow> Inl r'
                     | (r', Inr False) \<Rightarrow> Inr (r', Inr None))
                | Inl e \<Rightarrow> Inr (r, Inl e)))"

section \<open>Termination\<close>

text \<open>
  Every round that continues either moves to a later segment, or brings the cached data in line
  with the file, or moves forward in the cached data.
\<close>

definition later_segments :: "wal_files \<Rightarrow> wal_reader \<Rightarrow> nat" where
  "later_segments fs r = length (filter (\<lambda>i. current_segment_id r < i) (list_segment_ids fs))"

definition cache_state :: "wal_files \<Rightarrow> wal_reader \<Rightarrow> nat" where
  "cache_state fs r =
     (case current_data r of
        None \<Rightarrow> 2
      | Some d \<Rightarrow> (case hm_get fs (segment_path (current_segment_id r)) of
          Some f \<Rightarrow> if length d = length f then 0 else 1 | None \<Rightarrow> 1))"

definition unread :: "wal_reader \<Rightarrow> nat" where
  "unread r = (case current_data r of None \<Rightarrow> 0 | Some d \<Rightarrow> length d - current_offset r)"

definition progress :: "wal_files \<Rightarrow> (wal_reader \<times> wal_reader) set" where
  "progress fs = measures [later_segments fs, cache_state fs, unread]"

lemma wf_progress: "wf (progress fs)"
  by (simp add: progress_def)

lemma later_less:
  assumes "current_segment_id r < current_segment_id r'" "current_segment_id r' \<in> set (list_segment_ids fs)"
  shows "later_segments fs r' < later_segments fs r"
proof -
  have "length (filter (\<lambda>i. current_segment_id r' < i) xs) < length (filter (\<lambda>i. current_segment_id r < i) xs)"
    if mem: "current_segment_id r' \<in> set xs" for xs
  proof -
    have le: "length (filter (\<lambda>i. current_segment_id r' < i) ys) \<le> length (filter (\<lambda>i. current_segment_id r < i) ys)" for ys
      by (induction ys) (use assms(1) in auto)
    obtain xa xb where "xs = xa @ current_segment_id r' # xb" using split_list [OF mem] by blast
    with le [of xa] le [of xb] assms(1) show ?thesis by simp
  qed
  with assms(2) show ?thesis by (simp add: later_segments_def)
qed

lemma load_segment_ok:
  "load_segment fs i r = (r', True) \<Longrightarrow>
     \<exists>d. hm_get fs (segment_path i) = Some d \<and> r' = r\<lparr> current_data := Some d, current_segment_id := i \<rparr>"
  by (auto simp: load_segment_def split: option.splits)

lemma next_available_Some:
  "next_available r = Some i \<Longrightarrow> current_segment_id r < i \<and> i \<in> set (available_segments r)"
  by (auto simp: next_available_def find_Some_iff)

lemma top_up_progress:
  assumes "top_up fs r = (r', True)" "current_data r = Some d"
  shows "current_segment_id r' = current_segment_id r \<and> cache_state fs r = 1 \<and> cache_state fs r' = 0"
proof -
  obtain f where f: "hm_get fs (segment_path (current_segment_id r)) = Some f"
    using assms(1) by (auto simp: top_up_def split: option.splits)
  with assms show ?thesis
    by (auto simp: top_up_def load_segment_def cache_state_def Let_def split: if_splits)
qed

lemma cache_state_available [simp]: "cache_state fs (r\<lparr> available_segments := a \<rparr>) = cache_state fs r"
  by (simp add: cache_state_def split: option.splits)

lemma advance_progress:
  assumes "advance_segment fs r = (r', True)" "current_data r = Some d"
  shows "(r', r) \<in> progress fs"
proof -
  let ?r = "r\<lparr> available_segments := list_segment_ids fs \<rparr>"
  show ?thesis
  proof (cases "next_available ?r")
    case None
    with assms have "top_up fs ?r = (r', True)" by (simp add: advance_segment_def)
    from top_up_progress [OF this] assms(2) show ?thesis
      by (simp add: progress_def later_segments_def)
  next
    case (Some i)
    with assms load_segment_ok [of fs i "?r\<lparr> current_offset := 0 \<rparr>" r']
    have "current_segment_id r' = i" by (auto simp: advance_segment_def)
    with next_available_Some [OF Some] later_less [of r r' fs] show ?thesis
      by (simp add: progress_def)
  qed
qed

lemma reload_progress:
  assumes "reload_when_unloaded fs r = (r', True)" "current_data r = None"
  shows "(r', r) \<in> progress fs"
proof (cases "hm_get fs (segment_path (current_segment_id r))")
  case (Some f)
  with assms show ?thesis
    by (auto simp: reload_when_unloaded_def load_segment_def Let_def progress_def later_segments_def cache_state_def)
next
  case None
  with assms obtain e es where e: "list_segment_ids fs = e # es" "current_segment_id r < e"
    "load_segment fs e (r\<lparr> available_segments := e # es, current_segment_id := e, current_offset := 0 \<rparr>) = (r', True)"
    by (auto simp: reload_when_unloaded_def Let_def split: list.splits if_splits)
  from load_segment_ok [OF e(3)] have "current_segment_id r' = e" by auto
  with e later_less [of r r' fs] show ?thesis by (simp add: progress_def)
qed

lemma read_crc_nonempty:
  "read_record_at L data off seg = Inl (CrcMismatch a b c e) \<Longrightarrow> off < length data"
  by (auto simp: read_record_at_def Let_def split: if_splits)

lemma next_round_progress:
  assumes "next_round L fs r = Inl r'"
  shows "(r', r) \<in> progress fs"
proof (cases "current_data r")
  case None
  with assms show ?thesis
    by (auto simp: next_round_def split: if_splits prod.splits intro: reload_progress)
next
  case (Some data)
  note d = this
  show ?thesis
  proof (cases "read_record_at L data (current_offset r) (current_segment_id r)")
    case (Inr x)
    with d assms show ?thesis
      by (auto simp: next_round_def split: if_splits prod.splits option.splits intro: advance_progress)
  next
    case (Inl e)
    show ?thesis
    proof (cases e)
      case (CrcMismatch a b c k)
      with Inl have "current_offset r < length data" using read_crc_nonempty by metis
      with d assms Inl CrcMismatch show ?thesis
        by (auto simp: next_round_def Let_def progress_def later_segments_def cache_state_def unread_def HEADER_SIZE_def)
    qed (use d assms Inl in \<open>auto simp: next_round_def split: if_splits prod.splits intro: advance_progress\<close>)
  qed
qed

lemma advance_strict_progress:
  assumes "advance_segment_strict fs r = (r', Inr True)" "current_data r = Some d"
  shows "(r', r) \<in> progress fs"
proof -
  have "advance_segment fs r = (r', True)"
    using assms(1) by (auto simp: advance_segment_strict_def advance_segment_def Let_def map_prod_def
        split: option.splits if_splits prod.splits)
  then show ?thesis by (rule advance_progress [OF _ assms(2)])
qed

lemma strict_round_progress:
  assumes "strict_round L fs r = Inl r'"
  shows "(r', r) \<in> progress fs"
proof (cases "current_data r")
  case None
  with assms show ?thesis
    by (auto simp: strict_round_def split: if_splits prod.splits intro: reload_progress)
next
  case (Some data)
  with assms show ?thesis
    by (auto simp: strict_round_def Let_def split: if_splits prod.splits option.splits sum.splits bool.splits
        intro: advance_strict_progress)
qed

function reader_next :: "crc_lib \<Rightarrow> wal_files \<Rightarrow> wal_reader \<Rightarrow> wal_reader \<times> read_result" where
  "reader_next L fs r = (case next_round L fs r of Inl r' \<Rightarrow> reader_next L fs r' | Inr out \<Rightarrow> out)"
  by auto
termination
  by (relation "measures [\<lambda>(L, fs, r). later_segments fs r, \<lambda>(L, fs, r). cache_state fs r, \<lambda>(L, fs, r). unread r]")
    (auto dest!: next_round_progress simp: progress_def)

function reader_next_strict :: "crc_lib \<Rightarrow> wal_files \<Rightarrow> wal_reader \<Rightarrow> wal_reader \<times> read_result" where
  "reader_next_strict L fs r =
     (case strict_round L fs r of Inl r' \<Rightarrow> reader_next_strict L fs r' | Inr out \<Rightarrow> out)"
  by auto
termination
  by (relation "measures [\<lambda>(L, fs, r). later_segments fs r, \<lambda>(L, fs, r). cache_state fs r, \<lambda>(L, fs, r). unread r]")
    (auto dest!: strict_round_progress simp: progress_def)

declare reader_next.simps [simp del] reader_next_strict.simps [simp del]

lemma reader_next_step: "next_round L fs r = Inl r' \<Longrightarrow> reader_next L fs r = reader_next L fs r'"
  by (subst reader_next.simps) simp

lemma reader_next_done: "next_round L fs r = Inr out \<Longrightarrow> reader_next L fs r = out"
  by (subst reader_next.simps) simp

lemma strict_next_step: "strict_round L fs r = Inl r' \<Longrightarrow> reader_next_strict L fs r = reader_next_strict L fs r'"
  by (subst reader_next_strict.simps) simp

lemma strict_next_done: "strict_round L fs r = Inr out \<Longrightarrow> reader_next_strict L fs r = out"
  by (subst reader_next_strict.simps) simp

section \<open>Reading a directory of complete segments\<close>

text \<open>The records of a segment with the position a reader has behind each.\<close>

fun seg_entries :: "crc_lib \<Rightarrow> nat \<Rightarrow> bytes list \<Rightarrow> bytes list \<Rightarrow> ((nat \<times> nat) \<times> bytes) list" where
  "seg_entries L i rd [] = []"
| "seg_entries L i rd (p # ps) = ((i, length (frames L (rd @ [p]))), p) # seg_entries L i (rd @ [p]) ps"

definition log_entries :: "crc_lib \<Rightarrow> (nat \<times> bytes list) list \<Rightarrow> ((nat \<times> nat) \<times> bytes) list" where
  "log_entries L segs = concat (map (\<lambda>(i, ps). seg_entries L i [] ps) segs)"

definition log_end :: "crc_lib \<Rightarrow> (nat \<times> bytes list) list \<Rightarrow> nat \<times> nat" where
  "log_end L segs = (fst (last segs), length (frames L (snd (last segs))))"

lemma seg_entries_payloads [simp]: "map snd (seg_entries L i rd ps) = ps"
  by (induction ps arbitrary: rd) simp_all

lemma log_entries_simps [simp]:
  "log_entries L [] = []"
  "log_entries L ((i, ps) # segs) = seg_entries L i [] ps @ log_entries L segs"
  by (simp_all add: log_entries_def)

lemma log_entries_payloads [simp]: "map snd (log_entries L segs) = concat (map snd segs)"
  by (induction segs) auto

text \<open>The reader stands before the entries \<open>es\<close>; the cache of the last segment may be stale.\<close>

definition reads_at :: "crc_lib \<Rightarrow> (nat \<times> bytes list) list \<Rightarrow> wal_reader \<Rightarrow> ((nat \<times> nat) \<times> bytes) list \<Rightarrow> bool" where
  "reads_at L segs r es \<longleftrightarrow>
     (\<exists>pre i rd todo post n. segs = pre @ (i, rd @ todo) # post \<and>
        current_segment_id r = i \<and> current_offset r = length (frames L rd) \<and>
        current_data r = Some (take n (frames L (rd @ todo))) \<and>
        length (frames L rd) \<le> n \<and> (post \<noteq> [] \<longrightarrow> length (frames L (rd @ todo)) \<le> n) \<and>
        es = seg_entries L i rd todo @ log_entries L post)"

lemma next_available_split:
  assumes "sorted_wrt (<) (pre @ i # post)"
  shows "next_available (r\<lparr> current_segment_id := i, available_segments := pre @ i # post \<rparr>) =
    (case post of [] \<Rightarrow> None | j # _ \<Rightarrow> Some j)"
proof -
  have "find (\<lambda>j. i < j) (pre @ i # post) = find (\<lambda>j. i < j) post"
    using assms by (induction pre) auto
  moreover have "find (\<lambda>j. i < j) post = (case post of [] \<Rightarrow> None | j # _ \<Rightarrow> Some j)"
    using assms by (cases post) (auto simp: sorted_wrt_append)
  ultimately show ?thesis by (simp add: next_available_def)
qed

lemma advance_to_next:
  assumes "sorted_wrt (<) (pre @ i # j # post)" "list_segment_ids fs = pre @ i # j # post"
    and "current_segment_id r = i" "hm_get fs (segment_path j) = Some data"
  shows "advance_segment fs r = (r\<lparr> current_segment_id := j, current_offset := 0, current_data := Some data,
    available_segments := list_segment_ids fs \<rparr>, True)"
proof -
  have "r\<lparr> available_segments := pre @ i # j # post \<rparr> =
      r\<lparr> current_segment_id := i, available_segments := pre @ i # j # post \<rparr>"
    using assms(3) by simp
  then have "next_available (r\<lparr> available_segments := pre @ i # j # post \<rparr>) = Some j"
    using next_available_split [OF assms(1), of r] by simp
  with assms show ?thesis by (simp add: advance_segment_def load_segment_def)
qed

lemma advance_at_last:
  assumes "sorted_wrt (<) (pre @ [i])" "list_segment_ids fs = pre @ [i]" "current_segment_id r = i"
  shows "advance_segment fs r = top_up fs (r\<lparr> available_segments := list_segment_ids fs \<rparr>)"
proof -
  have "r\<lparr> available_segments := pre @ [i] \<rparr> = r\<lparr> current_segment_id := i, available_segments := pre @ [i] \<rparr>"
    using assms(3) by simp
  then have "next_available (r\<lparr> available_segments := pre @ [i] \<rparr>) = None"
    using next_available_split [OF assms(1), of r] by simp
  with assms show ?thesis by (simp add: advance_segment_def)
qed

lemma read_end: "read_record_at L data (length data) seg = Inr None"
  by (simp add: read_record_at_def)

lemma next_round_end:
  assumes "current_data r = Some data"
    and "read_record_at L data (current_offset r) (current_segment_id r) = Inr None \<or>
      read_record_at L data (current_offset r) (current_segment_id r) = Inl (TruncatedRecord a b)"
  shows "next_round L fs r = (case advance_segment fs r of (r', ok) \<Rightarrow> if ok then Inl r' else Inr (r', Inr None))"
  using assms by (auto simp: next_round_def)

lemma holds_mem: "holds L fs segs \<Longrightarrow> (i, ps) \<in> set segs \<Longrightarrow>
    hm_get fs (segment_path i) = Some (frames L ps) \<and> list_all valid_payload ps"
  by (auto simp: holds_def list_all_iff)

lemma next_reads_round:
  assumes d: "dir_ok fs" and h: "holds L fs segs" and ids: "list_segment_ids fs = map fst segs"
    and at: "reads_at L segs r es"
  shows "(\<exists>r'. next_round L fs r = Inl r' \<and> reads_at L segs r' es) \<or>
    (\<exists>r'. next_round L fs r = Inr (r', Inr (case es of [] \<Rightarrow> None | e # _ \<Rightarrow> Some (snd e))) \<and>
      reads_at L segs r' (tl es) \<and> (current_segment_id r', current_offset r') = (case es of [] \<Rightarrow> log_end L segs | e # _ \<Rightarrow> fst e))"
proof -
  from at obtain pre i rd todo post n where segs: "segs = pre @ (i, rd @ todo) # post"
    and r: "current_segment_id r = i" "current_offset r = length (frames L rd)"
      "current_data r = Some (take n (frames L (rd @ todo)))"
    and n: "length (frames L rd) \<le> n" "post \<noteq> [] \<longrightarrow> length (frames L (rd @ todo)) \<le> n"
    and es: "es = seg_entries L i rd todo @ log_entries L post"
    unfolding reads_at_def by blast
  have file_i: "hm_get fs (segment_path i) = Some (frames L (rd @ todo))" and v: "list_all valid_payload (rd @ todo)"
    using holds_mem [OF h, of i "rd @ todo"] segs by simp_all
  have srt: "sorted_wrt (<) (map fst pre @ i # map fst post)"
    using list_segment_ids_sorted [OF d] ids segs by simp
  have ids': "list_segment_ids fs = map fst pre @ i # map fst post" using ids segs by simp
  show ?thesis
  proof (cases todo)
    case Nil
    have data: "current_data r = Some (frames L rd)" using r(3) n(1) Nil by simp
    have rnd: "next_round L fs r = (case advance_segment fs r of (r', ok) \<Rightarrow> if ok then Inl r' else Inr (r', Inr None))"
      by (rule next_round_end [OF data]) (simp add: r read_end)
    show ?thesis
    proof (cases post)
      case Nil': Nil
      let ?r = "r\<lparr> available_segments := list_segment_ids fs \<rparr>"
      have "top_up fs ?r = (?r, False)"
        using file_i data Nil r(1) by (simp add: top_up_def)
      then have "next_round L fs r = Inr (?r, Inr None)"
        using rnd advance_at_last [of "map fst pre" i fs r] srt ids' Nil' r(1) by simp
      moreover have "reads_at L segs ?r []"
        unfolding reads_at_def
        by (rule exI [of _ pre], rule exI [of _ i], rule exI [of _ rd], rule exI [of _ "[]"], rule exI [of _ "[]"], rule exI [of _ n])
          (use segs r n Nil Nil' in simp)
      moreover have "(current_segment_id ?r, current_offset ?r) = log_end L segs"
        using segs r(1,2) Nil Nil' by (simp add: log_end_def)
      ultimately show ?thesis using es Nil Nil' by auto
    next
      case (Cons e post')
      obtain j qs where e: "e = (j, qs)" by (cases e)
      let ?r = "r\<lparr> current_segment_id := j, current_offset := 0, current_data := Some (frames L qs),
        available_segments := list_segment_ids fs \<rparr>"
      have "hm_get fs (segment_path j) = Some (frames L qs)"
        using holds_mem [OF h, of j qs] segs Cons e by simp
      then have "next_round L fs r = Inl ?r"
        using rnd advance_to_next [of "map fst pre" i j "map fst post'" fs r] srt ids' r(1) Cons e by simp
      moreover have "reads_at L segs ?r es"
        unfolding reads_at_def
        by (rule exI [of _ "pre @ [(i, rd)]"], rule exI [of _ j], rule exI [of _ "[]"], rule exI [of _ qs],
            rule exI [of _ post'], rule exI [of _ "length (frames L qs)"])
          (use segs Cons e Nil es in simp)
      ultimately show ?thesis by blast
    qed
  next
    case (Cons p todo')
    show ?thesis
    proof (cases "length (frames L (rd @ [p])) \<le> n")
      case True
      have p: "valid_payload p" using v Cons by simp
      have "take n (frames L (rd @ todo)) = frames L rd @ frame L p @ take (n - length (frames L (rd @ [p]))) (frames L todo')"
        using True n(1) Cons by simp
      then have "read_record_at L (take n (frames L (rd @ todo))) (current_offset r) (current_segment_id r) =
          Inr (Some (p, length (frames L (rd @ [p]))))"
        using read_frame [OF p] r(2) by simp
      then have "next_round L fs r = Inr (r\<lparr> current_offset := length (frames L (rd @ [p])) \<rparr>, Inr (Some p))"
        using r(3) by (simp add: next_round_def)
      moreover have "reads_at L segs (r\<lparr> current_offset := length (frames L (rd @ [p])) \<rparr>) (tl es)"
        unfolding reads_at_def
        by (rule exI [of _ pre], rule exI [of _ i], rule exI [of _ "rd @ [p]"], rule exI [of _ todo'],
            rule exI [of _ post], rule exI [of _ n])
          (use segs r n True Cons es in simp)
      ultimately show ?thesis using es Cons r(1) by auto
    next
      case False
      then have post: "post = []" using n(2) Cons by auto
      have m: "n - length (frames L rd) < length (frame L p)" using False n(1) by simp
      have data: "take n (frames L (rd @ todo)) = frames L rd @ take (n - length (frames L rd)) (frame L p)"
        using False n(1) Cons by simp
      have p: "valid_payload p" using v Cons by simp
      have rnd: "next_round L fs r = (case advance_segment fs r of (r', ok) \<Rightarrow> if ok then Inl r' else Inr (r', Inr None))"
        by (rule next_round_end [OF r(3)])
          (use torn_read [OF p m, of "frames L rd" i] data r(1,2) in auto)
      let ?F = "frames L (rd @ todo)"
      let ?r = "r\<lparr> available_segments := list_segment_ids fs \<rparr>"
      let ?r' = "?r\<lparr> current_data := Some ?F \<rparr>"
      have lt: "n < length ?F" using False Cons by simp
      then have "top_up fs ?r = (?r', True)"
        using file_i r(1,3) by (simp add: top_up_def Let_def del: frames_simps)
      then have "next_round L fs r = Inl ?r'"
        using rnd advance_at_last [of "map fst pre" i fs r] srt ids' post r(1) by simp
      moreover have "reads_at L segs ?r' es"
        unfolding reads_at_def
        by (rule exI [of _ pre], rule exI [of _ i], rule exI [of _ rd], rule exI [of _ todo],
            rule exI [of _ post], rule exI [of _ "length ?F"])
          (use segs r n es in simp)
      ultimately show ?thesis by blast
    qed
  qed
qed

lemma next_reads:
  assumes "dir_ok fs" "holds L fs segs" "list_segment_ids fs = map fst segs" "reads_at L segs r es"
  shows "\<exists>r'. reader_next L fs r = (r', Inr (case es of [] \<Rightarrow> None | e # _ \<Rightarrow> Some (snd e))) \<and>
    reads_at L segs r' (tl es) \<and> (current_segment_id r', current_offset r') = (case es of [] \<Rightarrow> log_end L segs | e # _ \<Rightarrow> fst e)"
  using assms(4)
proof (induction r rule: wf_induct_rule [OF wf_progress [of fs]])
  case (1 r)
  from next_reads_round [OF assms(1-3) 1(2)] show ?case
  proof (elim disjE exE)
    fix r' assume "next_round L fs r = Inl r' \<and> reads_at L segs r' es"
    then have r': "next_round L fs r = Inl r'" "reads_at L segs r' es" by simp_all
    from 1(1) [OF next_round_progress [OF r'(1)] r'(2)] show ?thesis by (simp add: reader_next_step [OF r'(1)])
  next
    fix r' assume "next_round L fs r = Inr (r', Inr (case es of [] \<Rightarrow> None | e # _ \<Rightarrow> Some (snd e))) \<and>
      reads_at L segs r' (tl es) \<and> (current_segment_id r', current_offset r') = (case es of [] \<Rightarrow> log_end L segs | e # _ \<Rightarrow> fst e)"
    then show ?thesis by (auto dest: reader_next_done)
  qed
qed

definition read_step :: "crc_lib \<Rightarrow> wal_files \<Rightarrow> wal_reader \<Rightarrow> unit \<Rightarrow> (wal_reader \<times> read_result) option" where
  "read_step L fs r u = Some (reader_next L fs r)"

lemma reads_run:
  assumes "dir_ok fs" "holds L fs segs" "list_segment_ids fs = map fst segs" "reads_at L segs r es"
  shows "\<exists>r'. run (read_step L fs) r (replicate (length es + k) ()) =
    Some (r', map (\<lambda>e. Inr (Some (snd e))) es @ replicate k (Inr None)) \<and> reads_at L segs r' []"
  using assms(4)
proof (induction es arbitrary: r)
  case Nil
  then show ?case
  proof (induction k arbitrary: r)
    case (Suc k)
    obtain r1 where "reader_next L fs r = (r1, Inr None)" "reads_at L segs r1 []"
      using next_reads [OF assms(1-3) Suc.prems] by auto
    with Suc.IH [of r1] show ?case by (auto simp: read_step_def)
  qed simp
next
  case (Cons e es)
  obtain r1 where "reader_next L fs r = (r1, Inr (Some (snd e)))" "reads_at L segs r1 es"
    using next_reads [OF assms(1-3) Cons.prems] by auto
  with Cons.IH [of r1] show ?case by (auto simp: read_step_def)
qed

lemma open_reads:
  assumes "dir_ok fs" "holds L fs segs" "list_segment_ids fs = map fst segs" "segs \<noteq> []"
  shows "reads_at L segs (reader_at cfg c fs (first_segment fs) 0) (log_entries L segs)"
proof -
  obtain i qs post where segs: "segs = (i, qs) # post" using assms(4) by (cases segs) auto
  have "hm_get fs (segment_path i) = Some (frames L qs)" using holds_mem [OF assms(2), of i qs] segs by simp
  moreover have "first_segment fs = i" using assms(3) segs by (simp add: first_segment_def)
  ultimately show ?thesis
    unfolding reads_at_def
    by - (rule exI [of _ "[]"], rule exI [of _ i], rule exI [of _ "[]"], rule exI [of _ qs],
        rule exI [of _ post], rule exI [of _ "length (frames L qs)"], simp add: segs reader_at_def load_segment_def)
qed

lemma writer_flush_log:
  assumes "writer_ok L wr fs sealed act" "writer_flush wr fs = (fs', wr')"
  shows "dir_ok fs' \<and> holds L fs' (sealed @ [(seg_id (active wr'), act)]) \<and>
    list_segment_ids fs' = map fst (sealed @ [(seg_id (active wr'), act)])"
  using writer_flush_ok [OF assms] by (simp add: writer_ok_def)

text \<open>
  C2. Write, rotate, flush, read. Starting from any log state, records are appended (rotating
  whenever a segment is full) and flushed; a reader opened from the start then returns every
  record of the log in order, each exactly once, and after that reports the end as often as it
  is asked.
\<close>

theorem written_is_read:
  assumes "writer_ok L wr fs sealed act" "list_all valid_payload ps"
    and "next_segment_id wr + length ps < 2 ^ 64"
    and "seg_bounded L (segment_size (w_config wr)) (sealed @ [(seg_id (active wr), act)])"
    and "wal_log sealed act = log"
  shows "\<exists>fs1 wr1 outs fs2 wr2 r. run (append_step L) (fs, wr) ps = Some ((fs1, wr1), outs) \<and>
    writer_flush wr1 fs1 = (fs2, wr2) \<and>
    run (read_step L fs2) (reader_at cfg c fs2 (first_segment fs2) 0) (replicate (length (log @ ps) + k) ()) =
      Some (r, map (\<lambda>p. Inr (Some p)) (log @ ps) @ replicate k (Inr None))"
proof -
  obtain fs1 wr1 outs sealed' act' where a: "run (append_step L) (fs, wr) ps = Some ((fs1, wr1), outs)"
    and ok: "writer_ok L wr1 fs1 sealed' act'" and log: "wal_log sealed' act' = log @ ps"
    using append_run [OF assms(1-4)] assms(5) by auto
  obtain fs2 wr2 where f: "writer_flush wr1 fs1 = (fs2, wr2)" by (cases "writer_flush wr1 fs1")
  let ?segs = "sealed' @ [(seg_id (active wr2), act')]"
  note fl = writer_flush_log [OF ok f]
  have at: "reads_at L ?segs (reader_at cfg c fs2 (first_segment fs2) 0) (log_entries L ?segs)"
    using open_reads [of fs2 L ?segs cfg c] fl by simp
  have entries: "map snd (log_entries L ?segs) = log @ ps" using log by (simp add: wal_log_def)
  then have "length (log_entries L ?segs) = length (log @ ps)" by (metis length_map)
  moreover have "map (\<lambda>e. Inr (Some (snd e)) :: read_result) (log_entries L ?segs) = map (\<lambda>p. Inr (Some p)) (log @ ps)"
    using arg_cong [OF entries, of "map (\<lambda>p. Inr (Some p) :: read_result)"] by (simp add: comp_def del: log_entries_payloads)
  ultimately show ?thesis using reads_run [OF _ _ _ at, of fs2 k] fl a f by (metis (no_types, lifting))
qed

theorem written_is_read_witness:
  "\<exists>w wr fs1 wr1 outs fs2 wr2 r. writer_open sum_lib (wal_config_default\<lparr> segment_size := 20 \<rparr>) empty_world = Some (w, Inr wr) \<and>
     run (append_step sum_lib) (wal_files w, wr) [[1], [2, 3], [4]] = Some ((fs1, wr1), outs) \<and>
     writer_flush wr1 fs1 = (fs2, wr2) \<and>
     run (read_step sum_lib fs2) (reader_at wal_config_default ''c'' fs2 (first_segment fs2) 0) (replicate 4 ()) =
       Some (r, [Inr (Some [1]), Inr (Some [2, 3]), Inr (Some [4]), Inr None])"
proof -
  let ?cfg = "wal_config_default\<lparr> segment_size := 20 \<rparr>" and ?ps = "[[1], [2, 3], [4]] :: bytes list"
  obtain w wr where o: "writer_open sum_lib ?cfg empty_world = Some (w, Inr wr)"
    "writer_ok sum_lib wr (wal_files w) [] []" "w_config wr = ?cfg" "next_segment_id wr = 1"
    using open_empty [of sum_lib ?cfg] by blast
  have v: "list_all valid_payload ?ps" by (simp add: valid_payload_def MAX_RECORD_SIZE_def)
  have n: "next_segment_id wr + length ?ps < 2 ^ 64" using o by simp
  have b: "seg_bounded sum_lib (segment_size (w_config wr)) ([] @ [(seg_id (active wr), [])])"
    by (simp add: seg_bounded_def)
  have l: "wal_log [] [] = []" by (simp add: wal_log_def)
  have e: "length ([] @ ?ps) + 1 = 4"
    "map (\<lambda>p. Inr (Some p) :: read_result) ([] @ ?ps) @ replicate 1 (Inr None) =
      [Inr (Some [1]), Inr (Some [2, 3]), Inr (Some [4]), Inr None]"
    by simp_all
  show ?thesis
    using written_is_read [OF o(2) v n b l, of wal_config_default "''c''" 1] o(1) unfolding e by blast
qed

text \<open>
  C21. A tailing reader that has consumed all it has cached of a segment moves to the next
  segment as soon as that one exists, without looking at its current file again: the next
  record returned is the first of the new segment, whatever the current segment's file holds by
  then. Records appended to a segment between the reader's last look and the rotation are never
  delivered.
\<close>

theorem tail_skipped_on_rotation:
  assumes "dir_ok fs" "list_segment_ids fs = pre @ i # j # post"
    and "current_segment_id r = i" "current_data r = Some cached" "current_offset r = length cached"
    and "hm_get fs (segment_path j) = Some (frame L q @ rest)" "valid_payload q"
  shows "\<exists>r'. reader_next L fs r = (r', Inr (Some q)) \<and> current_segment_id r' = j \<and>
    current_offset r' = HEADER_SIZE + length q"
proof -
  let ?r = "r\<lparr> current_segment_id := j, current_offset := 0, current_data := Some (frame L q @ rest),
    available_segments := list_segment_ids fs \<rparr>"
  have "sorted_wrt (<) (pre @ i # j # post)"
    using list_segment_ids_sorted [OF assms(1)] assms(2) by simp
  from advance_to_next [OF this assms(2,3,6)]
  have "advance_segment fs r = (?r, True)" .
  moreover have "next_round L fs r = (case advance_segment fs r of (r', ok) \<Rightarrow> if ok then Inl r' else Inr (r', Inr None))"
    by (rule next_round_end [OF assms(4)]) (simp add: assms(5) read_end)
  ultimately have 1: "next_round L fs r = Inl ?r" by simp
  have "read_record_at L (frame L q @ rest) 0 j = Inr (Some (q, HEADER_SIZE + length q))"
    using read_frame [OF assms(7), of L "[]" rest j] by simp
  then have "next_round L fs ?r = Inr (?r\<lparr> current_offset := HEADER_SIZE + length q \<rparr>, Inr (Some q))"
    by (simp add: next_round_def)
  with 1 show ?thesis by (simp add: reader_next_step reader_next_done)
qed

theorem tail_skipped_on_rotation_witness:
  "\<exists>fs r r'. hm_get fs (segment_path 0) = Some (frames sum_lib [[1], [2]]) \<and>
     hm_get fs (segment_path 1) = Some (frames sum_lib [[3]]) \<and>
     current_data r = Some (frames sum_lib [[1]]) \<and> current_offset r = length (frames sum_lib [[1]]) \<and>
     current_segment_id r = 0 \<and> reader_next sum_lib fs r = (r', Inr (Some [3]))"
proof -
  let ?base = "[(segment_path 0, frames sum_lib [[1], [2]])]"
  let ?fs = "hm_insert (segment_path 1) (frames sum_lib [[3]]) ?base"
  let ?r = "(reader_at wal_config_default ''c'' [] 0 0)\<lparr> current_segment_id := 0, current_data := Some (frames sum_lib [[1]]),
    current_offset := length (frames sum_lib [[1]]) \<rparr>"
  have d: "dir_ok ?base" "list_segment_ids ?base = [0]"
    using single_segment_dir [of 0 "frames sum_lib [[1], [2]]"] by simp_all
  have "dir_ok ?fs" "list_segment_ids ?fs = [] @ 0 # 1 # []"
    using dir_insert_new [OF d(1), of 1 "frames sum_lib [[3]]"] d(2) by simp_all
  moreover have "valid_payload [3]" by (simp add: valid_payload_def MAX_RECORD_SIZE_def)
  moreover have g: "hm_get ?fs (segment_path 1) = Some (frame sum_lib [3] @ [])"
    "hm_get ?fs (segment_path 0) = Some (frames sum_lib [[1], [2]])"
    using hm_ok_dir [OF d(1)] by (simp_all add: hm.get_put del: One_nat_def) (simp_all add: hm_get_def)
  ultimately obtain r' where "reader_next sum_lib ?fs ?r = (r', Inr (Some [3]))"
    using tail_skipped_on_rotation [of ?fs "[]" 0 1 "[]" ?r "frames sum_lib [[1]]" sum_lib "[3]" "[]"] by auto
  with g show ?thesis
    by (intro exI [of _ ?fs] exI [of _ ?r] exI [of _ r']) simp
qed

section \<open>Committed positions\<close>

lemma dec_no_space: "list_all (\<lambda>c. \<not> is_ascii_space c) (dec n)"
proof -
  have "\<not> is_ascii_space c" if "is_ascii_digit c" for c
    using that by (auto simp: is_ascii_digit_def is_ascii_space_def)
  then show ?thesis using dec_digits [of n] by (auto simp: list_all_iff)
qed

lemma dec_no_colon: "CHR '':'' \<notin> set (dec n)"
  using digit_set_no [OF dec_digits, of "CHR '':''" n] by (simp add: is_ascii_digit_def char_code_def)

lemma position_content:
  "split_once (CHR '':'') (trim (dec s @ CHR '':'' # dec n)) = Some (dec s, dec n)"
proof -
  have "list_all (\<lambda>c. \<not> is_ascii_space c) (dec s @ CHR '':'' # dec n)"
    using dec_no_space by (simp add: is_ascii_space_def char_code_def)
  then show ?thesis
    by (simp add: trim_id split_once_append dec_no_colon)
qed

text \<open>
  C35. A committed position is the position a reopened consumer resumes at, it leaves every other
  consumer's file alone and no temporary file behind, and the writer's pruning understands it:
  the consumer then needs exactly the segments from the committed one on.
\<close>

theorem commit_roundtrip:
  assumes "current_segment_id r < 2 ^ 64" "current_offset r < 2 ^ 64"
  shows "load_position (commit_position r pos) (consumer_name r) = Some (current_segment_id r, current_offset r) \<and>
    (consumer_needs (commit_position r pos) (position_file (consumer_name r)) i \<longleftrightarrow> current_segment_id r \<le> i) \<and>
    (\<forall>f. f \<noteq> position_file (consumer_name r) \<and> f \<noteq> position_file (consumer_name r) @ ''.tmp'' \<longrightarrow>
      commit_position r pos f = pos f) \<and>
    commit_position r pos (position_file (consumer_name r) @ ''.tmp'') = None"
proof -
  let ?p = "position_file (consumer_name r)"
  have "commit_position r pos ?p = Some (dec (current_segment_id r) @ CHR '':'' # dec (current_offset r))"
    by (simp add: commit_position_def Let_def)
  then show ?thesis
    using assms
    by (simp add: load_position_def parse_position_def consumer_needs_def position_segment_def position_content)
      (auto simp: commit_position_def Let_def)
qed

theorem commit_roundtrip_witness:
  "\<exists>r. current_segment_id r = 7 \<and> current_offset r = 120 \<and>
     load_position (commit_position r Map.empty) (consumer_name r) = Some (7, 120)"
proof -
  let ?r = "(reader_at wal_config_default ''c'' [] 0 0)\<lparr> current_segment_id := 7, current_offset := 120 \<rparr>"
  show ?thesis using commit_roundtrip [of ?r Map.empty 0] by (intro exI [of _ ?r]) simp
qed

section \<open>Strict reading misses nothing\<close>

definition file_of :: "wal_files \<Rightarrow> nat \<Rightarrow> bytes" where
  "file_of fs i = (case hm_get fs (segment_path i) of None \<Rightarrow> [] | Some c \<Rightarrow> c)"

text \<open>All the bytes from a position of a segment to the end of the log.\<close>

definition rest_of_log :: "wal_files \<Rightarrow> nat \<Rightarrow> nat \<Rightarrow> bytes" where
  "rest_of_log fs i off =
     drop off (file_of fs i) @ concat (map (file_of fs) (filter (\<lambda>j. i < j) (list_segment_ids fs)))"

definition strict_at :: "wal_files \<Rightarrow> wal_reader \<Rightarrow> bool" where
  "strict_at fs r \<longleftrightarrow> current_data r = Some (file_of fs (current_segment_id r)) \<and>
     current_segment_id r \<in> set (list_segment_ids fs) \<and>
     current_offset r \<le> length (file_of fs (current_segment_id r))"

text \<open>The listed ids from \<open>i\<close> to \<open>j\<close> are all the numbers between them.\<close>

definition gapless :: "wal_files \<Rightarrow> nat \<Rightarrow> nat \<Rightarrow> bool" where
  "gapless fs i j \<longleftrightarrow> i \<le> j \<and> (\<forall>k. i \<le> k \<and> k \<le> j \<longrightarrow> k \<in> set (list_segment_ids fs))"

lemma gapless_refl: "i \<in> set (list_segment_ids fs) \<Longrightarrow> gapless fs i i"
  by (auto simp: gapless_def)

lemma gapless_trans: "gapless fs i j \<Longrightarrow> gapless fs j k \<Longrightarrow> gapless fs i k"
  by (auto simp: gapless_def) (metis nle_le)

lemma sorted_find:
  assumes "sorted_wrt (<) xs" "find (\<lambda>j. i < j) xs = Some (k::nat)"
  shows "filter (\<lambda>j. i < j) xs = k # filter (\<lambda>j. k < j) xs"
  using assms
proof (induction xs)
  case (Cons x xs)
  show ?case
  proof (cases "i < x")
    case True
    with Cons.prems have "k = x" by simp
    moreover have "filter (\<lambda>j. i < j) xs = xs" "filter (\<lambda>j. x < j) xs = xs"
      using Cons.prems True by (auto intro!: filter_True)
    ultimately show ?thesis using True by simp
  next
    case False
    then have "\<not> k < x \<or> k \<notin> set xs"
      using Cons by (auto simp: find_Some_iff)
    with False Cons show ?thesis by (auto simp: find_Some_iff)
  qed
qed simp

lemma listed_file: "dir_ok fs \<Longrightarrow> i \<in> set (list_segment_ids fs) \<Longrightarrow> hm_get fs (segment_path i) = Some (file_of fs i)"
  by (auto simp: set_list_segment_ids seg_ids_def file_of_def)

lemma rest_of_log_next:
  assumes "dir_ok fs" "find (\<lambda>j. i < j) (list_segment_ids fs) = Some k"
  shows "rest_of_log fs i (length (file_of fs i)) = rest_of_log fs k 0"
  using sorted_find [OF list_segment_ids_sorted [OF assms(1)] assms(2)] by (simp add: rest_of_log_def)

definition strict_outcome :: "crc_lib \<Rightarrow> wal_files \<Rightarrow> wal_reader \<Rightarrow> wal_reader \<times> read_result \<Rightarrow> bool" where
  "strict_outcome L fs r out \<longleftrightarrow>
     (case out of
        (r', Inr (Some p)) \<Rightarrow> strict_at fs r' \<and> gapless fs (current_segment_id r) (current_segment_id r') \<and>
          rest_of_log fs (current_segment_id r) (current_offset r) =
            frame L p @ rest_of_log fs (current_segment_id r') (current_offset r')
      | (r', Inr None) \<Rightarrow> strict_at fs r' \<and> gapless fs (current_segment_id r) (current_segment_id r') \<and>
          rest_of_log fs (current_segment_id r) (current_offset r) = [] \<and>
          (\<forall>j\<in>set (list_segment_ids fs). j \<le> current_segment_id r')
      | (r', Inl e) \<Rightarrow> True)"

lemma strict_round_at:
  assumes d: "dir_ok fs" and at: "strict_at fs r"
  shows "case strict_round L fs r of
      Inl r' \<Rightarrow> strict_at fs r' \<and> gapless fs (current_segment_id r) (current_segment_id r') \<and>
        rest_of_log fs (current_segment_id r) (current_offset r) = rest_of_log fs (current_segment_id r') (current_offset r')
    | Inr out \<Rightarrow> strict_outcome L fs r out"
proof -
  let ?i = "current_segment_id r" and ?o = "current_offset r" and ?d = "file_of fs (current_segment_id r)"
  have data: "current_data r = Some ?d" and i: "?i \<in> set (list_segment_ids fs)" and off: "?o \<le> length ?d"
    using at by (simp_all add: strict_at_def)
  show ?thesis
  proof (cases "?o < length ?d \<and> (length ?d - ?o < HEADER_SIZE \<or> u32_from_le_bytes (slice ?d ?o (?o + 4)) = 0)")
    case True
    then show ?thesis by (auto simp: strict_round_def data Let_def strict_outcome_def)
  next
    case ok: False
    show ?thesis
    proof (cases "?o = length ?d")
      case False
      with off ok have "read_record_at L ?d ?o ?i \<noteq> Inr None"
        by (auto simp: read_record_at_def Let_def unat_eq_0)
      then consider e where "read_record_at L ?d ?o ?i = Inl e"
        | p nxt where "read_record_at L ?d ?o ?i = Inr (Some (p, nxt))"
        by (cases "read_record_at L ?d ?o ?i") auto
      then show ?thesis
      proof cases
        case 1
        with ok show ?thesis by (auto simp: strict_round_def data Let_def strict_outcome_def)
      next
        case 2
        then have rnd: "strict_round L fs r = Inr (r\<lparr> current_offset := nxt \<rparr>, Inr (Some p))"
          using ok by (simp add: strict_round_def data Let_def)
        note pr = read_record_at_progress [OF 2]
        have "drop ?o ?d = slice ?d ?o nxt @ drop nxt ?d"
          using pr by (metis append_take_drop_id drop_drop le_add_diff_inverse2 slice_def less_imp_le)
        then have "drop ?o ?d = frame L p @ drop nxt ?d"
          using read_record_frame [OF 2] by simp
        then show ?thesis
          using pr at i gapless_refl [OF i] by (simp add: rnd strict_outcome_def strict_at_def rest_of_log_def)
      qed
    next
      case o_end: True
      let ?r = "r\<lparr> available_segments := list_segment_ids fs \<rparr>"
      have na: "next_available ?r = find (\<lambda>j. ?i < j) (list_segment_ids fs)"
        by (simp add: next_available_def)
      have rd: "read_record_at L ?d ?o ?i = Inr None" by (simp add: o_end read_end)
      show ?thesis
      proof (cases "find (\<lambda>j. ?i < j) (list_segment_ids fs)")
        case None
        then have later: "\<forall>j\<in>set (list_segment_ids fs). j \<le> ?i" by (auto simp: find_None_iff not_less)
        have "top_up fs ?r = (?r, False)"
          using listed_file [OF d i] data by (simp add: top_up_def)
        then have rnd: "strict_round L fs r = Inr (?r, Inr None)"
          using None na rd o_end by (simp add: strict_round_def data advance_segment_strict_def Let_def map_prod_def)
        have "filter (\<lambda>j. ?i < j) (list_segment_ids fs) = []"
          using later by (auto simp: filter_empty_conv not_less)
        then show ?thesis
          using at i later gapless_refl [OF i] by (simp add: rnd strict_outcome_def strict_at_def rest_of_log_def o_end)
      next
        case (Some k)
        then have k: "k \<in> set (list_segment_ids fs)" "?i < k" by (auto simp: find_Some_iff)
        show ?thesis
        proof (cases "k = ?i + 1")
          case True
          let ?r' = "?r\<lparr> current_offset := 0, current_data := Some (file_of fs k), current_segment_id := k \<rparr>"
          have rnd: "strict_round L fs r = Inl ?r'"
            using Some na rd o_end True listed_file [OF d k(1)]
            by (simp add: strict_round_def data advance_segment_strict_def Let_def map_prod_def load_segment_def)
          have "gapless fs ?i k" using True i k by (auto simp: gapless_def le_Suc_eq)
          then show ?thesis
            using rest_of_log_next [OF d Some] k o_end by (simp add: rnd strict_at_def)
        next
          case False
          then have "strict_round L fs r = Inr (?r, Inl (SegmentGap (consumer_name r) ?i k))"
            using Some na rd o_end by (simp add: strict_round_def data advance_segment_strict_def Let_def)
          then show ?thesis by (simp add: strict_outcome_def)
        qed
      qed
    qed
  qed
qed

lemma strict_next_at:
  assumes d: "dir_ok fs"
  shows "strict_at fs r \<Longrightarrow> strict_outcome L fs r (reader_next_strict L fs r)"
proof (induction r rule: wf_induct_rule [OF wf_progress [of fs]])
  case (1 r)
  show ?case
  proof (cases "strict_round L fs r")
    case (Inl r')
    then have r': "strict_at fs r'" "gapless fs (current_segment_id r) (current_segment_id r')"
      "rest_of_log fs (current_segment_id r) (current_offset r) = rest_of_log fs (current_segment_id r') (current_offset r')"
      using strict_round_at [OF d 1(2), of L] by simp_all
    from 1(1) [OF strict_round_progress [OF Inl] r'(1)] r'(2,3) Inl show ?thesis
      by (auto simp: strict_next_step strict_outcome_def split: prod.splits sum.splits option.splits intro: gapless_trans)
  next
    case (Inr out)
    with strict_round_at [OF d 1(2), of L] show ?thesis by (simp add: strict_next_done)
  qed
qed

definition strict_step :: "crc_lib \<Rightarrow> wal_files \<Rightarrow> wal_reader \<Rightarrow> unit \<Rightarrow> (wal_reader \<times> read_result) option" where
  "strict_step L fs r u = Some (reader_next_strict L fs r)"

lemma strict_run_reads:
  assumes "dir_ok fs" "strict_at fs r"
    and "run (strict_step L fs) r (replicate (length ps + 1) ()) = Some (r', map (\<lambda>p. Inr (Some p)) ps @ [Inr None])"
  shows "rest_of_log fs (current_segment_id r) (current_offset r) = frames L ps \<and>
    gapless fs (current_segment_id r) (current_segment_id r') \<and>
    (\<forall>j\<in>set (list_segment_ids fs). j \<le> current_segment_id r')"
  using assms(2,3)
proof (induction ps arbitrary: r)
  case Nil
  then have "reader_next_strict L fs r = (r', Inr None)" by (simp add: strict_step_def split: prod.splits)
  with strict_next_at [OF assms(1) Nil(1), of L] show ?case by (simp add: strict_outcome_def)
next
  case (Cons p ps)
  obtain r1 o1 where n: "reader_next_strict L fs r = (r1, o1)" by (cases "reader_next_strict L fs r")
  then have "strict_step L fs r () = Some (r1, o1)" by (simp add: strict_step_def)
  with Cons.prems(2) have "o1 = Inr (Some p)"
    and rest: "run (strict_step L fs) r1 (replicate (length ps + 1) ()) = Some (r', map (\<lambda>p. Inr (Some p)) ps @ [Inr None])"
    by (auto simp del: run.simps(2) simp: run.simps(2) [of _ r] split: option.splits)
  with n have r1: "reader_next_strict L fs r = (r1, Inr (Some p))" by simp
  from strict_next_at [OF assms(1) Cons.prems(1), of L] r1
  have o: "strict_at fs r1" "gapless fs (current_segment_id r) (current_segment_id r1)"
    "rest_of_log fs (current_segment_id r) (current_offset r) = frame L p @ rest_of_log fs (current_segment_id r1) (current_offset r1)"
    by (simp_all add: strict_outcome_def)
  from Cons.IH [OF o(1) rest] o show ?case by (auto intro: gapless_trans)
qed

lemma open_strict_at:
  assumes "dir_ok fs" "list_segment_ids fs \<noteq> []"
  shows "strict_at fs (reader_at cfg c fs (first_segment fs) 0) \<and>
    current_segment_id (reader_at cfg c fs (first_segment fs) 0) = hd (list_segment_ids fs) \<and>
    current_offset (reader_at cfg c fs (first_segment fs) 0) = 0"
proof -
  obtain i xs where l: "list_segment_ids fs = i # xs" using assms(2) by (cases "list_segment_ids fs") auto
  then show ?thesis
    using listed_file [OF assms(1), of i] by (simp add: first_segment_def reader_at_def load_segment_def strict_at_def)
qed

lemma rest_from_start:
  assumes "dir_ok fs" "list_segment_ids fs \<noteq> []"
  shows "rest_of_log fs (hd (list_segment_ids fs)) 0 = concat (map (file_of fs) (list_segment_ids fs))"
proof -
  obtain i xs where l: "list_segment_ids fs = i # xs" using assms(2) by (cases "list_segment_ids fs") auto
  then have "filter (\<lambda>j. i < j) (list_segment_ids fs) = xs"
    using list_segment_ids_sorted [OF assms(1)] by (auto intro!: filter_True)
  with l show ?thesis by (simp add: rest_of_log_def)
qed

text \<open>
  C17. Strict reading fails closed. If recovery reads a log from the start and reaches the end
  without an error, then the records it returned account for every byte of every segment file,
  in order, and the segment ids have no gap: nothing was skipped, torn, corrupt or missing.
\<close>

theorem strict_reads_everything:
  assumes "dir_ok fs" "list_segment_ids fs \<noteq> []"
    and "run (strict_step L fs) (reader_at cfg c fs (first_segment fs) 0) (replicate (length ps + 1) ()) =
      Some (r, map (\<lambda>p. Inr (Some p)) ps @ [Inr None])"
  shows "concat (map (file_of fs) (list_segment_ids fs)) = frames L ps \<and>
    set (list_segment_ids fs) = {hd (list_segment_ids fs)..current_segment_id r}"
proof -
  note op = open_strict_at [OF assms(1,2), of cfg c]
  from strict_run_reads [OF assms(1) _ assms(3)] op
  have r: "rest_of_log fs (hd (list_segment_ids fs)) 0 = frames L ps"
    "gapless fs (hd (list_segment_ids fs)) (current_segment_id r)"
    "\<forall>j\<in>set (list_segment_ids fs). j \<le> current_segment_id r"
    by simp_all
  have ge: "\<forall>j\<in>set (list_segment_ids fs). hd (list_segment_ids fs) \<le> j"
    using list_segment_ids_sorted [OF assms(1)] assms(2) by (cases "list_segment_ids fs") auto
  have "j \<in> set (list_segment_ids fs) \<longleftrightarrow> j \<in> {hd (list_segment_ids fs)..current_segment_id r}" for j
    using r(2,3) ge unfolding gapless_def atLeastAtMost_iff by blast
  then have "set (list_segment_ids fs) = {hd (list_segment_ids fs)..current_segment_id r}" by blast
  with r(1) rest_from_start [OF assms(1,2)] show ?thesis by simp
qed

lemma read_record_len:
  "read_record_at L data off seg = Inr (Some x) \<Longrightarrow> u32_from_le_bytes (slice data off (off + 4)) \<noteq> 0"
  by (auto simp: read_record_at_def Let_def split: if_splits)

theorem strict_reads_everything_witness:
  "\<exists>r. run (strict_step sum_lib [(segment_path 3, frames sum_lib [[9]])])
      (reader_at wal_config_default ''c'' [(segment_path 3, frames sum_lib [[9]])] (first_segment [(segment_path 3, frames sum_lib [[9]])]) 0)
      (replicate 2 ()) = Some (r, [Inr (Some [9]), Inr None]) \<and>
    set (list_segment_ids [(segment_path 3, frames sum_lib [[9]])]) = {3..current_segment_id r}"
proof -
  let ?fs = "[(segment_path 3, frames sum_lib [[9]])]"
  have d: "dir_ok ?fs" "list_segment_ids ?fs = [3]" using single_segment_dir [of 3] by simp_all
  let ?r0 = "reader_at wal_config_default ''c'' ?fs (first_segment ?fs) 0"
  let ?r1 = "?r0\<lparr> current_offset := 9 \<rparr>" and ?r2 = "?r0\<lparr> current_offset := 9, available_segments := [3] \<rparr>"
  have g: "hm_get ?fs (segment_path 3) = Some (frame sum_lib [9])" by (simp add: hm_get_def)
  have r0: "current_data ?r0 = Some (frame sum_lib [9])" "current_offset ?r0 = 0" "current_segment_id ?r0 = 3"
    using d g by (simp_all add: reader_at_def load_segment_def first_segment_def)
  have v: "valid_payload [9]" by (simp add: valid_payload_def MAX_RECORD_SIZE_def)
  have l: "u32_from_le_bytes (slice (frame sum_lib [9]) 0 4) \<noteq> 0"
    using read_record_len [of sum_lib "frame sum_lib [9]" 0 3] read_frame [OF v, of sum_lib "[]" "[]" 3] by simp
  have "strict_round sum_lib ?fs ?r0 = Inr (?r1, Inr (Some [9]))"
    using r0 l read_frame [OF v, of sum_lib "[]" "[]" 3]
    by (simp add: strict_round_def Let_def HEADER_SIZE_def del: One_nat_def)
  moreover have "strict_round sum_lib ?fs ?r1 = Inr (?r2, Inr None)"
    using r0 d g read_end [of sum_lib "frame sum_lib [9]" 3]
    by (simp add: strict_round_def Let_def HEADER_SIZE_def advance_segment_strict_def next_available_def top_up_def)
  ultimately have "run (strict_step sum_lib ?fs) ?r0 [(), ()] = Some (?r2, [Inr (Some [9]), Inr None])"
    by (simp add: strict_step_def strict_next_done)
  moreover have two: "replicate 2 () = [(), ()]" "replicate (length [[9 :: u8]] + 1) () = [(), ()]"
    "map (\<lambda>p. Inr (Some p) :: read_result) [[9]] @ [Inr None] = [Inr (Some [9]), Inr None]"
    by (simp_all add: numeral_2_eq_2)
  moreover have "list_segment_ids ?fs \<noteq> []" using d by simp
  ultimately have "set (list_segment_ids ?fs) = {hd (list_segment_ids ?fs)..current_segment_id ?r2}"
    using strict_reads_everything [OF d(1), of sum_lib wal_config_default "''c''" "[[9]]" ?r2] unfolding two by blast
  then have "set (list_segment_ids ?fs) = {3..current_segment_id ?r2}" by (simp only: d list.sel)
  with \<open>run (strict_step sum_lib ?fs) ?r0 [(), ()] = Some (?r2, [Inr (Some [9]), Inr None])\<close> show ?thesis
    unfolding two by blast
qed

section \<open>Lag\<close>

lemma lag_from_above:
  "\<forall>i\<in>set is. cur < i \<and> hm_get fs (segment_path i) = Some (file_of fs i) \<Longrightarrow>
   lag_from fs cur off lag is = Some (lag + length (concat (map (file_of fs) is)))"
  by (induction "is" arbitrary: lag) auto

lemma lag_from_skip: "\<forall>i\<in>set is. i < cur \<Longrightarrow> lag_from fs cur off lag (is @ js) = lag_from fs cur off lag js"
  by (induction "is" arbitrary: lag) auto

text \<open>
  After a refresh of the listing, the byte lag a reader reports is exactly the number of
  bytes between its position and the end of the log, and it does not ask for a resync.
\<close>

theorem lag_is_rest_of_log:
  assumes "dir_ok fs" "strict_at fs r"
  shows "lag_bytes fs (refresh_segments fs r) =
      Some (length (rest_of_log fs (current_segment_id r) (current_offset r))) \<and>
    \<not> needs_resync (refresh_segments fs r)"
proof -
  let ?i = "current_segment_id r"
  have i: "?i \<in> set (list_segment_ids fs)" using assms(2) by (simp add: strict_at_def)
  then obtain pre post where l: "list_segment_ids fs = pre @ ?i # post" using split_list [OF i] by blast
  have srt: "sorted_wrt (<) (pre @ ?i # post)" using list_segment_ids_sorted [OF assms(1)] l by simp
  have files: "\<forall>j\<in>set post. ?i < j \<and> hm_get fs (segment_path j) = Some (file_of fs j)"
    using srt l listed_file [OF assms(1)] by (auto simp: sorted_wrt_append)
  have "filter (\<lambda>j. ?i < j) pre = []" "filter (\<lambda>j. ?i < j) post = post"
    using srt by (auto simp: sorted_wrt_append filter_empty_conv intro!: filter_True)
  then have "filter (\<lambda>j. ?i < j) (list_segment_ids fs) = post" by (simp add: l)
  moreover have "lag_bytes fs (refresh_segments fs r) =
      Some (length (file_of fs ?i) - current_offset r + length (concat (map (file_of fs) post)))"
    using srt listed_file [OF assms(1) i] lag_from_above [OF files]
    by (simp add: lag_bytes_def refresh_segments_def l lag_from_skip sorted_wrt_append)
  moreover have "\<not> needs_resync (refresh_segments fs r)"
    using srt by (cases pre) (auto simp: needs_resync_def refresh_segments_def l)
  ultimately show ?thesis by (simp add: rest_of_log_def)
qed

theorem lag_is_rest_of_log_witness:
  "lag_bytes [(segment_path 3, [1, 2, 3])] (refresh_segments [(segment_path 3, [1, 2, 3])]
     ((reader_at wal_config_default ''c'' [(segment_path 3, [1, 2, 3])] 3 0)\<lparr> current_offset := 1 \<rparr>)) = Some 2"
proof -
  let ?fs = "[(segment_path 3, [1 :: u8, 2, 3])]"
  let ?r = "(reader_at wal_config_default ''c'' ?fs 3 0)\<lparr> current_offset := 1 \<rparr>"
  have d: "dir_ok ?fs" "list_segment_ids ?fs = [3]" using single_segment_dir [of 3] by simp_all
  have g: "hm_get ?fs (segment_path 3) = Some [1, 2, 3]" by (simp add: hm_get_def)
  then have "strict_at ?fs ?r" "current_segment_id ?r = 3"
    using d by (simp_all add: strict_at_def reader_at_def load_segment_def file_of_def)
  with lag_is_rest_of_log [OF d(1), of ?r] d g show ?thesis
    by (simp add: rest_of_log_def file_of_def)
qed

end
