(* ===== verification/Dispatcher.thy ===== *)
theory Dispatcher
  imports Book TimeNorm
begin

text \<open>
  \<open>crates/pb-feed/src/dispatcher.rs\<close> with the message types of \<open>ws.rs\<close> and
  \<open>pb-types/src/wire.rs\<close>: the component that turns venue messages into records. Its state is
  the per-asset sequence counters, the staleness and duplicate trackers and the shadow books it
  checks the venue's best prices against. The JSON parser is third-party code and a parameter;
  metrics and logging are not modelled. The output channel is the list of sent records with the
  number of sends the receiver will still accept (\<open>None\<close>: it stays open).
\<close>

section \<open>Messages\<close>

record order_entry =
  oe_price :: string
  oe_size :: string

record book_message =
  bm_asset_id :: string
  bm_market :: "string option"
  bm_timestamp :: "string option"
  bm_bids :: "order_entry list"
  bm_asks :: "order_entry list"
  bm_hash :: "string option"

record price_change_entry =
  pce_asset_id :: string
  pce_price :: string
  pce_size :: string
  pce_side :: string
  pce_hash :: "string option"
  pce_best_bid :: "string option"
  pce_best_ask :: "string option"

record price_change_message =
  pc_market :: "string option"
  price_changes :: "price_change_entry list"
  pc_timestamp :: "string option"

record last_trade_message =
  lt_asset_id :: string
  lt_market :: "string option"
  lt_price :: string
  lt_size :: "string option"
  lt_side :: "string option"
  lt_fee_rate_bps :: "string option"
  lt_timestamp :: "string option"
  lt_transaction_hash :: "string option"

record tick_size_message =
  ts_asset_id :: string
  ts_market :: "string option"
  ts_old_tick_size :: "string option"
  ts_new_tick_size :: "string option"
  ts_timestamp :: "string option"

datatype ws_message =
    WsBook book_message
  | WsPriceChange price_change_message
  | WsLastTradePrice last_trade_message
  | WsTickSizeChange tick_size_message

record ws_raw_message =
  raw_text :: string
  raw_recv_timestamp_us :: u64

datatype lifecycle_kind = LcReconnectStart | LcReconnectSuccess

record lifecycle_event =
  lc_kind :: lifecycle_kind
  lc_recv_timestamp_us :: u64
  lc_session_id :: string
  lc_details :: "string option"

datatype feed_message = FeedRaw ws_raw_message | FeedLifecycle lifecycle_event

text \<open>Errors of third-party libraries are their message texts.\<close>

datatype feed_error =
    FeedWs string
  | FeedTls string
  | FeedRest string
  | FeedDeserialize string
  | FeedTypes types_error
  | RateLimited
  | HttpStatus nat
  | ChannelSend
  | ConnectionStalled
  | UrlParse string
  | PayloadTooLarge string nat nat
  | ArrayTooLarge string nat nat
  | BookTooLarge string nat nat nat

text \<open>The display texts that end up in record details.\<close>

definition feed_types_display :: "types_error \<Rightarrow> string" where
  "feed_types_display e = ''feed type conversion error: '' @ types_error_display e"

section \<open>State\<close>

definition MAX_BOOK_LEVELS_PER_SIDE :: nat where
  "MAX_BOOK_LEVELS_PER_SIDE = 10000"

definition MAX_PRICE_CHANGES_PER_MESSAGE :: nat where
  "MAX_PRICE_CHANGES_PER_MESSAGE = 20000"

record dispatcher =
  asset_sequences :: "string \<rightharpoonup> u64"
  last_snapshot_ts :: "string \<rightharpoonup> u64"
  last_snapshot_hash :: "string \<rightharpoonup> string"
  asset_id_cache :: "string \<rightharpoonup> asset_id"
  validation_books :: "string \<rightharpoonup> l2book"
  resnapshot_tx :: "(string list \<times> nat) option"
  current_session_id :: "string option"
  sent :: "persisted_record list"
  tx_room :: "nat option"

definition dispatcher_new :: "(string list \<times> nat) option \<Rightarrow> nat option \<Rightarrow> dispatcher" where
  "dispatcher_new resnap room = \<lparr> asset_sequences = Map.empty, last_snapshot_ts = Map.empty,
     last_snapshot_hash = Map.empty, asset_id_cache = Map.empty, validation_books = Map.empty,
     resnapshot_tx = resnap, current_session_id = None, sent = [], tx_room = room \<rparr>"

type_synonym dispatch_result = "dispatcher \<times> (feed_error + unit)"

definition parse_side :: "string \<Rightarrow> side option" where
  "parse_side raw =
     (if raw = ''BUY'' \<or> raw = ''buy'' \<or> raw = ''Bid'' \<or> raw = ''bid'' then Some Bid
      else if raw = ''SELL'' \<or> raw = ''sell'' \<or> raw = ''Ask'' \<or> raw = ''ask'' then Some Ask
      else None)"

definition parse_timestamp_us :: "string option \<Rightarrow> u64" where
  "parse_timestamp_us ts = (case parse_to_micros ts of None \<Rightarrow> 0 | Some t \<Rightarrow> t)"

definition CLOCK_SKEW_TOLERANCE_US :: u64 where
  "CLOCK_SKEW_TOLERANCE_US = 2000000"

definition clock_skew_us :: "u64 \<Rightarrow> u64 \<Rightarrow> u64 option" where
  "clock_skew_us recv_us exchange_us =
     (if recv_us = 0 \<or> exchange_us = 0 then None
      else let skew = saturating_sub exchange_us recv_us
           in if CLOCK_SKEW_TOLERANCE_US < skew then Some skew else None)"

definition make_provenance :: "dispatcher \<Rightarrow> u64 \<Rightarrow> u64 \<Rightarrow> string option \<Rightarrow> sequence option \<Rightarrow> event_provenance" where
  "make_provenance d recv exch eid sq = \<lparr> recv_timestamp_us = recv, exchange_timestamp_us = exch,
     source = WebSocket, source_event_id = eid, source_session_id = current_session_id d,
     prov_sequence = sq, ingest_ordinal = None \<rparr>"

definition intern_asset_id :: "dispatcher \<Rightarrow> string \<Rightarrow> dispatcher \<times> asset_id" where
  "intern_asset_id d raw =
     (case asset_id_cache d raw of
        Some cached \<Rightarrow> (d, cached)
      | None \<Rightarrow> (d\<lparr> asset_id_cache := (asset_id_cache d)(raw \<mapsto> raw) \<rparr>, raw))"

definition next_sequence_for :: "dispatcher \<Rightarrow> asset_id \<Rightarrow> dispatcher \<times> sequence" where
  "next_sequence_for d a =
     (case asset_sequences d a of
        Some current \<Rightarrow> (d\<lparr> asset_sequences := (asset_sequences d)(a \<mapsto> current + 1) \<rparr>, Sequence current)
      | None \<Rightarrow> (d\<lparr> asset_sequences := (asset_sequences d)(a \<mapsto> 1) \<rparr>, Sequence 0))"

definition send :: "dispatcher \<Rightarrow> persisted_record \<Rightarrow> dispatch_result" where
  "send d rec =
     (case tx_room d of
        None \<Rightarrow> (d\<lparr> sent := sent d @ [rec] \<rparr>, Inr ())
      | Some 0 \<Rightarrow> (d, Inl ChannelSend)
      | Some (Suc n) \<Rightarrow> (d\<lparr> sent := sent d @ [rec], tx_room := Some n \<rparr>, Inr ()))"

definition reset_continuity_state :: "dispatcher \<Rightarrow> dispatcher" where
  "reset_continuity_state d = d\<lparr> asset_sequences := Map.empty, last_snapshot_ts := Map.empty,
     last_snapshot_hash := Map.empty, validation_books := Map.empty, asset_id_cache := Map.empty \<rparr>"

section \<open>Lifecycle events\<close>

definition dispatch_lifecycle :: "dispatcher \<Rightarrow> lifecycle_event \<Rightarrow> dispatch_result" where
  "dispatch_lifecycle d0 ev =
     (let kind = (case lc_kind ev of LcReconnectStart \<Rightarrow> ReconnectStart | LcReconnectSuccess \<Rightarrow> ReconnectSuccess);
          d = (if lc_kind ev = LcReconnectSuccess
               then reset_continuity_state (d0\<lparr> current_session_id := Some (lc_session_id ev) \<rparr>) else d0);
          provenance = \<lparr> recv_timestamp_us = lc_recv_timestamp_us ev, exchange_timestamp_us = 0,
            source = WebSocket, source_event_id = None, source_session_id = Some (lc_session_id ev),
            prov_sequence = None, ingest_ordinal = None \<rparr>
      in case send d (Ingest \<lparr> ie_asset_id = None, ie_kind = kind, ie_provenance = provenance,
                ie_expected_sequence = None, ie_observed_sequence = None, ie_details = lc_details ev \<rparr>) of
           (d1, Inl e) \<Rightarrow> (d1, Inl e)
         | (d1, Inr _) \<Rightarrow>
             if kind = ReconnectSuccess then
               send d1 (Ingest \<lparr> ie_asset_id = None, ie_kind = SourceReset, ie_provenance = provenance,
                 ie_expected_sequence = None, ie_observed_sequence = None,
                 ie_details = Some ''connection re-established; downstream readers should treat continuity as reset'' \<rparr>)
             else (d1, Inr ()))"

section \<open>Book snapshots\<close>

definition ingest_marker :: "dispatcher \<Rightarrow> asset_id \<Rightarrow> ingest_event_kind \<Rightarrow> u64 \<Rightarrow> u64 \<Rightarrow> string option \<Rightarrow>
    sequence option \<Rightarrow> string \<Rightarrow> persisted_record" where
  "ingest_marker d a kind recv exch eid sq details =
     Ingest \<lparr> ie_asset_id = Some a, ie_kind = kind, ie_provenance = make_provenance d recv exch eid sq,
       ie_expected_sequence = None, ie_observed_sequence = None, ie_details = Some details \<rparr>"

text \<open>Conversion of the levels of one side; the first failure ends it, the price's before the size's.\<close>

fun convert_levels :: "order_entry list \<Rightarrow> types_error + book_side" where
  "convert_levels [] = Inr []"
| "convert_levels (e # es) =
     (case (price_try_from (oe_price e), size_try_from (oe_size e)) of
        (Inr price, Inr sz) \<Rightarrow>
          (case convert_levels es of Inl err \<Rightarrow> Inl err | Inr ls \<Rightarrow> Inr ((price, sz) # ls))
      | (Inl err, _) \<Rightarrow> Inl err
      | (Inr _, Inl err) \<Rightarrow> Inl err)"

definition book_record :: "dispatcher \<Rightarrow> asset_id \<Rightarrow> book_event_kind \<Rightarrow> side \<Rightarrow> fixed_price \<Rightarrow> fixed_size \<Rightarrow>
    u64 \<Rightarrow> u64 \<Rightarrow> string option \<Rightarrow> sequence \<Rightarrow> persisted_record" where
  "book_record d a kind s price sz recv exch eid sq =
     Book \<lparr> be_asset_id = a, be_kind = kind, be_side = s, be_price = price, be_size = sz,
       be_provenance = make_provenance d recv exch eid (Some sq) \<rparr>"

fun emit_levels :: "asset_id \<Rightarrow> u64 \<Rightarrow> u64 \<Rightarrow> string option \<Rightarrow> (side \<times> fixed_price \<times> fixed_size) list \<Rightarrow>
    dispatcher \<Rightarrow> dispatch_result" where
  "emit_levels a recv exch eid [] d = (d, Inr ())"
| "emit_levels a recv exch eid ((s, price, sz) # ls) d =
     (case next_sequence_for d a of (d1, sq) \<Rightarrow>
       (case send d1 (book_record d1 a Snapshot s price sz recv exch eid sq) of
          (d2, Inl e) \<Rightarrow> (d2, Inl e)
        | (d2, Inr _) \<Rightarrow> emit_levels a recv exch eid ls d2))"

text \<open>The commit of a converted snapshot: shadow book, trackers, sequence, then the records.\<close>

definition commit_snapshot :: "dispatcher \<Rightarrow> asset_id \<Rightarrow> u64 \<Rightarrow> u64 \<Rightarrow> string option \<Rightarrow> book_side \<Rightarrow> book_side \<Rightarrow>
    dispatch_result" where
  "commit_snapshot d a recv exch eid snap_bids snap_asks =
     (let book = (case validation_books d a of Some b \<Rightarrow> b | None \<Rightarrow> book_new a)
      in case try_apply_snapshot book snap_bids snap_asks seq_default exch of
           (_, Inl e) \<Rightarrow>
             let d1 = d\<lparr> validation_books := (validation_books d)(a := None) \<rparr>
             in send d1 (ingest_marker d1 a SourceReset recv exch eid None
                  (''book snapshot dropped: '' @ book_error_display e))
         | (book', Inr _) \<Rightarrow>
             let d1 = d\<lparr> validation_books := (validation_books d)(a \<mapsto> book') \<rparr>;
                 d2 = (if exch \<noteq> 0 then d1\<lparr> last_snapshot_ts := (last_snapshot_ts d1)(a \<mapsto> exch) \<rparr> else d1);
                 d3 = (case eid of Some h \<Rightarrow> d2\<lparr> last_snapshot_hash := (last_snapshot_hash d2)(a \<mapsto> h) \<rparr> | None \<Rightarrow> d2);
                 d4 = d3\<lparr> asset_sequences := (asset_sequences d3)(a \<mapsto> 0) \<rparr>
             in emit_levels a recv exch eid
                  (map (\<lambda>(p, z). (Bid, p, z)) snap_bids @ map (\<lambda>(p, z). (Ask, p, z)) snap_asks) d4)"

definition dispatch_book :: "dispatcher \<Rightarrow> u64 \<Rightarrow> book_message \<Rightarrow> dispatch_result" where
  "dispatch_book d0 recv m =
     (case intern_asset_id d0 (bm_asset_id m) of (d, a) \<Rightarrow>
      let exch = parse_timestamp_us (bm_timestamp m);
          eid = bm_hash m;
          stale = (if exch \<noteq> 0 then
            (case last_snapshot_ts d a of Some last_ts \<Rightarrow> if exch < last_ts then Some last_ts else None | None \<Rightarrow> None)
            else None)
      in if MAX_BOOK_LEVELS_PER_SIDE < length (bm_bids m) \<or> MAX_BOOK_LEVELS_PER_SIDE < length (bm_asks m) then
           send d (ingest_marker d a SourceReset recv exch eid None
             (''book snapshot dropped: bids='' @ dec (length (bm_bids m)) @ '' asks='' @ dec (length (bm_asks m)) @
              '' exceeds per-side limit '' @ dec MAX_BOOK_LEVELS_PER_SIDE))
         else (case stale of
           Some last_ts \<Rightarrow>
             send d (ingest_marker d a StaleSnapshotSkip recv exch eid None
               (''snapshot exchange timestamp '' @ dec (unat exch) @ '' < latest accepted '' @ dec (unat last_ts)))
         | None \<Rightarrow>
             if eid \<noteq> None \<and> last_snapshot_hash d a = eid then (d, Inr ())
             else
               (case convert_levels (bm_bids m) of
                  Inl e \<Rightarrow> send d (ingest_marker d a SourceReset recv exch eid None
                    (''book snapshot dropped (unparseable level): '' @ feed_types_display e))
                | Inr snap_bids \<Rightarrow>
                    (case convert_levels (bm_asks m) of
                       Inl e \<Rightarrow> send d (ingest_marker d a SourceReset recv exch eid None
                         (''book snapshot dropped (unparseable level): '' @ feed_types_display e))
                     | Inr snap_asks \<Rightarrow> commit_snapshot d a recv exch eid snap_bids snap_asks))))"

section \<open>Price changes\<close>

definition top_price_mismatch :: "side \<Rightarrow> fixed_price option \<Rightarrow> string option \<Rightarrow> bool" where
  "top_price_mismatch s ours venue =
     (case venue of
        None \<Rightarrow> False
      | Some venue_str \<Rightarrow>
          (case price_try_from venue_str of
             Inl _ \<Rightarrow> False
           | Inr venue_price \<Rightarrow>
               let empty_marker = (case s of
                     Bid \<Rightarrow> price_is_zero venue_price | Ask \<Rightarrow> price_raw venue_price = PRICE_SCALE)
               in if empty_marker then ours \<noteq> None else ours \<noteq> Some venue_price))"

text \<open>The \<open>Debug\<close> forms in the mismatch text; string escapes cover the ASCII characters.\<close>

definition debug_char :: "char \<Rightarrow> string" where
  "debug_char c =
     (if c = CHR 0x22 then [CHR 0x5C, c] else if c = CHR 0x5C then [CHR 0x5C, CHR 0x5C]
      else if c = CHR 0x09 then [CHR 0x5C, CHR ''t''] else if c = CHR 0x0A then [CHR 0x5C, CHR ''n'']
      else if c = CHR 0x0D then [CHR 0x5C, CHR ''r''] else if c = CHR 0x00 then [CHR 0x5C, CHR ''0'']
      else [c])"

definition debug_opt_str :: "string option \<Rightarrow> string" where
  "debug_opt_str o1 = (case o1 of None \<Rightarrow> ''None''
     | Some s \<Rightarrow> ''Some('' @ [CHR 0x22] @ concat (map debug_char s) @ [CHR 0x22] @ '')'')"

definition debug_opt_price :: "fixed_price option \<Rightarrow> string" where
  "debug_opt_price o1 = (case o1 of None \<Rightarrow> ''None''
     | Some p \<Rightarrow> ''Some(FixedPrice('' @ dec (unat (price_raw p)) @ ''))'')"

definition detect_book_mismatch :: "l2book \<Rightarrow> string option \<Rightarrow> string option \<Rightarrow> string option" where
  "detect_book_mismatch b venue_best_bid venue_best_ask =
     (let our_bid = map_option fst (best_bid b); our_ask = map_option fst (best_ask b);
          bid_bad = top_price_mismatch Bid our_bid venue_best_bid;
          ask_bad = top_price_mismatch Ask our_ask venue_best_ask
      in if \<not> bid_bad \<and> \<not> ask_bad then None
         else Some (''reconstructed top-of-book diverged from venue: best_bid ours='' @ debug_opt_price our_bid @
           '' venue='' @ debug_opt_str venue_best_bid @ '', best_ask ours='' @ debug_opt_price our_ask @
           '' venue='' @ debug_opt_str venue_best_ask))"

definition request_resnapshot :: "dispatcher \<Rightarrow> asset_id \<Rightarrow> dispatcher" where
  "request_resnapshot d a =
     (case resnapshot_tx d of
        Some (queue, Suc room) \<Rightarrow> d\<lparr> resnapshot_tx := Some (queue @ [a], room) \<rparr>
      | _ \<Rightarrow> d)"

text \<open>The index of each asset's last entry in the message.\<close>

definition last_entry_for_asset :: "price_change_entry list \<Rightarrow> string \<rightharpoonup> nat" where
  "last_entry_for_asset es = fold (\<lambda>(i, e) m. m(pce_asset_id e \<mapsto> i)) (enumerate 0 es) Map.empty"

text \<open>
  One entry. The outer option is the abort of the book's unchecked subtraction. The delta is
  emitted before the shadow book sees it.
\<close>

definition price_change_step :: "u64 \<Rightarrow> u64 \<Rightarrow> (string \<rightharpoonup> nat) \<Rightarrow> nat \<Rightarrow> price_change_entry \<Rightarrow> dispatcher \<Rightarrow>
    dispatch_result option" where
  "price_change_step recv exch last_entry idx e d0 =
     (case parse_side (pce_side e) of
        None \<Rightarrow> Some (d0, Inr ())
      | Some s \<Rightarrow>
          (case intern_asset_id d0 (pce_asset_id e) of (d1, a) \<Rightarrow>
           (case (price_try_from (pce_price e), size_try_from (pce_size e)) of
              (Inr price, Inr sz) \<Rightarrow>
                (case next_sequence_for d1 a of (d2, sq) \<Rightarrow>
                 (case send d2 (book_record d2 a Delta s price sz recv exch (pce_hash e) sq) of
                    (d3, Inl err) \<Rightarrow> Some (d3, Inl err)
                  | (d3, Inr _) \<Rightarrow>
                     (case validation_books d3 a of
                        None \<Rightarrow> Some (d3, Inr ())
                      | Some book \<Rightarrow>
                          (case try_apply_delta book s price sz sq exch of
                             None \<Rightarrow> None
                           | Some (_, Inl err) \<Rightarrow>
                               let d4 = d3\<lparr> validation_books := (validation_books d3)(a := None) \<rparr>
                               in Some (send d4 (ingest_marker d4 a SourceReset recv exch (pce_hash e) (Some sq)
                                    (''book delta dropped from shadow validation: '' @ book_error_display err)))
                           | Some (book', Inr _) \<Rightarrow>
                               let d4 = d3\<lparr> validation_books := (validation_books d3)(a \<mapsto> book') \<rparr>
                               in (case (if last_entry (pce_asset_id e) = Some idx
                                         then detect_book_mismatch book' (pce_best_bid e) (pce_best_ask e) else None) of
                                     None \<Rightarrow> Some (d4, Inr ())
                                   | Some details \<Rightarrow>
                                       let d5 = request_resnapshot d4 a
                                       in Some (send d5 (ingest_marker d5 a BookMismatch recv exch (pce_hash e)
                                            (Some sq) details)))))))
            | _ \<Rightarrow> Some (d1, Inr ()))))"

fun price_change_loop :: "u64 \<Rightarrow> u64 \<Rightarrow> (string \<rightharpoonup> nat) \<Rightarrow> (nat \<times> price_change_entry) list \<Rightarrow> dispatcher \<Rightarrow>
    dispatch_result option" where
  "price_change_loop recv exch last_entry [] d = Some (d, Inr ())"
| "price_change_loop recv exch last_entry ((i, e) # es) d =
     (case price_change_step recv exch last_entry i e d of
        None \<Rightarrow> None
      | Some (d1, Inl err) \<Rightarrow> Some (d1, Inl err)
      | Some (d1, Inr _) \<Rightarrow> price_change_loop recv exch last_entry es d1)"

definition dispatch_price_change :: "dispatcher \<Rightarrow> u64 \<Rightarrow> price_change_message \<Rightarrow> dispatch_result option" where
  "dispatch_price_change d recv m =
     (if MAX_PRICE_CHANGES_PER_MESSAGE < length (price_changes m) then Some (d, Inr ())
      else price_change_loop recv (parse_timestamp_us (pc_timestamp m))
             (last_entry_for_asset (price_changes m)) (enumerate 0 (price_changes m)) d)"

section \<open>Trades and the whole dispatcher\<close>

definition dispatch_trade :: "dispatcher \<Rightarrow> u64 \<Rightarrow> last_trade_message \<Rightarrow> dispatch_result" where
  "dispatch_trade d0 recv m =
     (case intern_asset_id d0 (lt_asset_id m) of (d, a) \<Rightarrow>
      (case (case lt_size m of None \<Rightarrow> Inr None | Some s \<Rightarrow> map_sum id Some (size_try_from s)) of
         Inl e \<Rightarrow> (d, Inl (FeedTypes e))
       | Inr sz \<Rightarrow>
           let s = Option.bind (lt_side m) parse_side;
               fidelity = (if sz \<noteq> None \<and> s \<noteq> None then FullFidelity else PartialFidelity)
           in (case price_try_from (lt_price m) of
                 Inl e \<Rightarrow> (d, Inl (FeedTypes e))
               | Inr price \<Rightarrow>
                   send d (Trade \<lparr> te_asset_id = a, te_price = price, te_size = sz, te_side = s,
                     te_trade_id = lt_transaction_hash m, te_fidelity = fidelity,
                     te_provenance = make_provenance d recv (parse_timestamp_us (lt_timestamp m))
                       (lt_transaction_hash m) None \<rparr>))))"

definition dispatch_raw :: "(string \<Rightarrow> string + ws_message) \<Rightarrow> dispatcher \<Rightarrow> ws_raw_message \<Rightarrow> dispatch_result option" where
  "dispatch_raw parse_json d raw =
     (case parse_json (raw_text raw) of
        Inl _ \<Rightarrow> Some (d, Inr ())
      | Inr (WsBook m) \<Rightarrow> Some (dispatch_book d (raw_recv_timestamp_us raw) m)
      | Inr (WsPriceChange m) \<Rightarrow> dispatch_price_change d (raw_recv_timestamp_us raw) m
      | Inr (WsLastTradePrice m) \<Rightarrow> Some (dispatch_trade d (raw_recv_timestamp_us raw) m)
      | Inr (WsTickSizeChange _) \<Rightarrow> Some (d, Inr ()))"

definition dispatch :: "(string \<Rightarrow> string + ws_message) \<Rightarrow> dispatcher \<Rightarrow> feed_message \<Rightarrow> dispatch_result option" where
  "dispatch parse_json d message =
     (case message of
        FeedRaw raw \<Rightarrow> dispatch_raw parse_json d raw
      | FeedLifecycle ev \<Rightarrow> Some (dispatch_lifecycle d ev))"

text \<open>The loop of \<open>run\<close>: stops with an error only when the output channel is closed.\<close>

fun run_dispatcher :: "(string \<Rightarrow> string + ws_message) \<Rightarrow> dispatcher \<Rightarrow> feed_message list \<Rightarrow> dispatch_result option" where
  "run_dispatcher parse_json d [] = Some (d, Inr ())"
| "run_dispatcher parse_json d (m # ms) =
     (case dispatch parse_json d m of
        None \<Rightarrow> None
      | Some (d1, Inl ChannelSend) \<Rightarrow> Some (d1, Inl ChannelSend)
      | Some (d1, _) \<Rightarrow> run_dispatcher parse_json d1 ms)"

section \<open>The invariant\<close>

text \<open>The sequence numbers of an asset's book records, in order of emission.\<close>

definition record_seqs :: "asset_id \<Rightarrow> persisted_record \<Rightarrow> u64 list" where
  "record_seqs a rec = (case rec of
     Book e \<Rightarrow> (if be_asset_id e = a then
        (case prov_sequence (be_provenance e) of Some s \<Rightarrow> [seq_raw s] | None \<Rightarrow> []) else [])
   | _ \<Rightarrow> [])"

definition seqs_of :: "asset_id \<Rightarrow> persisted_record list \<Rightarrow> u64 list" where
  "seqs_of a recs = concat (map (record_seqs a) recs)"

definition seq_chain :: "u64 list \<Rightarrow> bool" where
  "seq_chain xs \<longleftrightarrow> (xs \<noteq> [] \<longrightarrow> hd xs = 0) \<and> successively (\<lambda>x y. y = x + 1 \<or> y = 0) xs"

definition counters_ok :: "dispatcher \<Rightarrow> bool" where
  "counters_ok d \<longleftrightarrow> (\<forall>a c. asset_sequences d a = Some c \<longrightarrow>
     c = 0 \<or> (seqs_of a (sent d) \<noteq> [] \<and> c = last (seqs_of a (sent d)) + 1))"

definition disp_inv :: "dispatcher \<Rightarrow> bool" where
  "disp_inv d \<longleftrightarrow>
     (\<forall>a b. validation_books d a = Some b \<longrightarrow> book_inv b) \<and>
     (\<forall>s a. asset_id_cache d s = Some a \<longrightarrow> a = s) \<and>
     (\<forall>a. seq_chain (seqs_of a (sent d))) \<and>
     (tx_room d = Some 0 \<or> counters_ok d)"

lemma seqs_of_snoc [simp]: "seqs_of a (recs @ [r]) = seqs_of a recs @ record_seqs a r"
  by (simp add: seqs_of_def)

lemma send_cases:
  obtains "send d r = (d, Inl ChannelSend)" "tx_room d = Some 0"
  | room where "send d r = (d\<lparr> sent := sent d @ [r], tx_room := room \<rparr>, Inr ())" "tx_room d \<noteq> Some 0"
      "room = None \<longleftrightarrow> tx_room d = None"
proof (cases "tx_room d")
  case None
  have "d\<lparr> sent := sent d @ [r], tx_room := None \<rparr> = d\<lparr> sent := sent d @ [r] \<rparr>" using None by simp
  with None that(2) [of None] show ?thesis by (simp add: send_def)
next
  case (Some n)
  show ?thesis
  proof (cases n)
    case 0
    with Some have "send d r = (d, Inl ChannelSend)" by (simp add: send_def)
    with Some 0 show ?thesis by (intro that(1)) simp_all
  next
    case (Suc k)
    with Some have "send d r = (d\<lparr> sent := sent d @ [r], tx_room := Some k \<rparr>, Inr ())" by (simp add: send_def)
    with Some Suc show ?thesis by (intro that(2) [of "Some k"]) simp_all
  qed
qed

definition not_book :: "persisted_record \<Rightarrow> bool" where
  "not_book r = (case r of Book _ \<Rightarrow> False | _ \<Rightarrow> True)"

lemma not_book_seqs: "not_book r \<Longrightarrow> record_seqs a r = []"
  by (simp add: not_book_def record_seqs_def split: persisted_record.splits)

lemma not_book_simps [simp]: "not_book (Ingest i)" "not_book (Trade t)" "not_book (ingest_marker d a k rv ex eid sq det)"
  by (simp_all add: not_book_def ingest_marker_def)

lemma send_inv: "disp_inv d \<Longrightarrow> not_book r \<Longrightarrow> disp_inv (fst (send d r))"
  by (cases rule: send_cases [of d r])
    (auto simp: disp_inv_def not_book_seqs counters_ok_def)

lemma counters_ok_cache [simp]: "counters_ok (d\<lparr> asset_id_cache := c \<rparr>) = counters_ok d"
  by (simp add: counters_ok_def)

lemma intern_inv:
  "disp_inv d \<Longrightarrow> intern_asset_id d s = (d', a) \<Longrightarrow>
   a = s \<and> disp_inv d' \<and> d' = d\<lparr> asset_id_cache := asset_id_cache d' \<rparr>"
  by (auto simp: intern_asset_id_def disp_inv_def split: option.splits if_splits)

lemma send_inv_pair: "send d r = (d', x) \<Longrightarrow> disp_inv d \<Longrightarrow> not_book r \<Longrightarrow> disp_inv d'"
  using send_inv [of d r] by simp

text \<open>Taking the next number and sending the record that carries it.\<close>

lemma emit_inv:
  assumes inv: "disp_inv d" and nx: "next_sequence_for d a = (d1, sq)"
  shows "disp_inv (fst (send d1 (book_record d1 a k s p z rv ex eid sq)))"
proof -
  let ?r = "book_record d1 a k s p z rv ex eid sq"
  have rec: "record_seqs b ?r = (if b = a then [seq_raw sq] else [])" for b
    by (auto simp: record_seqs_def book_record_def make_provenance_def)
  have d1: "validation_books d1 = validation_books d" "asset_id_cache d1 = asset_id_cache d"
    "sent d1 = sent d" "tx_room d1 = tx_room d" "asset_sequences d1 = (asset_sequences d)(a \<mapsto> seq_raw sq + 1)"
    "seq_raw sq = (case asset_sequences d a of Some c \<Rightarrow> c | None \<Rightarrow> 0)"
    using nx by (auto simp: next_sequence_for_def split: option.splits)
  show ?thesis
  proof (cases rule: send_cases [of d1 ?r])
    case 1
    with inv d1 show ?thesis by (simp add: disp_inv_def)
  next
    case (2 room)
    then have c: "counters_ok d" using inv d1 by (simp add: disp_inv_def)
    have chain: "seq_chain (seqs_of b (sent d))" for b using inv by (simp add: disp_inv_def)
    have "seq_raw sq = 0 \<or> (seqs_of a (sent d) \<noteq> [] \<and> seq_raw sq = last (seqs_of a (sent d)) + 1)"
      using c d1(6) by (auto simp: counters_ok_def split: option.splits)
    then have "seq_chain (seqs_of b (sent d) @ record_seqs b ?r)" for b
      using chain [of b] by (auto simp: rec seq_chain_def successively_append_iff hd_append)
    moreover have "counters_ok (d1\<lparr> sent := sent d @ [?r], tx_room := room \<rparr>)"
      using c d1 rec by (auto simp: counters_ok_def)
    ultimately show ?thesis
      using 2 inv d1 by (simp add: disp_inv_def)
  qed
qed

lemma emit_levels_inv: "disp_inv d \<Longrightarrow> disp_inv (fst (emit_levels a rv ex eid ls d))"
proof (induction a rv ex eid ls d rule: emit_levels.induct)
  case (2 a rv ex eid s p z ls d)
  obtain d1 sq where nx: "next_sequence_for d a = (d1, sq)" by (cases "next_sequence_for d a")
  obtain d2 r where sd: "send d1 (book_record d1 a Snapshot s p z rv ex eid sq) = (d2, r)"
    by (cases "send d1 (book_record d1 a Snapshot s p z rv ex eid sq)")
  have "disp_inv d2" using emit_inv [OF 2(2) nx, of Snapshot s p z rv ex eid] sd by simp
  with 2(1) nx sd show ?case by (cases r) auto
qed simp

lemma disp_inv_books:
  "disp_inv d \<Longrightarrow> (\<forall>b. x = Some b \<longrightarrow> book_inv b) \<Longrightarrow>
   disp_inv (d\<lparr> validation_books := (validation_books d)(a := x) \<rparr>)"
  by (auto simp: disp_inv_def counters_ok_def)

lemma disp_inv_trackers [simp]:
  "disp_inv (d\<lparr> last_snapshot_ts := t \<rparr>) = disp_inv d"
  "disp_inv (d\<lparr> last_snapshot_hash := h \<rparr>) = disp_inv d"
  "disp_inv (d\<lparr> resnapshot_tx := q \<rparr>) = disp_inv d"
  "disp_inv (d\<lparr> current_session_id := i \<rparr>) = disp_inv d"
  by (simp_all add: disp_inv_def counters_ok_def)

lemma disp_inv_restart: "disp_inv d \<Longrightarrow> disp_inv (d\<lparr> asset_sequences := (asset_sequences d)(a \<mapsto> 0) \<rparr>)"
  by (auto simp: disp_inv_def counters_ok_def)

lemma disp_inv_reset: "disp_inv d \<Longrightarrow> disp_inv (reset_continuity_state d)"
  by (simp add: disp_inv_def counters_ok_def reset_continuity_state_def)

lemma commit_snapshot_inv:
  assumes "disp_inv d"
  shows "disp_inv (fst (commit_snapshot d a rv ex eid bs as))"
proof -
  let ?book = "case validation_books d a of Some b \<Rightarrow> b | None \<Rightarrow> book_new a"
  obtain b' r where ap: "try_apply_snapshot ?book bs as seq_default ex = (b', r)"
    by (cases "try_apply_snapshot ?book bs as seq_default ex")
  have "book_inv ?book" using assms by (auto simp: disp_inv_def split: option.splits)
  then have b': "book_inv b'" by (rule book_apply_inv [OF _ ap])
  let ?d1 = "d\<lparr> validation_books := (validation_books d)(a \<mapsto> b') \<rparr>"
  let ?d2 = "if ex \<noteq> 0 then ?d1\<lparr> last_snapshot_ts := (last_snapshot_ts ?d1)(a \<mapsto> ex) \<rparr> else ?d1"
  let ?d3 = "case eid of Some h \<Rightarrow> ?d2\<lparr> last_snapshot_hash := (last_snapshot_hash ?d2)(a \<mapsto> h) \<rparr> | None \<Rightarrow> ?d2"
  have "disp_inv ?d1" using disp_inv_books [OF assms, of "Some b'" a] b' by simp
  then have "disp_inv ?d2" by simp
  then have "disp_inv ?d3" by (cases eid) simp_all
  then have "disp_inv (?d3\<lparr> asset_sequences := (asset_sequences ?d3)(a \<mapsto> 0) \<rparr>)" by (rule disp_inv_restart)
  note ok = emit_levels_inv [OF this]
  show ?thesis
  proof (cases r)
    case (Inl e)
    let ?d1 = "d\<lparr> validation_books := (validation_books d)(a := None) \<rparr>"
    have "commit_snapshot d a rv ex eid bs as = send ?d1 (ingest_marker ?d1 a SourceReset rv ex eid None
        (''book snapshot dropped: '' @ book_error_display e))"
      unfolding commit_snapshot_def Let_def ap Inl prod.case sum.case ..
    moreover have "disp_inv ?d1" using disp_inv_books [OF assms, of None a] by simp
    ultimately show ?thesis by (simp only: send_inv not_book_simps)
  next
    case (Inr u)
    have "commit_snapshot d a rv ex eid bs as = emit_levels a rv ex eid
        (map (\<lambda>(p, z). (Bid, p, z)) bs @ map (\<lambda>(p, z). (Ask, p, z)) as)
        (?d3\<lparr> asset_sequences := (asset_sequences ?d3)(a \<mapsto> 0) \<rparr>)"
      unfolding commit_snapshot_def Let_def ap Inr prod.case sum.case ..
    then show ?thesis by (simp only: ok)
  qed
qed

lemma dispatch_book_inv: "disp_inv d \<Longrightarrow> disp_inv (fst (dispatch_book d rv m))"
proof -
  assume inv: "disp_inv d"
  obtain d1 a where int: "intern_asset_id d (bm_asset_id m) = (d1, a)"
    by (cases "intern_asset_id d (bm_asset_id m)")
  have d1: "disp_inv d1" using intern_inv [OF inv int] by simp
  have mk: "disp_inv (fst (send d1 (ingest_marker d1 a k rv ex eid sq det)))" for k ex eid sq det
    using d1 by (simp only: send_inv not_book_simps)
  have cm: "disp_inv (fst (commit_snapshot d1 a rv ex eid bs as))" for ex eid bs as
    using d1 by (rule commit_snapshot_inv)
  show ?thesis
    unfolding dispatch_book_def int prod.case Let_def
    by (simp only: mk cm d1 fst_conv split: if_split option.split sum.split) simp
qed

lemma price_change_step_inv:
  assumes "disp_inv d"
  shows "\<exists>d' r. price_change_step rv ex le i e d = Some (d', r) \<and> disp_inv d'"
proof (cases "parse_side (pce_side e)")
  case None
  with assms show ?thesis by (simp add: price_change_step_def)
next
  case (Some s)
  note s = this
  obtain d1 a where int: "intern_asset_id d (pce_asset_id e) = (d1, a)"
    by (cases "intern_asset_id d (pce_asset_id e)")
  with assms intern_inv have d1: "disp_inv d1" by blast
  show ?thesis
  proof (cases "\<exists>p z. price_try_from (pce_price e) = Inr p \<and> size_try_from (pce_size e) = Inr z")
    case False
    with s int d1 show ?thesis by (auto simp: price_change_step_def split: sum.splits)
  next
    case True
    then obtain p z where pz: "price_try_from (pce_price e) = Inr p" "size_try_from (pce_size e) = Inr z" by blast
    obtain d2 sq where nx: "next_sequence_for d1 a = (d2, sq)" by (cases "next_sequence_for d1 a")
    obtain d3 r where sd: "send d2 (book_record d2 a Delta s p z rv ex (pce_hash e) sq) = (d3, r)"
      by (cases "send d2 (book_record d2 a Delta s p z rv ex (pce_hash e) sq)")
    have d3: "disp_inv d3" using emit_inv [OF d1 nx, of Delta s p z rv ex "pce_hash e"] sd by simp
    show ?thesis
    proof (cases r)
      case (Inl err)
      with s int pz nx sd d3 show ?thesis by (simp add: price_change_step_def)
    next
      case (Inr u)
      show ?thesis
      proof (cases "validation_books d3 a")
        case None
        with s int pz nx sd Inr d3 show ?thesis by (simp add: price_change_step_def)
      next
        case (Some b)
        then have "book_inv b" using d3 by (simp add: disp_inv_def)
        then obtain b' r' where ap: "try_apply_delta b s p z sq ex = Some (b', r')" "book_inv b'"
          using book_delta_inv by blast
        let ?d4 = "d3\<lparr> validation_books := (validation_books d3)(a \<mapsto> b') \<rparr>"
        have d4: "disp_inv ?d4" "disp_inv (d3\<lparr> validation_books := (validation_books d3)(a := None) \<rparr>)"
          using disp_inv_books [OF d3, of "Some b'" a] disp_inv_books [OF d3, of None a] ap(2) by simp_all
        have d5: "disp_inv (request_resnapshot ?d4 a)"
          using d4(1) by (auto simp: request_resnapshot_def split: option.splits nat.splits)
        have "case price_change_step rv ex le i e d of None \<Rightarrow> False | Some x \<Rightarrow> disp_inv (fst x)"
          unfolding price_change_step_def
          using s int pz nx sd Inr Some ap d4 d5
          by (auto simp: Let_def send_inv split: sum.splits option.splits elim: send_inv_pair)
        then show ?thesis by (auto split: option.splits)
      qed
    qed
  qed
qed

lemma price_change_loop_inv:
  "disp_inv d \<Longrightarrow> \<exists>d' r. price_change_loop rv ex le es d = Some (d', r) \<and> disp_inv d'"
proof (induction rv ex le es d rule: price_change_loop.induct)
  case (2 rv ex le i e es d)
  from price_change_step_inv [OF 2(2), of rv ex le i e] obtain d1 r where
    st: "price_change_step rv ex le i e d = Some (d1, r)" "disp_inv d1" by blast
  with 2(1) show ?case by (cases r) auto
qed simp

lemma dispatch_inv:
  assumes "disp_inv d"
  shows "\<exists>d' r. dispatch J d m = Some (d', r) \<and> disp_inv d'"
proof (cases m)
  case (FeedLifecycle ev)
  have fstI: "\<exists>d' r. Some x = Some (d', r) \<and> disp_inv d'" if "disp_inv (fst x)" for x :: dispatch_result
    using that by (cases x) simp
  let ?d = "if lc_kind ev = LcReconnectSuccess
    then reset_continuity_state (d\<lparr> current_session_id := Some (lc_session_id ev) \<rparr>) else d"
  have d: "disp_inv ?d" using assms disp_inv_reset [of "d\<lparr> current_session_id := Some (lc_session_id ev) \<rparr>"] by simp
  have two: "disp_inv (fst (case send ?d r1 of (d1, Inl e) \<Rightarrow> (d1, Inl e)
      | (d1, Inr _) \<Rightarrow> if c then send d1 r2 else (d1, Inr ())))" if "not_book r1" "not_book r2" for r1 r2 c
    using send_inv [OF d that(1)] send_inv [of _ r2] that(2) by (auto split: prod.splits sum.splits)
  show ?thesis
    unfolding FeedLifecycle dispatch_def feed_message.case dispatch_lifecycle_def Let_def
    by (intro fstI two) simp_all
next
  case (FeedRaw raw)
  show ?thesis
  proof (cases "J (raw_text raw)")
    case (Inl e)
    with FeedRaw assms show ?thesis by (simp add: dispatch_def dispatch_raw_def)
  next
    case (Inr msg)
    have tr: "disp_inv (fst (dispatch_trade d rv t))" for rv t
      using assms by (cases "intern_asset_id d (lt_asset_id t)")
        (auto simp: dispatch_trade_def Let_def send_inv dest: intern_inv split: sum.splits)
    show ?thesis
    proof (cases msg)
      case (WsBook b)
      with FeedRaw Inr dispatch_book_inv [OF assms, of "raw_recv_timestamp_us raw" b] show ?thesis
        by (cases "dispatch_book d (raw_recv_timestamp_us raw) b") (simp add: dispatch_def dispatch_raw_def)
    next
      case (WsPriceChange pc)
      with FeedRaw Inr assms price_change_loop_inv show ?thesis
        by (simp add: dispatch_def dispatch_raw_def dispatch_price_change_def)
    next
      case (WsLastTradePrice t)
      with FeedRaw Inr tr [of "raw_recv_timestamp_us raw" t] show ?thesis
        by (cases "dispatch_trade d (raw_recv_timestamp_us raw) t") (simp add: dispatch_def dispatch_raw_def)
    next
      case (WsTickSizeChange t)
      with FeedRaw Inr assms show ?thesis by (simp add: dispatch_def dispatch_raw_def)
    qed
  qed
qed

interpretation disp: machine "dispatch J" disp_inv "\<lambda>_. True"
  for J :: "string \<Rightarrow> string + ws_message"
  by unfold_locales (use dispatch_inv in fast)

lemma disp_inv_new [simp]: "disp_inv (dispatcher_new q room)"
  by (simp add: disp_inv_def dispatcher_new_def counters_ok_def seqs_of_def seq_chain_def)

section \<open>Totality and sequence numbers\<close>

lemma run_dispatcher_inv:
  "disp_inv d \<Longrightarrow> \<exists>d' r. run_dispatcher J d ms = Some (d', r) \<and> disp_inv d' \<and> (r = Inr () \<or> r = Inl ChannelSend)"
proof (induction ms arbitrary: d)
  case (Cons m ms)
  obtain d1 r where "dispatch J d m = Some (d1, r)" "disp_inv d1"
    using disp.step_total [OF Cons.prems TrueI] by blast
  with Cons.IH [of d1] show ?case
    by (cases r rule: sum.exhaust) (auto split: feed_error.splits)
qed simp


definition one_level_json :: "string \<Rightarrow> string + ws_message" where
  "one_level_json t =
     (if t = ''b'' then Inr (WsBook \<lparr> bm_asset_id = ''a'', bm_market = None, bm_timestamp = Some ''1700000000000'',
        bm_bids = [\<lparr> oe_price = ''0.4'', oe_size = ''10'' \<rparr>], bm_asks = [\<lparr> oe_price = ''0.6'', oe_size = ''5'' \<rparr>], bm_hash = None \<rparr>)
      else Inl ''unknown'')"


end
