(* ===== verification/DispatchBooks.thy ===== *)
theory DispatchBooks
  imports Dispatcher
begin

text \<open>
  What the snapshot handler of \<open>crates/pb-feed/src/dispatcher.rs\<close> promises: a venue snapshot takes
  effect completely or not at all.
\<close>

section \<open>Snapshots: all of it or a marker\<close>

definition snapshot_records :: "dispatcher \<Rightarrow> asset_id \<Rightarrow> u64 \<Rightarrow> u64 \<Rightarrow> string option \<Rightarrow> nat \<Rightarrow>
    (side \<times> fixed_price \<times> fixed_size) list \<Rightarrow> persisted_record list" where
  "snapshot_records d a rv ex eid n ls =
     map (\<lambda>(i, s, p, z). book_record d a Snapshot s p z rv ex eid (Sequence (of_nat i))) (enumerate n ls)"

definition side_levels :: "book_side \<Rightarrow> book_side \<Rightarrow> (side \<times> fixed_price \<times> fixed_size) list" where
  "side_levels bs as = map (\<lambda>(p, z). (Bid, p, z)) bs @ map (\<lambda>(p, z). (Ask, p, z)) as"

lemma emit_levels_sent:
  "emit_levels a rv ex eid ls d = (d', r) \<Longrightarrow> asset_sequences d a = Some (of_nat n) \<Longrightarrow> r \<noteq> Inl ChannelSend \<Longrightarrow>
    r = Inr () \<and> validation_books d' = validation_books d \<and> last_snapshot_ts d' = last_snapshot_ts d \<and>
    last_snapshot_hash d' = last_snapshot_hash d \<and>
    asset_sequences d' = (asset_sequences d)(a \<mapsto> of_nat (n + length ls)) \<and>
    sent d' = sent d @ snapshot_records d a rv ex eid n ls"
proof (induction ls arbitrary: d n)
  case Nil
  then show ?case by (auto simp: snapshot_records_def fun_eq_iff)
next
  case (Cons l ls)
  obtain s p z where l: "l = (s, p, z)" by (cases l)
  let ?d1 = "d\<lparr> asset_sequences := (asset_sequences d)(a \<mapsto> of_nat (Suc n)) \<rparr>"
  have nx: "next_sequence_for d a = (?d1, Sequence (of_nat n))"
    using Cons.prems by (simp add: next_sequence_for_def add.commute)
  let ?r = "book_record ?d1 a Snapshot s p z rv ex eid (Sequence (of_nat n))"
  show ?case
  proof (cases rule: send_cases [of ?d1 ?r])
    case 1
    with nx l Cons.prems show ?thesis by auto
  next
    case (2 room)
    let ?d2 = "?d1\<lparr> sent := sent ?d1 @ [?r], tx_room := room \<rparr>"
    have "emit_levels a rv ex eid ls ?d2 = (d', r)" using nx 2 l Cons.prems by simp
    moreover have "asset_sequences ?d2 a = Some (of_nat (Suc n))" by simp
    ultimately have IH: "r = Inr () \<and> validation_books d' = validation_books ?d2 \<and>
      last_snapshot_ts d' = last_snapshot_ts ?d2 \<and> last_snapshot_hash d' = last_snapshot_hash ?d2 \<and>
      asset_sequences d' = (asset_sequences ?d2)(a \<mapsto> of_nat (Suc n + length ls)) \<and>
      sent d' = sent ?d2 @ snapshot_records ?d2 a rv ex eid (Suc n) ls"
      using Cons.prems(3) by (rule Cons.IH)
    have "sent ?d2 @ snapshot_records ?d2 a rv ex eid (Suc n) ls = sent d @ snapshot_records d a rv ex eid n (l # ls)"
      by (simp add: l snapshot_records_def book_record_def make_provenance_def)
    with IH show ?thesis by simp
  qed
qed

text \<open>When a snapshot message is accepted, and with which levels.\<close>

definition snapshot_stale :: "dispatcher \<Rightarrow> asset_id \<Rightarrow> u64 \<Rightarrow> bool" where
  "snapshot_stale d a exch \<longleftrightarrow> exch \<noteq> 0 \<and> (case last_snapshot_ts d a of None \<Rightarrow> False | Some t \<Rightarrow> exch < t)"

definition accepted_snapshot :: "dispatcher \<Rightarrow> book_message \<Rightarrow> (book_side \<times> book_side) option" where
  "accepted_snapshot d m =
     (if length (bm_bids m) \<le> MAX_BOOK_LEVELS_PER_SIDE \<and> length (bm_asks m) \<le> MAX_BOOK_LEVELS_PER_SIDE \<and>
         \<not> snapshot_stale d (bm_asset_id m) (parse_timestamp_us (bm_timestamp m)) \<and>
         (bm_hash m = None \<or> last_snapshot_hash d (bm_asset_id m) \<noteq> bm_hash m)
      then (case (convert_levels (bm_bids m), convert_levels (bm_asks m)) of
              (Inr bs, Inr as) \<Rightarrow>
                if spec_levels Map.empty bs = None \<or> spec_levels Map.empty as = None then None
                else Some (bs, as)
            | _ \<Rightarrow> None)
      else None)"

text \<open>What can come of a snapshot message: at most one marker, or all of it.\<close>

definition snapshot_ignored :: "dispatcher \<Rightarrow> asset_id \<Rightarrow> dispatcher \<Rightarrow> bool" where
  "snapshot_ignored d a d' \<longleftrightarrow> (sent d' = sent d \<or> (\<exists>i. sent d' = sent d @ [Ingest i])) \<and>
     asset_sequences d' = asset_sequences d \<and> last_snapshot_ts d' = last_snapshot_ts d \<and>
     last_snapshot_hash d' = last_snapshot_hash d \<and>
     (validation_books d' = validation_books d \<or> validation_books d' = (validation_books d)(a := None))"

definition snapshot_committed :: "dispatcher \<Rightarrow> asset_id \<Rightarrow> u64 \<Rightarrow> u64 \<Rightarrow> string option \<Rightarrow> book_side \<Rightarrow> book_side \<Rightarrow>
    dispatcher \<Rightarrow> bool" where
  "snapshot_committed d a rv ex eid bs as d' \<longleftrightarrow>
     sent d' = sent d @ snapshot_records d a rv ex eid 0 (side_levels bs as) \<and>
     (\<exists>b. validation_books d' = (validation_books d)(a \<mapsto> b) \<and> book_bid b = snapshot_content bs \<and> book_ask b = snapshot_content as) \<and>
     asset_sequences d' = (asset_sequences d)(a \<mapsto> of_nat (length bs + length as)) \<and>
     last_snapshot_ts d' = (if ex \<noteq> 0 then (last_snapshot_ts d)(a \<mapsto> ex) else last_snapshot_ts d) \<and>
     last_snapshot_hash d' = (if eid = None then last_snapshot_hash d else (last_snapshot_hash d)(a := eid))"

lemma ingest_marker_is_ingest: "\<exists>i. ingest_marker d a k rv ex eid sq det = Ingest i"
  by (simp add: ingest_marker_def)

lemma send_marker_ignored:
  assumes "sent d1 = sent d" "asset_sequences d1 = asset_sequences d" "last_snapshot_ts d1 = last_snapshot_ts d"
    "last_snapshot_hash d1 = last_snapshot_hash d"
    "validation_books d1 = validation_books d \<or> validation_books d1 = (validation_books d)(a := None)"
  shows "snapshot_ignored d a (fst (send d1 (ingest_marker d2 b k rv ex eid sq det)))"
  using assms ingest_marker_is_ingest [of d2 b k rv ex eid sq det]
  by (cases rule: send_cases [of d1 "ingest_marker d2 b k rv ex eid sq det"]) (auto simp: snapshot_ignored_def)

lemma apply_snapshot_content:
  assumes "try_apply_snapshot b bs as sq ts = (b', Inr ())"
  shows "book_bid b' = snapshot_content bs \<and> book_ask b' = snapshot_content as"
  using snapshot_sides [OF assms] by simp


lemma commit_snapshot_outcome:
  assumes "commit_snapshot d a rv ex eid bs as = (d', r)" "r \<noteq> Inl ChannelSend"
  shows "if spec_levels Map.empty bs = None \<or> spec_levels Map.empty as = None then snapshot_ignored d a d'
    else r = Inr () \<and> snapshot_committed d a rv ex eid bs as d'"
proof -
  let ?book = "case validation_books d a of Some b \<Rightarrow> b | None \<Rightarrow> book_new a"
  obtain b' r1 where ap: "try_apply_snapshot ?book bs as seq_default ex = (b', r1)"
    by (cases "try_apply_snapshot ?book bs as seq_default ex")
  note iff = snapshot_rejected_iff [of ?book bs as seq_default ex, unfolded ap snd_conv]
  show ?thesis
  proof (cases r1)
    case (Inl e)
    let ?d1 = "d\<lparr> validation_books := (validation_books d)(a := None) \<rparr>"
    have "\<exists>det. send ?d1 (ingest_marker ?d1 a SourceReset rv ex eid None det) = (d', r)"
      using ap assms Inl by (auto simp: commit_snapshot_def Let_def)
    then have "snapshot_ignored d a d'"
      using send_marker_ignored [of ?d1 d a ?d1] by (auto dest: arg_cong [where f = fst] simp del: fst_conv) (metis fst_conv)
    with iff Inl show ?thesis by simp
  next
    case (Inr u)
    let ?d1 = "d\<lparr> validation_books := (validation_books d)(a \<mapsto> b') \<rparr>"
    let ?d2 = "if ex \<noteq> 0 then ?d1\<lparr> last_snapshot_ts := (last_snapshot_ts ?d1)(a \<mapsto> ex) \<rparr> else ?d1"
    let ?d3 = "case eid of Some h \<Rightarrow> ?d2\<lparr> last_snapshot_hash := (last_snapshot_hash ?d2)(a \<mapsto> h) \<rparr> | None \<Rightarrow> ?d2"
    let ?d4 = "?d3\<lparr> asset_sequences := (asset_sequences ?d3)(a \<mapsto> 0) \<rparr>"
    have em: "emit_levels a rv ex eid (side_levels bs as) ?d4 = (d', r)"
      using assms ap Inr by (simp add: commit_snapshot_def Let_def side_levels_def)
    have f: "sent ?d4 = sent d" "validation_books ?d4 = (validation_books d)(a \<mapsto> b')"
      "current_session_id ?d4 = current_session_id d"
      "last_snapshot_ts ?d4 = (if ex \<noteq> 0 then (last_snapshot_ts d)(a \<mapsto> ex) else last_snapshot_ts d)"
      "last_snapshot_hash ?d4 = (if eid = None then last_snapshot_hash d else (last_snapshot_hash d)(a := eid))"
      "asset_sequences ?d4 = (asset_sequences d)(a \<mapsto> 0)"
      by (auto split: option.splits)
    have rec: "snapshot_records ?d4 a rv ex eid 0 ls = snapshot_records d a rv ex eid 0 ls" for ls
      unfolding snapshot_records_def book_record_def make_provenance_def f(3) ..
    have len: "length (side_levels bs as) = length bs + length as"
      by (simp add: side_levels_def)
    have "asset_sequences ?d4 a = Some (of_nat 0)" by simp
    note sent = emit_levels_sent [OF em this assms(2), unfolded f rec len]
    moreover have "book_bid b' = snapshot_content bs \<and> book_ask b' = snapshot_content as"
      using snapshot_sides [of ?book bs as seq_default ex b'] ap Inr by simp
    ultimately have "snapshot_committed d a rv ex eid bs as d'"
      by (auto simp: snapshot_committed_def)
    with sent iff Inr show ?thesis by auto
  qed
qed

lemma intern_same:
  "disp_inv d \<Longrightarrow> intern_asset_id d s = (d1, a) \<Longrightarrow>
   a = s \<and> sent d1 = sent d \<and> asset_sequences d1 = asset_sequences d \<and> last_snapshot_ts d1 = last_snapshot_ts d \<and>
   last_snapshot_hash d1 = last_snapshot_hash d \<and> validation_books d1 = validation_books d \<and>
   tx_room d1 = tx_room d \<and> current_session_id d1 = current_session_id d"
  by (auto simp: intern_asset_id_def disp_inv_def split: option.splits)

lemma snapshot_ignored_refl: "snapshot_ignored d a d"
  by (simp add: snapshot_ignored_def)

lemma outcome_same:
  assumes "sent d1 = sent d" "asset_sequences d1 = asset_sequences d" "last_snapshot_ts d1 = last_snapshot_ts d"
    "last_snapshot_hash d1 = last_snapshot_hash d" "validation_books d1 = validation_books d"
    "current_session_id d1 = current_session_id d"
  shows "snapshot_ignored d1 a d' = snapshot_ignored d a d'"
    and "snapshot_committed d1 a rv ex eid bs as d' = snapshot_committed d a rv ex eid bs as d'"
  using assms
  by (simp_all add: snapshot_ignored_def snapshot_committed_def snapshot_records_def book_record_def make_provenance_def)

lemma dispatch_book_outcome:
  assumes inv: "disp_inv d" and r: "dispatch_book d rv m = (d', r)" "r \<noteq> Inl ChannelSend"
  shows "case accepted_snapshot d m of
      None \<Rightarrow> snapshot_ignored d (bm_asset_id m) d'
    | Some (bs, as) \<Rightarrow> r = Inr () \<and>
        snapshot_committed d (bm_asset_id m) rv (parse_timestamp_us (bm_timestamp m)) (bm_hash m) bs as d'"
proof -
  let ?ts = "parse_timestamp_us (bm_timestamp m)" and ?a = "bm_asset_id m"
  obtain d1 a where int: "intern_asset_id d ?a = (d1, a)" by (cases "intern_asset_id d ?a")
  note same = intern_same [OF inv int]
  have a: "a = ?a" using same by simp
  have ig: "snapshot_ignored d1 a d'" if "send d1 (ingest_marker d1 a k rv ex eid sq det) = (d', r)" for k ex eid sq det
    using send_marker_ignored [of d1 d1 a d1 a k rv ex eid sq det] that by simp
  let ?big = "MAX_BOOK_LEVELS_PER_SIDE < length (bm_bids m) \<or> MAX_BOOK_LEVELS_PER_SIDE < length (bm_asks m)"
  let ?st = "if ?ts \<noteq> 0 then (case last_snapshot_ts d1 a of Some last_ts \<Rightarrow> if ?ts < last_ts then Some last_ts else None | None \<Rightarrow> None)
       else None"
  let ?dup = "bm_hash m \<noteq> None \<and> last_snapshot_hash d1 a = bm_hash m"
  have stale: "snapshot_stale d a ?ts \<longleftrightarrow> ?st \<noteq> None"
    using same by (auto simp: snapshot_stale_def split: option.splits)
  have acc: "accepted_snapshot d m = (if ?big \<or> ?st \<noteq> None \<or> ?dup then None
      else (case (convert_levels (bm_bids m), convert_levels (bm_asks m)) of
              (Inr bs, Inr as) \<Rightarrow>
                if spec_levels Map.empty bs = None \<or> spec_levels Map.empty as = None then None
                else Some (bs, as)
            | _ \<Rightarrow> None))"
    unfolding accepted_snapshot_def a [symmetric] stale using same by auto
  note eq = r(1) [unfolded dispatch_book_def Let_def int prod.case]
  have "case accepted_snapshot d m of None \<Rightarrow> snapshot_ignored d1 a d'
    | Some (bs, as) \<Rightarrow> r = Inr () \<and> snapshot_committed d1 a rv ?ts (bm_hash m) bs as d'"
  proof (cases "?big \<or> ?st \<noteq> None \<or> ?dup")
    case True
    then have "accepted_snapshot d m = None" using acc by simp
    moreover have "snapshot_ignored d1 a d'"
    proof (cases ?big)
      case True
      with eq ig show ?thesis by simp
    next
      case nbig: False
      show ?thesis
      proof (cases ?st)
        case None
        with nbig True eq show ?thesis by (simp add: snapshot_ignored_refl del: not_None_eq)
      next
        case (Some t)
        with nbig eq ig show ?thesis by simp
      qed
    qed
    ultimately show ?thesis by simp
  next
    case False
    then have nb: "\<not> ?big" and ns: "?st = None" and nd: "\<not> ?dup" by blast+
    note eq = eq [unfolded if_not_P [OF nb] ns option.case if_not_P [OF nd]]
    note acc = acc [unfolded if_not_P [OF False]]
    show ?thesis
    proof (cases "convert_levels (bm_bids m)")
      case (Inl e)
      with eq ig acc show ?thesis by simp
    next
      case (Inr bs)
      note bs = this
      show ?thesis
      proof (cases "convert_levels (bm_asks m)")
        case (Inl e)
        with bs eq ig acc show ?thesis by simp
      next
        case (Inr as)
        with bs eq have "commit_snapshot d1 a rv ?ts (bm_hash m) bs as = (d', r)" by simp
        from commit_snapshot_outcome [OF this r(2)] acc bs Inr show ?thesis
          by (simp split: if_splits)
      qed
    qed
  qed
  then show ?thesis
    using outcome_same [of d1 d] same a by (auto split: option.splits prod.splits)
qed

text \<open>With an open channel no send fails.\<close>

lemma send_open: "tx_room d = None \<Longrightarrow> send d r = (d\<lparr> sent := sent d @ [r] \<rparr>, Inr ())"
  by (simp add: send_def)

lemma emit_levels_open:
  "tx_room d = None \<Longrightarrow> snd (emit_levels a rv ex eid ls d) = Inr ()"
proof (induction a rv ex eid ls d rule: emit_levels.induct)
  case (2 a rv ex eid s p z ls d)
  then show ?case by (simp add: next_sequence_for_def send_open split: option.splits)
qed simp

lemma dispatch_book_open:
  assumes "tx_room d = None"
  shows "snd (dispatch_book d rv m) = Inr ()"
proof -
  obtain d1 a where int: "intern_asset_id d (bm_asset_id m) = (d1, a)" by (cases "intern_asset_id d (bm_asset_id m)")
  then have d1: "tx_room d1 = None" using assms by (auto simp: intern_asset_id_def split: option.splits)
  have "snd (commit_snapshot d1 a rv ex eid bs as) = Inr ()" for ex eid bs as
    by (auto simp: commit_snapshot_def Let_def send_open emit_levels_open d1 split: sum.splits option.splits prod.splits)
  then show ?thesis
    by (simp add: dispatch_book_def int Let_def send_open d1 split: sum.splits option.splits)
qed


definition two_level_message :: "string \<Rightarrow> string \<Rightarrow> book_message" where
  "two_level_message ts ask_size = \<lparr> bm_asset_id = ''a'', bm_market = None, bm_timestamp = Some ts,
     bm_bids = [\<lparr> oe_price = ''0.4'', oe_size = ''10'' \<rparr>], bm_asks = [\<lparr> oe_price = ''0.6'', oe_size = ask_size \<rparr>],
     bm_hash = Some ''h'' \<rparr>"

lemma two_level_accepted:
  "accepted_snapshot (dispatcher_new None None) (two_level_message ''1700000000000'' ''7'') =
     Some ([(FixedPrice 4000, FixedSize 10000000)], [(FixedPrice 6000, FixedSize 7000000)])"
  "accepted_snapshot (dispatcher_new None None) (two_level_message ''1700000000000'' ''x'') = None"
  "parse_timestamp_us (bm_timestamp (two_level_message ''1700000000000'' s)) = 1700000000000000"
proof -
  let ?d = "dispatcher_new None None"
  let ?m = "two_level_message ''1700000000000''"
  have acc: "convert_levels (bm_bids (?m s)) = Inr [(FixedPrice 4000, FixedSize 10000000)]"
    "convert_levels (bm_asks (?m ''7'')) = Inr [(FixedPrice 6000, FixedSize 7000000)]"
    "convert_levels (bm_asks (?m ''x'')) = Inl (SizeParse ''x'')"
    "parse_timestamp_us (bm_timestamp (?m s)) = 1700000000000000" for s
    by (simp_all only: two_level_message_def book_message.simps) code_simp+
  have fits: "spec_levels Map.empty [(FixedPrice 4000, FixedSize 10000000)] \<noteq> None"
    "spec_levels Map.empty [(FixedPrice 6000, FixedSize 7000000)] \<noteq> None"
    by (simp_all add: spec_delta_def map_weight_def size_is_zero_def)
  have m: "bm_asset_id (?m s) = ''a''" "bm_hash (?m s) = Some ''h''" "length (bm_bids (?m s)) = 1" "length (bm_asks (?m s)) = 1" for s
    by (simp_all add: two_level_message_def)
  have new: "last_snapshot_ts ?d = Map.empty" "last_snapshot_hash ?d = Map.empty" "tx_room ?d = None"
    by (simp_all add: dispatcher_new_def)
  show "accepted_snapshot ?d (?m ''7'') = Some ([(FixedPrice 4000, FixedSize 10000000)], [(FixedPrice 6000, FixedSize 7000000)])"
    "accepted_snapshot ?d (?m ''x'') = None"
    using fits by (auto simp: accepted_snapshot_def snapshot_stale_def acc m new MAX_BOOK_LEVELS_PER_SIDE_def)
  show "parse_timestamp_us (bm_timestamp (?m s)) = 1700000000000000" by (rule acc(4))
qed


end
