(* ===== verification/ShadowBook.thy ===== *)
theory ShadowBook
  imports DispatchBooks
begin

text \<open>
  The shadow books of \<open>crates/pb-feed/src/dispatcher.rs\<close>: the book the dispatcher compares with
  the venue is the book a consumer rebuilds from its records, and the comparison is exact.
\<close>

section \<open>The shadow book and the emitted records\<close>

text \<open>
  What a consumer of the records of one asset rebuilds: the record numbered zero of a snapshot
  starts a new book, the other records set a level. A snapshot level of size zero is no level.
\<close>

definition level_put :: "side \<Rightarrow> fixed_price \<Rightarrow> fixed_size option \<Rightarrow> price_map \<times> price_map \<Rightarrow> price_map \<times> price_map" where
  "level_put s p z c = (case s of Bid \<Rightarrow> ((fst c)(p := z), snd c) | Ask \<Rightarrow> (fst c, (snd c)(p := z)))"

definition apply_record :: "asset_id \<Rightarrow> persisted_record \<Rightarrow> price_map \<times> price_map \<Rightarrow> price_map \<times> price_map" where
  "apply_record a rec c =
     (case rec of
        Book e \<Rightarrow>
          if be_asset_id e \<noteq> a then c
          else
            let empty_size = size_is_zero (be_size e)
            in (case be_kind e of
                  Snapshot \<Rightarrow>
                    let c1 = (if prov_sequence (be_provenance e) = Some (Sequence 0) then (Map.empty, Map.empty) else c)
                    in if empty_size then c1 else level_put (be_side e) (be_price e) (Some (be_size e)) c1
                | Delta \<Rightarrow> level_put (be_side e) (be_price e) (if empty_size then None else Some (be_size e)) c)
      | _ \<Rightarrow> c)"

definition rebuilt_book :: "asset_id \<Rightarrow> persisted_record list \<Rightarrow> price_map \<times> price_map" where
  "rebuilt_book a recs = fold (apply_record a) recs (Map.empty, Map.empty)"

definition book_content :: "l2book \<Rightarrow> price_map \<times> price_map" where
  "book_content b = (book_bid b, book_ask b)"

definition shadow_ok :: "dispatcher \<Rightarrow> bool" where
  "shadow_ok d \<longleftrightarrow> (\<forall>a b. validation_books d a = Some b \<longrightarrow> book_content b = rebuilt_book a (sent d))"

lemma rebuilt_snoc: "rebuilt_book a (recs @ [r]) = apply_record a r (rebuilt_book a recs)"
  by (simp add: rebuilt_book_def)

lemma apply_not_book: "not_book r \<Longrightarrow> apply_record a r c = c"
  by (simp add: not_book_def apply_record_def split: persisted_record.splits)

lemma book_delta_content:
  assumes "book_inv b" "try_apply_delta b s p z sq ts = Some (b', Inr ())"
  shows "book_content b' = level_put s p (if size_is_zero z then None else Some z) (book_content b)"
proof -
  have "spec_step (book_abs b) (OpDelta s p z sq ts) = (book_abs b', Inr ())"
    using book_step_refines [OF assms(1), of "OpDelta s p z sq ts"] assms(2) by simp
  then show ?thesis
    by (cases s)
      (auto simp: book_abs_def book_content_def level_put_def book_bid_def [abs_def] book_ask_def [abs_def]
        spec_delta_def fun_eq_iff split: option.splits if_splits)
qed

text \<open>The records of a snapshot rebuild exactly its content.\<close>

lemma snapshot_content_Cons:
  "snapshot_content ((p, z) # ls) =
     (if size_is_zero z then snapshot_content ls else [p \<mapsto> z] ++ snapshot_content ls)"
  by (auto simp: snapshot_content_def fun_eq_iff map_add_def split: option.splits)

definition side_put :: "(side \<times> fixed_price \<times> fixed_size) \<Rightarrow> price_map \<times> price_map \<Rightarrow> price_map \<times> price_map" where
  "side_put l c = (case l of (s, p, z) \<Rightarrow> if size_is_zero z then c else level_put s p (Some z) c)"

lemma side_put_simp [simp]: "side_put (s, p, z) c = (if size_is_zero z then c else level_put s p (Some z) c)"
  by (simp add: side_put_def)

lemma fold_bids: "fold side_put (map (Pair Bid) bs) c = (fst c ++ snapshot_content bs, snd c)"
proof (induction bs arbitrary: c)
  case (Cons l bs)
  then show ?case by (cases l) (simp add: snapshot_content_Cons level_put_def)
qed (simp add: snapshot_content_def)

lemma fold_asks: "fold side_put (map (Pair Ask) as) c = (fst c, snd c ++ snapshot_content as)"
proof (induction as arbitrary: c)
  case (Cons l as)
  then show ?case by (cases l) (simp add: snapshot_content_Cons level_put_def)
qed (simp add: snapshot_content_def)

lemma side_levels_Pair: "side_levels bs as = map (Pair Bid) bs @ map (Pair Ask) as"
  by (simp add: side_levels_def)

lemma snapshot_fold:
  "0 < n \<Longrightarrow> n + length ls \<le> 2 ^ 64 \<Longrightarrow>
   fold (apply_record a) (snapshot_records d a rv ex eid n ls) c = fold side_put ls c"
proof (induction ls arbitrary: n c)
  case (Cons l ls)
  obtain s p z where l: "l = (s, p, z)" by (cases l)
  have "(of_nat n :: u64) \<noteq> 0"
    using Cons.prems nat_dvd_not_less [of n "2 ^ 64"] by (simp add: word_of_nat_eq_0_iff)
  then have "apply_record a (book_record d a Snapshot s p z rv ex eid (Sequence (of_nat n))) c = side_put l c"
    by (simp add: l apply_record_def book_record_def make_provenance_def side_put_def)
  with Cons show ?case by (simp add: snapshot_records_def l)
qed (simp add: snapshot_records_def)

lemma rebuilt_snapshot:
  assumes "side_levels bs as \<noteq> []" "length bs + length as \<le> 2 ^ 64"
  shows "rebuilt_book a (recs @ snapshot_records d a rv ex eid 0 (side_levels bs as)) =
    (snapshot_content bs, snapshot_content as)"
proof -
  obtain l ls where ls: "side_levels bs as = l # ls" using assms(1) by (cases "side_levels bs as") auto
  obtain s p z where l: "l = (s, p, z)" by (cases l)
  have len: "length (l # ls) \<le> 2 ^ 64" using assms(2) arg_cong [OF ls, of length] by (simp add: side_levels_def)
  have "apply_record a (book_record d a Snapshot s p z rv ex eid (Sequence 0)) c = side_put l (Map.empty, Map.empty)" for c
    by (simp add: l apply_record_def book_record_def make_provenance_def side_put_def)
  then have "rebuilt_book a (recs @ snapshot_records d a rv ex eid 0 (side_levels bs as)) =
      fold side_put (side_levels bs as) (Map.empty, Map.empty)"
    using snapshot_fold [of 1 ls a d rv ex eid] len
    by (simp add: rebuilt_book_def ls snapshot_records_def l)
  then show ?thesis by (simp add: side_levels_Pair fold_bids fold_asks)
qed

lemma rebuilt_other:
  "a' \<noteq> a \<Longrightarrow> rebuilt_book a' (recs @ snapshot_records d a rv ex eid n ls) = rebuilt_book a' recs"
proof (induction ls arbitrary: n recs)
  case (Cons l ls)
  obtain s p z where l: "l = (s, p, z)" by (cases l)
  let ?r = "book_record d a Snapshot s p z rv ex eid (Sequence (of_nat n))"
  have "apply_record a' ?r c = c" for c
    using Cons.prems by (simp add: apply_record_def book_record_def)
  then have "rebuilt_book a' (recs @ [?r]) = rebuilt_book a' recs" by (simp add: rebuilt_snoc)
  with Cons.IH [of "recs @ [?r]" "Suc n"] Cons.prems show ?case by (simp add: l snapshot_records_def)
qed (simp add: snapshot_records_def)

text \<open>What each handler does to the shadow book and the records.\<close>

lemma shadow_ok_same:
  assumes "shadow_ok d" "\<And>a. validation_books d' a = validation_books d a \<or> validation_books d' a = None"
    "sent d' = sent d \<or> (\<exists>r. not_book r \<and> sent d' = sent d @ [r])"
  shows "shadow_ok d'"
  unfolding shadow_ok_def
proof (intro allI impI)
  fix a b assume "validation_books d' a = Some b"
  then have "validation_books d a = Some b" using assms(2) [of a] by auto
  then have "book_content b = rebuilt_book a (sent d)" using assms(1) by (simp add: shadow_ok_def)
  then show "book_content b = rebuilt_book a (sent d')"
    using assms(3) by (auto simp: rebuilt_snoc apply_not_book)
qed

lemma send_shadow:
  assumes "shadow_ok d" "not_book r" "send d r = (d', x)"
  shows "shadow_ok d'"
proof (cases rule: send_cases [of d r])
  case 1
  with assms show ?thesis by simp
next
  case (2 room)
  with assms shadow_ok_same [of d d'] show ?thesis by auto
qed

lemma ignored_shadow:
  assumes "shadow_ok d" "snapshot_ignored d a d'"
  shows "shadow_ok d'"
proof (rule shadow_ok_same [OF assms(1)])
  show "validation_books d' x = validation_books d x \<or> validation_books d' x = None" for x
    using assms(2) by (auto simp: snapshot_ignored_def split: if_splits)
  show "sent d' = sent d \<or> (\<exists>r. not_book r \<and> sent d' = sent d @ [r])"
    using assms(2) not_book_simps(1) by (auto simp: snapshot_ignored_def)
qed

lemma committed_shadow:
  assumes ok: "shadow_ok d" and c: "snapshot_committed d a rv ex eid bs as d'"
    and ls: "bs \<noteq> [] \<or> as \<noteq> []" "length bs + length as \<le> 2 ^ 64"
  shows "shadow_ok d'"
  unfolding shadow_ok_def
proof (intro allI impI)
  fix a' b assume b: "validation_books d' a' = Some b"
  obtain b' where b': "validation_books d' = (validation_books d)(a \<mapsto> b')" "book_bid b' = snapshot_content bs"
      "book_ask b' = snapshot_content as" and sent: "sent d' = sent d @ snapshot_records d a rv ex eid 0 (side_levels bs as)"
    using c by (auto simp: snapshot_committed_def)
  have ne: "side_levels bs as \<noteq> []" using ls(1) by (auto simp: side_levels_def)
  show "book_content b = rebuilt_book a' (sent d')"
  proof (cases "a' = a")
    case True
    with b b' have "b = b'" by simp
    with b' show ?thesis unfolding sent True rebuilt_snapshot [OF ne ls(2)] book_content_def by simp
  next
    case False
    with b b' have "validation_books d a' = Some b" by simp
    with ok show ?thesis unfolding sent rebuilt_other [OF False] by (simp add: shadow_ok_def)
  qed
qed

lemma convert_levels_length: "convert_levels es = Inr ls \<Longrightarrow> length ls = length es"
  by (induction es arbitrary: ls) (auto split: sum.splits)

lemma dispatch_book_shadow:
  assumes "shadow_ok d" "disp_inv d" "dispatch_book d rv m = (d', r)" "r \<noteq> Inl ChannelSend"
    "bm_bids m \<noteq> [] \<or> bm_asks m \<noteq> []"
  shows "shadow_ok d'"
proof (cases "accepted_snapshot d m")
  case None
  with dispatch_book_outcome [OF assms(2-4)] ignored_shadow [OF assms(1)] show ?thesis by simp
next
  case (Some l)
  obtain bs as where l: "l = (bs, as)" by (cases l)
  have c: "snapshot_committed d (bm_asset_id m) rv (parse_timestamp_us (bm_timestamp m)) (bm_hash m) bs as d'"
    using dispatch_book_outcome [OF assms(2-4)] Some l by simp
  from Some l have conv: "convert_levels (bm_bids m) = Inr bs" "convert_levels (bm_asks m) = Inr as"
    and cap: "length (bm_bids m) \<le> 10000" "length (bm_asks m) \<le> 10000"
    by (auto simp: accepted_snapshot_def MAX_BOOK_LEVELS_PER_SIDE_def split: if_splits sum.splits)
  then have len: "length bs = length (bm_bids m)" "length as = length (bm_asks m)"
    using convert_levels_length by blast+
  then have "bs \<noteq> [] \<or> as \<noteq> []" using assms(5) by (metis length_0_conv)
  moreover have "length bs + length as \<le> 2 ^ 64" using len cap by simp
  ultimately show ?thesis using committed_shadow [OF assms(1) c] by blast
qed

lemma delta_shadow:
  assumes ok: "shadow_ok d" and sent: "sent d' = sent d @ [book_record dx a Delta s p z rv ex eid sq]"
    and books: "validation_books d' = (validation_books d)(a := nb)"
    and nb: "case nb of None \<Rightarrow> True | Some b' \<Rightarrow> (\<exists>b. validation_books d a = Some b \<and>
      book_content b' = level_put s p (if size_is_zero z then None else Some z) (book_content b))"
  shows "shadow_ok d'"
  unfolding shadow_ok_def
proof (intro allI impI)
  fix x b' assume b': "validation_books d' x = Some b'"
  let ?r = "book_record dx a Delta s p z rv ex eid sq"
  show "book_content b' = rebuilt_book x (sent d')"
  proof (cases "x = a")
    case True
    with b' books nb obtain b where "validation_books d a = Some b"
      "book_content b' = level_put s p (if size_is_zero z then None else Some z) (book_content b)" by auto
    moreover have "apply_record a ?r c = level_put s p (if size_is_zero z then None else Some z) c" for c
      by (simp add: apply_record_def book_record_def)
    ultimately show ?thesis using ok unfolding True sent rebuilt_snoc shadow_ok_def by simp
  next
    case False
    then have "apply_record x ?r c = c" for c by (simp add: apply_record_def book_record_def)
    moreover have "validation_books d x = Some b'" using False b' books by simp
    ultimately show ?thesis using ok unfolding sent rebuilt_snoc shadow_ok_def by simp
  qed
qed

lemma price_change_shadow:
  assumes ok: "shadow_ok d" and inv: "disp_inv d" and step: "price_change_step rv ex le i e d = Some (d', r)"
    and up: "r \<noteq> Inl ChannelSend"
  shows "shadow_ok d'"
proof (cases "parse_side (pce_side e)")
  case None
  with step ok show ?thesis by (simp add: price_change_step_def)
next
  case (Some s)
  note s = this
  obtain d1 a where int: "intern_asset_id d (pce_asset_id e) = (d1, a)"
    by (cases "intern_asset_id d (pce_asset_id e)")
  note same = intern_same [OF inv int]
  show ?thesis
  proof (cases "\<exists>p z. price_try_from (pce_price e) = Inr p \<and> size_try_from (pce_size e) = Inr z")
    case False
    then have "d' = d1" using s int step by (auto simp: price_change_step_def split: sum.splits)
    with same ok show ?thesis by (simp add: shadow_ok_def)
  next
    case True
    then obtain p z where pz: "price_try_from (pce_price e) = Inr p" "size_try_from (pce_size e) = Inr z" by blast
    obtain d2 sq where nx: "next_sequence_for d1 a = (d2, sq)" by (cases "next_sequence_for d1 a")
    let ?r = "book_record d2 a Delta s p z rv ex (pce_hash e) sq"
    obtain d3 r3 where sd: "send d2 ?r = (d3, r3)" by (cases "send d2 ?r")
    note go = step [unfolded price_change_step_def s option.case int prod.case pz sum.case nx sd]
    show ?thesis
    proof (cases rule: send_cases [of d2 ?r])
      case 1
      then have "r3 = Inl ChannelSend" using sd by simp
      with go up show ?thesis by simp
    next
      case (2 room)
      then have d3: "sent d3 = sent d @ [?r]" "validation_books d3 = validation_books d" "r3 = Inr ()"
        using sd same nx by (auto simp: next_sequence_for_def split: option.splits)
      note go = go [unfolded d3(3) sum.case]
      show ?thesis
      proof (cases "validation_books d3 a")
        case None
        then have d': "d' = d3" using go by simp
        have "validation_books d3 = (validation_books d)(a := None)" using None d3(2) by (auto simp: fun_eq_iff)
        then show ?thesis unfolding d' by (rule delta_shadow [OF ok d3(1)]) simp
      next
        case (Some b)
        note go = go [unfolded Some option.case]
        have "book_inv b" using inv Some d3(2) by (simp add: disp_inv_def)
        then obtain b' r' where ap: "try_apply_delta b s p z sq ex = Some (b', r')"
          using book_delta_inv by blast
        note go = go [unfolded ap option.case prod.case]
        show ?thesis
        proof (cases r')
          case (Inl err)
          let ?d4 = "d3\<lparr> validation_books := (validation_books d3)(a := None) \<rparr>"
          have "shadow_ok ?d4"
            by (rule delta_shadow [OF ok, of _ d2 a s p z rv ex "pce_hash e" sq None]) (simp_all add: d3)
          moreover obtain det where "send ?d4 (ingest_marker ?d4 a SourceReset rv ex (pce_hash e) (Some sq) det) = (d', r)"
            using go [unfolded Inl sum.case Let_def] by blast
          ultimately show ?thesis using send_shadow not_book_simps(3) by blast
        next
          case (Inr u)
          let ?d4 = "d3\<lparr> validation_books := (validation_books d3)(a \<mapsto> b') \<rparr>"
          have "book_content b' = level_put s p (if size_is_zero z then None else Some z) (book_content b)"
            using book_delta_content [OF \<open>book_inv b\<close>] ap Inr by simp
          then have d4: "shadow_ok ?d4"
            using Some by (intro delta_shadow [OF ok, of _ d2 a s p z rv ex "pce_hash e" sq "Some b'"]) (simp_all add: d3)
          show ?thesis
          proof (cases "if le (pce_asset_id e) = Some i then detect_book_mismatch b' (pce_best_bid e) (pce_best_ask e) else None")
            case None
            with go [unfolded Inr sum.case Let_def None option.case] d4 show ?thesis by simp
          next
            case (Some det)
            let ?d5 = "request_resnapshot ?d4 a"
            have "shadow_ok ?d5"
              using d4 by (auto simp: shadow_ok_def request_resnapshot_def split: option.splits nat.splits)
            moreover have "send ?d5 (ingest_marker ?d5 a BookMismatch rv ex (pce_hash e) (Some sq) det) = (d', r)"
              using go [unfolded Inr sum.case Let_def Some option.case] by simp
            ultimately show ?thesis using send_shadow not_book_simps(3) by blast
          qed
        qed
      qed
    qed
  qed
qed

lemma price_loop_shadow:
  "shadow_ok d \<Longrightarrow> disp_inv d \<Longrightarrow> price_change_loop rv ex le es d = Some (d', r) \<Longrightarrow> r \<noteq> Inl ChannelSend \<Longrightarrow> shadow_ok d'"
proof (induction rv ex le es d rule: price_change_loop.induct)
  case (2 rv ex le i e es d)
  obtain d1 r1 where step: "price_change_step rv ex le i e d = Some (d1, r1)" "disp_inv d1"
    using price_change_step_inv [OF 2(3)] by blast
  show ?case
  proof (cases r1)
    case (Inl err)
    with 2 step price_change_shadow [OF 2(2,3) step(1)] show ?thesis by simp
  next
    case (Inr u)
    then have "shadow_ok d1" using price_change_shadow [OF 2(2,3) step(1)] by simp
    with 2 step Inr show ?thesis by simp
  qed
qed simp

text \<open>No book message of the venue is empty on both sides.\<close>

definition nonempty_books :: "(string \<Rightarrow> string + ws_message) \<Rightarrow> bool" where
  "nonempty_books J \<longleftrightarrow> (\<forall>t m. J t = Inr (WsBook m) \<longrightarrow> bm_bids m \<noteq> [] \<or> bm_asks m \<noteq> [])"

lemma send_shadow_fst: "shadow_ok d \<Longrightarrow> not_book r \<Longrightarrow> shadow_ok (fst (send d r))"
  using send_shadow [of d r] by (cases "send d r") simp

lemma reset_shadow: "shadow_ok (reset_continuity_state d)"
  by (simp add: shadow_ok_def reset_continuity_state_def)

lemma lifecycle_shadow:
  assumes "shadow_ok d"
  shows "shadow_ok (fst (dispatch_lifecycle d ev))"
proof -
  let ?d = "if lc_kind ev = LcReconnectSuccess
    then reset_continuity_state (d\<lparr> current_session_id := Some (lc_session_id ev) \<rparr>) else d"
  have "shadow_ok ?d" using assms reset_shadow by simp
  then have "shadow_ok d1" if "send ?d (Ingest i) = (d1, x)" for i d1 x
    using send_shadow that not_book_simps(1) by blast
  then show ?thesis
    unfolding dispatch_lifecycle_def Let_def
    by (auto split: prod.split sum.split if_split simp del: if_split_asm intro!: send_shadow_fst)
qed

lemma trade_shadow:
  assumes "shadow_ok d" "disp_inv d"
  shows "shadow_ok (fst (dispatch_trade d rv t))"
proof -
  obtain d1 a where int: "intern_asset_id d (lt_asset_id t) = (d1, a)" by (cases "intern_asset_id d (lt_asset_id t)")
  have "shadow_ok d1" using intern_same [OF assms(2) int] assms(1) by (simp add: shadow_ok_def)
  then show ?thesis
    by (simp add: dispatch_trade_def int Let_def send_shadow_fst split: sum.splits)
qed

lemma dispatch_shadow:
  assumes J: "nonempty_books J" and ok: "shadow_ok d" and inv: "disp_inv d"
    and step: "dispatch J d m = Some (d', r)" and up: "r \<noteq> Inl ChannelSend"
  shows "shadow_ok d'"
proof (cases m)
  case (FeedLifecycle ev)
  with step lifecycle_shadow [OF ok, of ev] show ?thesis by (simp add: dispatch_def)
next
  case (FeedRaw raw)
  let ?rv = "raw_recv_timestamp_us raw"
  show ?thesis
  proof (cases "J (raw_text raw)")
    case (Inl e)
    with FeedRaw step ok show ?thesis by (simp add: dispatch_def dispatch_raw_def)
  next
    case (Inr msg)
    show ?thesis
    proof (cases msg)
      case (WsBook b)
      with J Inr have "bm_bids b \<noteq> [] \<or> bm_asks b \<noteq> []" by (auto simp: nonempty_books_def)
      with FeedRaw Inr WsBook step up dispatch_book_shadow [OF ok inv, of ?rv b d' r] show ?thesis
        by (simp add: dispatch_def dispatch_raw_def)
    next
      case (WsPriceChange pc)
      with FeedRaw Inr step up ok inv price_loop_shadow [of d ?rv] show ?thesis
        by (simp add: dispatch_def dispatch_raw_def dispatch_price_change_def split: if_splits)
    next
      case (WsLastTradePrice t)
      with FeedRaw Inr step trade_shadow [OF ok inv, of ?rv t] show ?thesis
        by (simp add: dispatch_def dispatch_raw_def)
    next
      case (WsTickSizeChange t)
      with FeedRaw Inr step ok show ?thesis by (simp add: dispatch_def dispatch_raw_def)
    qed
  qed
qed

lemma run_shadow:
  "nonempty_books J \<Longrightarrow> shadow_ok d \<Longrightarrow> disp_inv d \<Longrightarrow> run_dispatcher J d ms = Some (d', Inr ()) \<Longrightarrow> shadow_ok d'"
proof (induction ms arbitrary: d)
  case (Cons m ms)
  obtain d1 r where step: "dispatch J d m = Some (d1, r)" "disp_inv d1"
    using disp.step_total [OF Cons.prems(3) TrueI] by blast
  show ?case
  proof (cases "r = Inl ChannelSend")
    case True
    with Cons.prems(4) step show ?thesis by simp
  next
    case False
    then have "run_dispatcher J d1 ms = Some (d', Inr ())"
      using Cons.prems(4) step by (auto split: sum.splits feed_error.splits)
    with Cons.IH [OF Cons.prems(1) dispatch_shadow [OF Cons.prems(1-3) step(1) False] step(2)] show ?thesis .
  qed
qed simp

text \<open>
  C7. The shadow book the dispatcher cross-checks against the venue is the book downstream: as
  long as the output channel stays open and the venue sends no book message that is empty on
  both sides, after any messages in any order the shadow book of every asset holds exactly the
  levels a consumer rebuilds from the records emitted so far.
\<close>

theorem shadow_book_is_downstream_book:
  assumes "nonempty_books J" "run_dispatcher J (dispatcher_new q room) ms = Some (d, Inr ())"
    "validation_books d a = Some b"
  shows "(book_bid b, book_ask b) = rebuilt_book a (sent d)"
proof -
  have "shadow_ok (dispatcher_new q room)" by (simp add: shadow_ok_def dispatcher_new_def)
  from run_shadow [OF assms(1) this disp_inv_new assms(2)] assms(3) show ?thesis
    by (simp add: shadow_ok_def book_content_def)
qed

definition two_level_json :: "string \<Rightarrow> string + ws_message" where
  "two_level_json t = (if t = ''b'' then Inr (WsBook (two_level_message ''1700000000000'' ''7'')) else Inl ''unknown'')"

lemma two_level_run:
  obtains d b where
    "run_dispatcher two_level_json (dispatcher_new None None) [FeedRaw \<lparr> raw_text = ''b'', raw_recv_timestamp_us = 5 \<rparr>] = Some (d, Inr ())"
    "validation_books d ''a'' = Some b" "book_bid b = [FixedPrice 4000 \<mapsto> FixedSize 10000000]"
    "book_ask b = [FixedPrice 6000 \<mapsto> FixedSize 7000000]"
    "sent d = snapshot_records (dispatcher_new None None) ''a'' 5 1700000000000000 (Some ''h'') 0
       [(Bid, FixedPrice 4000, FixedSize 10000000), (Ask, FixedPrice 6000, FixedSize 7000000)]"
proof -
  let ?d = "dispatcher_new None None" and ?m = "two_level_message ''1700000000000'' ''7''"
  obtain d r where r: "dispatch_book ?d 5 ?m = (d, r)" by (cases "dispatch_book ?d 5 ?m")
  then have ok: "r = Inr ()" using dispatch_book_open [of ?d 5 ?m] by (simp add: dispatcher_new_def)
  then have run: "run_dispatcher two_level_json ?d [FeedRaw \<lparr> raw_text = ''b'', raw_recv_timestamp_us = 5 \<rparr>] = Some (d, Inr ())"
    using r by (simp add: dispatch_def dispatch_raw_def two_level_json_def)
  have m: "bm_asset_id ?m = ''a''" "bm_hash ?m = Some ''h''" by (simp_all add: two_level_message_def)
  have "snapshot_committed ?d ''a'' 5 1700000000000000 (Some ''h'') [(FixedPrice 4000, FixedSize 10000000)]
      [(FixedPrice 6000, FixedSize 7000000)] d"
    using dispatch_book_outcome [OF disp_inv_new r] ok by (simp add: two_level_accepted m)
  then show thesis
    using that [OF run] by (auto simp: snapshot_committed_def side_levels_def dispatcher_new_def snapshot_content_def size_is_zero_def)
qed

lemma two_level_nonempty: "nonempty_books two_level_json"
  by (auto simp: nonempty_books_def two_level_json_def two_level_message_def split: if_splits)

theorem shadow_book_is_downstream_book_witness:
  "\<exists>d b. run_dispatcher two_level_json (dispatcher_new None None)
       [FeedRaw \<lparr> raw_text = ''b'', raw_recv_timestamp_us = 5 \<rparr>] = Some (d, Inr ()) \<and>
     validation_books d ''a'' = Some b \<and> book_bid b \<noteq> Map.empty \<and> (book_bid b, book_ask b) = rebuilt_book ''a'' (sent d)"
proof -
  obtain d b where d: "run_dispatcher two_level_json (dispatcher_new None None)
      [FeedRaw \<lparr> raw_text = ''b'', raw_recv_timestamp_us = 5 \<rparr>] = Some (d, Inr ())"
      "validation_books d ''a'' = Some b" "book_bid b = [FixedPrice 4000 \<mapsto> FixedSize 10000000]"
    by (rule two_level_run)
  have "book_bid b \<noteq> Map.empty" using d(3) by simp
  with d(1,2) shadow_book_is_downstream_book [OF two_level_nonempty d(1,2)] show ?thesis by blast
qed

section \<open>An empty snapshot\<close>

text \<open>
  An accepted book message without levels empties the shadow book and restarts the
  sequence, and not one record is emitted: whatever book a consumer had rebuilt stays as it was.
\<close>

theorem empty_snapshot_silent:
  assumes "disp_inv d" "tx_room d = None" "accepted_snapshot d m = Some ([], [])"
  shows "sent (fst (dispatch_book d rv m)) = sent d \<and>
    rebuilt_book a (sent (fst (dispatch_book d rv m))) = rebuilt_book a (sent d) \<and>
    (\<exists>b. validation_books (fst (dispatch_book d rv m)) (bm_asset_id m) = Some b \<and>
       book_bid b = Map.empty \<and> book_ask b = Map.empty) \<and>
    asset_sequences (fst (dispatch_book d rv m)) (bm_asset_id m) = Some 0"
proof -
  obtain d' r where r: "dispatch_book d rv m = (d', r)" by (cases "dispatch_book d rv m")
  moreover have "r \<noteq> Inl ChannelSend" using dispatch_book_open [OF assms(2), of rv m] r by simp
  ultimately show ?thesis
    using dispatch_book_outcome [OF assms(1) r] assms(3)
    by (auto simp: snapshot_committed_def side_levels_def snapshot_records_def snapshot_content_def)
qed

theorem empty_snapshot_silent_witness:
  "let m = \<lparr> bm_asset_id = ''a'', bm_market = None, bm_timestamp = None, bm_bids = [], bm_asks = [], bm_hash = None \<rparr>;
       d = fst (dispatch_book (dispatcher_new None None) 5 m)
   in sent d = [] \<and> validation_books d ''a'' \<noteq> None"
proof -
  let ?m = "\<lparr> bm_asset_id = ''a'', bm_market = None, bm_timestamp = None, bm_bids = [], bm_asks = [], bm_hash = None \<rparr>"
  have "accepted_snapshot (dispatcher_new None None) ?m = Some ([], [])"
    by (simp add: accepted_snapshot_def snapshot_stale_def dispatcher_new_def)
  then show ?thesis
    using empty_snapshot_silent [OF disp_inv_new, of None None ?m 5] by (auto simp: dispatcher_new_def)
qed

section \<open>The cross-check with the venue\<close>

text \<open>What a stated best price claims of a side; an absent or unreadable one claims nothing.\<close>

definition venue_agrees :: "side \<Rightarrow> price_map \<Rightarrow> string option \<Rightarrow> bool" where
  "venue_agrees s m venue =
     (case venue of
        None \<Rightarrow> True
      | Some t \<Rightarrow>
          (case price_try_from t of
             Inl _ \<Rightarrow> True
           | Inr p \<Rightarrow>
               if price_raw p = (case s of Bid \<Rightarrow> 0 | Ask \<Rightarrow> 10000) then m = Map.empty
               else p \<in> dom m \<and> (\<forall>q\<in>dom m. case s of Bid \<Rightarrow> q \<le> p | Ask \<Rightarrow> p \<le> q)))"

lemma top_agrees:
  assumes "\<And>p. ours = Some p \<longleftrightarrow> p \<in> dom m \<and> (\<forall>q\<in>dom m. case s of Bid \<Rightarrow> q \<le> p | Ask \<Rightarrow> p \<le> q)"
    and "ours = None \<longleftrightarrow> m = Map.empty"
  shows "\<not> top_price_mismatch s ours v \<longleftrightarrow> venue_agrees s m v"
proof (cases v)
  case (Some t)
  show ?thesis
  proof (cases "price_try_from t")
    case (Inr p)
    with Some assms(1) [of p] assms(2) show ?thesis
      by (cases s) (simp_all add: top_price_mismatch_def venue_agrees_def price_is_zero_def PRICE_SCALE_def)
  qed (simp add: Some top_price_mismatch_def venue_agrees_def)
qed (simp add: top_price_mismatch_def venue_agrees_def)

text \<open>
  C32. The cross-check raises no false alarm and misses no divergence: it stays silent exactly
  when each stated best price is the best price of the book's side, or the venue's marker for an
  empty side and the side is empty, or it is absent or not a price.
\<close>

theorem mismatch_check_exact:
  assumes "book_inv b"
  shows "detect_book_mismatch b venue_bid venue_ask = None \<longleftrightarrow>
    venue_agrees Bid (book_bid b) venue_bid \<and> venue_agrees Ask (book_ask b) venue_ask"
proof -
  have "\<not> top_price_mismatch Bid (map_option fst (best_bid b)) v \<longleftrightarrow> venue_agrees Bid (book_bid b) v" for v
    by (rule top_agrees) (auto simp: best_bid_Some [OF assms] best_bid_None [OF assms])
  moreover have "\<not> top_price_mismatch Ask (map_option fst (best_ask b)) v \<longleftrightarrow> venue_agrees Ask (book_ask b) v" for v
    by (rule top_agrees) (auto simp: best_ask_Some [OF assms] best_ask_None [OF assms])
  ultimately show ?thesis by (simp add: detect_book_mismatch_def Let_def)
qed

theorem mismatch_check_exact_witness:
  "venue_agrees Bid (book_bid sample_book) (Some ''0.45'') \<and> venue_agrees Ask (book_ask sample_book) (Some ''0.5'') \<and>
   \<not> (venue_agrees Bid (book_bid sample_book) (Some ''0.46'') \<and> venue_agrees Ask (book_ask sample_book) None)"
proof -
  have tops: "best_bid sample_book = Some (FixedPrice 4500, FixedSize 9)" "best_ask sample_book = Some (FixedPrice 5000, FixedSize 3)"
    by code_simp+
  have "top_price_mismatch Bid (Some (FixedPrice 4500)) (Some ''0.46'')"
    "\<not> top_price_mismatch Bid (Some (FixedPrice 4500)) (Some ''0.45'')"
    "\<not> top_price_mismatch Ask (Some (FixedPrice 5000)) (Some ''0.5'')"
    by code_simp+
  then have "detect_book_mismatch sample_book (Some ''0.45'') (Some ''0.5'') = None"
    "detect_book_mismatch sample_book (Some ''0.46'') None \<noteq> None"
    by (simp_all add: detect_book_mismatch_def tops)
  then show ?thesis
    unfolding mismatch_check_exact [OF sample_book_inv] by (simp only: simp_thms)
qed

end
