(* ===== verification/Replay.thy ===== *)
theory Replay
  imports Labels "HOL-Library.Product_Lexorder" "HOL-Library.Option_ord" "HOL-Library.List_Lexorder" "HOL-Library.Char_ord" "HOL-Library.Multiset"
begin

text \<open>
  \<open>crates/pb-replay/src/engine.rs\<close>: reconstruction of a book at a past time from stored events and
  checkpoints, and its validation against an independent checkpoint. The storage reader is the
  engine's type parameter, a pair of functions here. Logging is not modelled.
\<close>

section \<open>Clock domains and order\<close>

definition DEFAULT_LOOKBACK_US :: u64 where
  "DEFAULT_LOOKBACK_US = 3600000000"

definition event_recv :: "book_event \<Rightarrow> u64" where
  "event_recv e = recv_timestamp_us (be_provenance e)"

definition normalized_exchange_ts :: "book_event \<Rightarrow> u64" where
  "normalized_exchange_ts e =
     (if exchange_timestamp_us (be_provenance e) = 0 then event_recv e
      else exchange_timestamp_us (be_provenance e))"

fun event_ordering_ts :: "replay_mode \<Rightarrow> book_event \<Rightarrow> u64" where
  "event_ordering_ts RecvTime e = event_recv e"
| "event_ordering_ts ExchangeTime e = normalized_exchange_ts e"

fun ordering_keys :: "replay_mode \<Rightarrow> book_event \<Rightarrow> u64 \<times> u64" where
  "ordering_keys RecvTime e = (event_recv e, 0)"
| "ordering_keys ExchangeTime e = (normalized_exchange_ts e, event_recv e)"

fun side_rank :: "side \<Rightarrow> u8" where
  "side_rank Bid = 0"
| "side_rank Ask = 1"

definition event_sequence :: "book_event \<Rightarrow> sequence" where
  "event_sequence e = (case prov_sequence (be_provenance e) of Some s \<Rightarrow> s | None \<Rightarrow> seq_default)"

text \<open>The comparison chain of \<open>sort_by\<close> as a lexicographic key; the sort is stable.\<close>

definition event_key :: "replay_mode \<Rightarrow> book_event \<Rightarrow>
    (u64 \<times> u64) \<times> u64 \<times> u64 \<times> u8 \<times> u32 \<times> u64 \<times> string option" where
  "event_key mode e =
     (ordering_keys mode e,
      (case ingest_ordinal (be_provenance e) of Some n \<Rightarrow> n | None \<Rightarrow> - 1),
      seq_raw (event_sequence e), side_rank (be_side e), price_raw (be_price e), size_raw (be_size e),
      source_event_id (be_provenance e))"

definition sort_book_events :: "replay_mode \<Rightarrow> book_event list \<Rightarrow> book_event list" where
  "sort_book_events mode es = sort_key (event_key mode) es"

fun checkpoint_ordering_ts :: "replay_mode \<Rightarrow> book_checkpoint \<Rightarrow> u64" where
  "checkpoint_ordering_ts RecvTime c = recv_timestamp_us (cp_provenance c)"
| "checkpoint_ordering_ts ExchangeTime c =
     (if exchange_timestamp_us (cp_provenance c) \<noteq> 0 then exchange_timestamp_us (cp_provenance c)
      else cp_timestamp_us c)"

definition latest_reset_boundary_us :: "ingest_event list \<Rightarrow> u64 \<Rightarrow> u64 option" where
  "latest_reset_boundary_us events target =
     (case map (\<lambda>i. recv_timestamp_us (ie_provenance i))
             (filter (\<lambda>i. is_continuity_reset (ie_kind i) \<and> recv_timestamp_us (ie_provenance i) \<le> target) events) of
        [] \<Rightarrow> None
      | t # ts \<Rightarrow> Some (fold max ts t))"

section \<open>Applying snapshots and checkpoints\<close>

definition levels_of :: "price_level list \<Rightarrow> book_side" where
  "levels_of ls = map (\<lambda>l. (pl_price l, pl_size l)) ls"

definition apply_checkpoint :: "l2book \<Rightarrow> book_checkpoint \<Rightarrow> replay_mode \<Rightarrow> l2book \<times> (book_error + unit)" where
  "apply_checkpoint b c mode =
     try_apply_snapshot b (levels_of (cp_bids c)) (levels_of (cp_asks c)) seq_default (checkpoint_ordering_ts mode c)"

definition event_levels :: "side \<Rightarrow> book_event list \<Rightarrow> book_side" where
  "event_levels s es = map (\<lambda>e. (be_price e, be_size e)) (filter (\<lambda>e. be_side e = s) es)"

definition apply_snapshot_events :: "l2book \<Rightarrow> book_event list \<Rightarrow> u64 \<Rightarrow> l2book \<times> (book_error + unit)" where
  "apply_snapshot_events b es ts =
     try_apply_snapshot b (event_levels Bid es) (event_levels Ask es)
       (if es = [] then seq_default else event_sequence (last es)) ts"

section \<open>Reconstruction\<close>

definition replay_marker :: "asset_id \<Rightarrow> ingest_event_kind \<Rightarrow> book_event \<Rightarrow> u64 option \<Rightarrow> u64 option \<Rightarrow> string \<Rightarrow> ingest_event" where
  "replay_marker a kind e expected observed details =
     \<lparr> ie_asset_id = Some a, ie_kind = kind,
       ie_provenance = (be_provenance e)\<lparr> ingest_ordinal := None \<rparr>,
       ie_expected_sequence = expected, ie_observed_sequence = observed, ie_details = Some details \<rparr>"

text \<open>The index of the last element that satisfies the predicate.\<close>

fun rposition :: "('a \<Rightarrow> bool) \<Rightarrow> 'a list \<Rightarrow> nat option" where
  "rposition P [] = None"
| "rposition P (x # xs) =
     (case rposition P xs of Some i \<Rightarrow> Some (Suc i) | None \<Rightarrow> if P x then Some 0 else None)"

text \<open>
  The replay loop over the remaining events. A run of snapshot events at one time is one
  snapshot; a rejected delta ends the replay. The outer option is the abort of the book.
\<close>

function replay_events :: "asset_id \<Rightarrow> replay_mode \<Rightarrow> u64 \<Rightarrow> book_event list \<Rightarrow> l2book \<Rightarrow> ingest_event list \<Rightarrow>
    (replay_error + l2book \<times> ingest_event list) option" where
  "replay_events a mode target [] b cont = Some (Inr (b, cont))"
| "replay_events a mode target (e # es) b cont =
     (let t = event_ordering_ts mode e
      in if target < t then Some (Inr (b, cont))
         else (case be_kind e of
           Snapshot \<Rightarrow>
             let same = (\<lambda>c. be_kind c = Snapshot \<and> event_ordering_ts mode c = t)
             in (case apply_snapshot_events b (takeWhile same (e # es)) t of
                   (_, Inl err) \<Rightarrow> Some (Inl (ReplayBook err))
                 | (b', Inr _) \<Rightarrow> replay_events a mode target (dropWhile same es) b' cont)
         | Delta \<Rightarrow>
             let sq = event_sequence e;
                 cont' = (case check_sequence b sq of
                     Inl err \<Rightarrow> cont @ [replay_marker a SequenceGap e (Some (seq_raw (book_sequence b) + 1)) (Some (seq_raw sq))
                       (book_error_display err)]
                   | Inr _ \<Rightarrow> cont)
             in (case try_apply_delta b (be_side e) (be_price e) (be_size e) sq t of
                   None \<Rightarrow> None
                 | Some (b', Inl err) \<Rightarrow>
                     Some (Inr (b', cont' @ [replay_marker a SourceReset e None None
                       (''book delta rejected during replay: '' @ book_error_display err)]))
                 | Some (b', Inr _) \<Rightarrow> replay_events a mode target es b' cont')))"
  by pat_completeness auto

termination
  by (relation "measure (\<lambda>(a, mode, target, es, b, cont). length es)") (auto simp: length_dropWhile_le less_Suc_eq_le)

text \<open>The closing integrity check.\<close>

definition crossed_marker :: "asset_id \<Rightarrow> l2book \<Rightarrow> ingest_event" where
  "crossed_marker a b =
     \<lparr> ie_asset_id = Some a, ie_kind = SourceReset,
       ie_provenance = \<lparr> recv_timestamp_us = last_update_us b, exchange_timestamp_us = 0,
         source = ReplayValidator, source_event_id = None, source_session_id = None,
         prov_sequence = None, ingest_ordinal = None \<rparr>,
       ie_expected_sequence = None, ie_observed_sequence = None,
       ie_details = Some ''crossed/locked book in reconstructed state'' \<rparr>"

type_synonym reconstruction = "(replay_error + l2book \<times> ingest_event list \<times> bool) option"

definition finish_replay :: "asset_id \<Rightarrow> bool \<Rightarrow> (replay_error + l2book \<times> ingest_event list) option \<Rightarrow> reconstruction" where
  "finish_replay a used r =
     (case r of
        None \<Rightarrow> None
      | Some (Inl e) \<Rightarrow> Some (Inl e)
      | Some (Inr (b, cont)) \<Rightarrow>
          Some (Inr (b, (case check_integrity b of Inl _ \<Rightarrow> cont @ [crossed_marker a b] | Inr _ \<Rightarrow> cont), used)))"

definition after_reset :: "u64 option \<Rightarrow> u64 \<Rightarrow> bool" where
  "after_reset reset recv = (case reset of None \<Rightarrow> True | Some r \<Rightarrow> r \<le> recv)"

definition reconstruct_book :: "asset_id \<Rightarrow> u64 \<Rightarrow> replay_mode \<Rightarrow> book_checkpoint option \<Rightarrow> market_data_window \<Rightarrow>
    reconstruction" where
  "reconstruct_book a target mode checkpoint window =
     (let evs = sort_book_events mode (book_events window);
          ing = sort_key (\<lambda>i. recv_timestamp_us (ie_provenance i)) (ingest_events window);
          reset = latest_reset_boundary_us ing target;
          seed = (case checkpoint of
              Some c \<Rightarrow> if after_reset reset (recv_timestamp_us (cp_provenance c)) then Some c else None
            | None \<Rightarrow> None)
      in case seed of
           Some c \<Rightarrow>
             (case apply_checkpoint (book_new a) c mode of
                (_, Inl err) \<Rightarrow> Some (Inl (ReplayBook err))
              | (b, Inr _) \<Rightarrow>
                  finish_replay a True (replay_events a mode target
                    (dropWhile (\<lambda>e. event_ordering_ts mode e \<le> checkpoint_ordering_ts mode c) evs) b ing))
         | None \<Rightarrow>
             (case rposition (\<lambda>e. be_kind e = Snapshot \<and> event_ordering_ts mode e \<le> target \<and> after_reset reset (event_recv e)) evs of
                None \<Rightarrow> Some (Inl (NoSnapshotFound a target))
              | Some i \<Rightarrow>
                  let t = event_ordering_ts mode (evs ! i);
                      snapshot_events = filter (\<lambda>e. be_kind e = Snapshot \<and> event_ordering_ts mode e = t \<and>
                        after_reset reset (event_recv e)) evs
                  in (case apply_snapshot_events (book_new a) snapshot_events t of
                        (_, Inl err) \<Rightarrow> Some (Inl (ReplayBook err))
                      | (b, Inr _) \<Rightarrow>
                          finish_replay a False (replay_events a mode target (drop (i + 1) evs) b ing))))"

section \<open>The engine over a storage reader\<close>

record event_reader =
  rd_market_data :: "asset_id \<Rightarrow> u64 \<Rightarrow> u64 \<Rightarrow> replay_error + market_data_window"
  rd_checkpoints :: "asset_id \<Rightarrow> u64 \<Rightarrow> u64 \<Rightarrow> replay_error + book_checkpoint list"

record replay_result =
  rr_book :: l2book
  rr_mode :: replay_mode
  rr_used_checkpoint :: bool
  rr_continuity_events :: "ingest_event list"

definition checkpoint_within_floor :: "book_checkpoint option \<Rightarrow> u64 \<Rightarrow> book_checkpoint option" where
  "checkpoint_within_floor checkpoint floor_ts =
     (case checkpoint of Some c \<Rightarrow> if floor_ts \<le> cp_timestamp_us c then Some c else None | None \<Rightarrow> None)"

definition latest_checkpoint_in_window :: "event_reader \<Rightarrow> asset_id \<Rightarrow> u64 \<Rightarrow> u64 \<Rightarrow> replay_error + book_checkpoint option" where
  "latest_checkpoint_in_window R a start_us end_us =
     (if end_us < start_us then Inr None
      else (case rd_checkpoints R a start_us end_us of
              Inl e \<Rightarrow> Inl e
            | Inr cps \<Rightarrow>
                let sorted_cps = sort_key cp_timestamp_us cps
                in Inr (if sorted_cps = [] then None else Some (last sorted_cps))))"

text \<open>Seed, window and reconstruction, shared by the two entry points.\<close>

definition seeded_reconstruction :: "event_reader \<Rightarrow> asset_id \<Rightarrow> u64 \<Rightarrow> u64 \<Rightarrow> u64 \<Rightarrow> replay_mode \<Rightarrow> reconstruction" where
  "seeded_reconstruction R a floor_us seed_end_us target mode =
     (case latest_checkpoint_in_window R a floor_us seed_end_us of
        Inl e \<Rightarrow> Some (Inl e)
      | Inr found \<Rightarrow>
          let seed = checkpoint_within_floor found floor_us;
              start_us = (case seed of Some c \<Rightarrow> cp_timestamp_us c | None \<Rightarrow> floor_us)
          in (case rd_market_data R a start_us target of
                Inl e \<Rightarrow> Some (Inl e)
              | Inr window \<Rightarrow> reconstruct_book a target mode seed window))"

definition reconstruct_at :: "event_reader \<Rightarrow> u64 \<Rightarrow> asset_id \<Rightarrow> u64 \<Rightarrow> replay_mode \<Rightarrow> (replay_error + replay_result) option" where
  "reconstruct_at R lookback a target mode =
     (case seeded_reconstruction R a (saturating_sub target lookback) target target mode of
        None \<Rightarrow> None
      | Some (Inl e) \<Rightarrow> Some (Inl e)
      | Some (Inr (b, cont, used)) \<Rightarrow>
          Some (Inr \<lparr> rr_book = b, rr_mode = mode, rr_used_checkpoint = used, rr_continuity_events = cont \<rparr>))"

definition replay_window :: "event_reader \<Rightarrow> asset_id \<Rightarrow> u64 \<Rightarrow> u64 \<Rightarrow> replay_error + market_data_window" where
  "replay_window R a start_us end_us = rd_market_data R a start_us end_us"

definition books_match_checkpoint :: "l2book \<Rightarrow> book_checkpoint \<Rightarrow> bool" where
  "books_match_checkpoint b c \<longleftrightarrow>
     bids_sorted b = sort_key (\<lambda>l. Reverse (fst l)) (levels_of (cp_bids c)) \<and>
     asks_sorted b = sort_key fst (levels_of (cp_asks c))"

definition debug_level :: "(fixed_price \<times> fixed_size) option \<Rightarrow> string" where
  "debug_level l = (case l of None \<Rightarrow> ''None''
     | Some (p, z) \<Rightarrow> ''Some((FixedPrice('' @ dec (unat (price_raw p)) @ ''), FixedSize('' @ dec (unat (size_raw z)) @ '')))'')"

definition first_level :: "price_level list \<Rightarrow> (fixed_price \<times> fixed_size) option" where
  "first_level ls = (case ls of [] \<Rightarrow> None | l # _ \<Rightarrow> Some (pl_price l, pl_size l))"

definition render_checkpoint_mismatch :: "l2book \<Rightarrow> book_checkpoint \<Rightarrow> string" where
  "render_checkpoint_mismatch b c =
     ''bid_depth='' @ dec (bid_depth b) @ '' checkpoint_bid_depth='' @ dec (length (cp_bids c)) @
     '' ask_depth='' @ dec (ask_depth b) @ '' checkpoint_ask_depth='' @ dec (length (cp_asks c)) @
     '' best_bid='' @ debug_level (best_bid b) @ '' checkpoint_best_bid='' @ debug_level (first_level (cp_bids c)) @
     '' best_ask='' @ debug_level (best_ask b) @ '' checkpoint_best_ask='' @ debug_level (first_level (cp_asks c))"

definition replay_validation_at :: "event_reader \<Rightarrow> u64 \<Rightarrow> u64 \<Rightarrow> asset_id \<Rightarrow> u64 \<Rightarrow> replay_mode \<Rightarrow>
    (replay_error + replay_validation option) option" where
  "replay_validation_at R lookback now a replay_ts mode =
     (case rd_checkpoints R a replay_ts (saturating_add replay_ts lookback) of
        Inl e \<Rightarrow> Some (Inl e)
      | Inr cps \<Rightarrow>
          (case find (\<lambda>c. replay_ts < cp_timestamp_us c) cps of
             None \<Rightarrow> Some (Inr None)
           | Some reference \<Rightarrow>
               let reference_us = cp_timestamp_us reference
               in (case seeded_reconstruction R a (saturating_sub reference_us lookback)
                          (saturating_sub reference_us 1) reference_us mode of
                     None \<Rightarrow> None
                   | Some (Inl e) \<Rightarrow> Some (Inl e)
                   | Some (Inr (b, _, _)) \<Rightarrow>
                       let matched = books_match_checkpoint b reference
                       in Some (Inr (Some \<lparr> rv_asset_id = a, rv_mode = mode, rv_replay_timestamp_us = replay_ts,
                            rv_reference_timestamp_us = reference_us, rv_matched = matched,
                            rv_mismatch_summary = (if matched then None else Some (render_checkpoint_mismatch b reference)),
                            rv_persisted_at_us = now \<rparr>)))))"

section \<open>The order of replay\<close>

lemma event_sort_perm [simp]: "mset (sort_book_events mode es) = mset es"
  by (simp add: sort_book_events_def)

lemma event_sort_set [simp]: "set (sort_book_events mode es) = set es"
  by (simp add: sort_book_events_def)

lemma event_sort_sorted: "sorted (map (event_key mode) (sort_book_events mode es))"
  by (simp add: sort_book_events_def)

lemma key_time: "event_ordering_ts mode e = fst (fst (event_key mode e))"
  by (cases mode) (simp_all add: event_key_def)

lemma key_le_time: "event_key mode x \<le> event_key mode y \<Longrightarrow> event_ordering_ts mode x \<le> event_ordering_ts mode y"
  unfolding key_time by (auto simp: less_eq_prod_def less_prod_def)

lemma event_sort_times: "sorted (map (event_ordering_ts mode) (sort_book_events mode es))"
  using event_sort_sorted [of mode es] key_le_time
  by (simp add: sorted_map) (metis (no_types, lifting) sorted_wrt_mono_rel)

text \<open>Distinct keys leave one order.\<close>

lemma sort_key_cong_mset:
  assumes "mset xs = mset ys" "inj_on f (set xs)"
  shows "sort_key f xs = sort_key f ys"
proof (rule properties_for_sort_key)
  show "mset (sort_key f ys) = mset xs" using assms(1) by simp
  show "sorted (map f (sort_key f ys))" by simp
  fix k assume k: "k \<in> set (sort_key f ys)"
  then have kx: "k \<in> set xs" using assms(1) by (metis mset_eq_setD set_sort)
  have single: "filter (\<lambda>x. f k = f x) zs = replicate (count (mset zs) k) k" if "set zs = set xs" for zs
  proof -
    have "filter (\<lambda>x. f k = f x) zs = filter (\<lambda>x. k = x) zs"
      using that kx assms(2) by (intro filter_cong) (auto dest: inj_onD)
    then show ?thesis by (simp add: filter_eq_replicate_mset flip: replicate_count_mset_eq_filter_eq)
  qed
  have "set (sort_key f ys) = set xs" using assms(1) by (metis mset_eq_setD set_sort)
  with single [of "sort_key f ys"] single [of xs] assms(1)
  show "filter (\<lambda>x. f k = f x) (sort_key f ys) = filter (\<lambda>x. f k = f x) xs" by simp
qed


section \<open>Choosing the seed\<close>

lemma rposition_None: "rposition P xs = None \<longleftrightarrow> (\<forall>x\<in>set xs. \<not> P x)"
  by (induction xs) (auto split: option.splits)

lemma rposition_append:
  "rposition P (xs @ ys) = (case rposition P ys of Some i \<Rightarrow> Some (length xs + i) | None \<Rightarrow> rposition P xs)"
  by (induction xs) (simp_all split: option.split)

lemma rposition_SomeD: "rposition P xs = Some i \<Longrightarrow> i < length xs \<and> P (xs ! i)"
  by (induction xs arbitrary: i) (auto split: option.splits if_splits)

lemma reset_boundary_Max:
  "latest_reset_boundary_us events target =
     (let ts = (\<lambda>i. recv_timestamp_us (ie_provenance i)) `
          {i \<in> set events. is_continuity_reset (ie_kind i) \<and> recv_timestamp_us (ie_provenance i) \<le> target}
      in if ts = {} then None else Some (Max ts))"
proof -
  let ?f = "\<lambda>i. recv_timestamp_us (ie_provenance i)"
  let ?P = "\<lambda>i. is_continuity_reset (ie_kind i) \<and> ?f i \<le> target"
  have s: "?f ` {i \<in> set events. ?P i} = set (map ?f (filter ?P events))" by auto
  show ?thesis
  proof (cases "map ?f (filter ?P events)")
    case Nil
    show ?thesis unfolding s Let_def latest_reset_boundary_us_def Nil by simp
  next
    case (Cons t ts)
    have "fold max ts t = Max (set (t # ts))" by (simp only: Max.set_eq_fold)
    then show ?thesis unfolding s Let_def latest_reset_boundary_us_def Cons by simp
  qed
qed

lemma reset_boundary_sort [simp]:
  "latest_reset_boundary_us (sort_key k events) target = latest_reset_boundary_us events target"
  by (simp add: reset_boundary_Max)

lemma sorted_filter_suffix:
  fixes f :: "'a \<Rightarrow> 'b::linorder"
  assumes "sorted (map f xs)"
  shows "\<exists>pre. xs = pre @ filter (\<lambda>x. r \<le> f x) xs \<and> (\<forall>x\<in>set pre. f x < r)"
  using assms
proof (induction xs)
  case (Cons x xs)
  show ?case
  proof (cases "r \<le> f x")
    case True
    with Cons.prems have "\<forall>y\<in>set xs. r \<le> f y" by auto
    with True show ?thesis by (intro exI [of _ "[]"]) simp
  next
    case False
    with Cons obtain pre where "xs = pre @ filter (\<lambda>x. r \<le> f x) xs" "\<forall>x\<in>set pre. f x < r" by auto
    with False show ?thesis by (intro exI [of _ "x # pre"]) auto
  qed
qed simp

text \<open>
  C8. A continuity reset hides the past. In receive-time replay, when the window holds a reset at
  or before the target, the result is the same as if no book event received before the latest
  such reset had been stored and no checkpoint received before it existed: nothing from before
  the reset leaks into the reconstructed book.
\<close>

theorem reset_hides_the_past:
  assumes r: "latest_reset_boundary_us (ingest_events w) target = Some r"
  shows "reconstruct_book a target RecvTime cp w =
    reconstruct_book a target RecvTime
      (case cp of None \<Rightarrow> None | Some c \<Rightarrow> if r \<le> recv_timestamp_us (cp_provenance c) then Some c else None)
      (w\<lparr> book_events := filter (\<lambda>e. r \<le> event_recv e) (book_events w) \<rparr>)"
proof -
  let ?evs = "sort_book_events RecvTime (book_events w)"
  let ?late = "filter (\<lambda>e. r \<le> event_recv e) ?evs"
  have sort: "sort_book_events RecvTime (filter (\<lambda>e. r \<le> event_recv e) (book_events w)) = ?late"
    by (simp add: sort_book_events_def filter_sort)
  have "event_ordering_ts RecvTime = event_recv" by (simp add: fun_eq_iff)
  then have "sorted (map event_recv ?evs)" using event_sort_times [of RecvTime "book_events w"] by simp
  then obtain pre where evs: "?evs = pre @ ?late" and pre: "\<forall>e\<in>set pre. event_recv e < r"
    using sorted_filter_suffix by blast
  let ?ing = "sort_key (\<lambda>i. recv_timestamp_us (ie_provenance i)) (ingest_events w)"
  let ?P = "\<lambda>e. be_kind e = Snapshot \<and> event_ordering_ts RecvTime e \<le> target \<and> after_reset (Some r) (event_recv e)"
  have drop: "dropWhile (\<lambda>e. event_ordering_ts RecvTime e \<le> t) ?evs = dropWhile (\<lambda>e. event_ordering_ts RecvTime e \<le> t) ?late"
    if "r \<le> t" for t
    by (subst evs, subst dropWhile_append2) (use pre that in \<open>auto intro: order.trans less_imp_le\<close>)
  have "rposition ?P pre = None" using pre by (auto simp: rposition_None after_reset_def)
  then have pos: "rposition ?P ?evs = map_option ((+) (length pre)) (rposition ?P ?late)"
    by (subst evs, cases "rposition ?P ?late") (simp_all only: rposition_append option.map option.case)
  have at: "?evs ! (length pre + i) = ?late ! i" "drop (length pre + i) ?evs = drop i ?late" for i
    by (subst evs, simp)+
  have group: "filter (\<lambda>e. be_kind e = Snapshot \<and> event_ordering_ts RecvTime e = t \<and> after_reset (Some r) (event_recv e)) ?evs =
      filter (\<lambda>e. be_kind e = Snapshot \<and> event_ordering_ts RecvTime e = t \<and> after_reset (Some r) (event_recv e)) ?late" for t
    by (simp add: after_reset_def) (meson)
  let ?w = "w\<lparr> book_events := filter (\<lambda>e. r \<le> event_recv e) (book_events w) \<rparr>"
  have w: "book_events ?w = filter (\<lambda>e. r \<le> event_recv e) (book_events w)" "ingest_events ?w = ingest_events w"
    by simp_all
  have none: "reconstruct_book a target RecvTime None w =
      reconstruct_book a target RecvTime None (w\<lparr> book_events := filter (\<lambda>e. r \<le> event_recv e) (book_events w) \<rparr>)"
    unfolding reconstruct_book_def Let_def sort w reset_boundary_sort r option.case pos group
    by (cases "rposition ?P ?late") (simp_all only: option.map option.case at add.assoc)
  show ?thesis
  proof (cases cp)
    case None
    with none show ?thesis by simp
  next
    case (Some c)
    show ?thesis
    proof (cases "r \<le> recv_timestamp_us (cp_provenance c)")
      case True
      then have "r \<le> checkpoint_ordering_ts RecvTime c" by simp
      note d = drop [OF this]
      show ?thesis
        using True
        by (simp only: Some option.case reconstruct_book_def Let_def sort w reset_boundary_sort r
          after_reset_def if_True d)
    next
      case False
      then have "reconstruct_book a target RecvTime (Some c) w = reconstruct_book a target RecvTime None w"
        by (simp only: reconstruct_book_def Let_def option.case reset_boundary_sort r after_reset_def if_False)
      with none False show ?thesis by (simp add: Some)
    qed
  qed
qed

definition usable_checkpoint :: "u64 option \<Rightarrow> book_checkpoint option \<Rightarrow> book_checkpoint option" where
  "usable_checkpoint reset cp =
     (case cp of Some c \<Rightarrow> if after_reset reset (recv_timestamp_us (cp_provenance c)) then Some c else None | None \<Rightarrow> None)"

definition usable_snapshot :: "replay_mode \<Rightarrow> u64 \<Rightarrow> u64 option \<Rightarrow> book_event \<Rightarrow> bool" where
  "usable_snapshot mode target reset e \<longleftrightarrow>
     be_kind e = Snapshot \<and> event_ordering_ts mode e \<le> target \<and> after_reset reset (event_recv e)"

text \<open>Whether there is something to start a replay from.\<close>

definition has_seed :: "replay_mode \<Rightarrow> u64 \<Rightarrow> u64 option \<Rightarrow> book_checkpoint option \<Rightarrow> book_event list \<Rightarrow> bool" where
  "has_seed mode target reset cp es \<longleftrightarrow>
     usable_checkpoint reset cp \<noteq> None \<or> (\<exists>e\<in>set es. usable_snapshot mode target reset e)"

section \<open>Totality and errors\<close>

lemma snapshot_events_inv:
  "book_inv b \<Longrightarrow> apply_snapshot_events b es ts = (b', r) \<Longrightarrow> book_inv b'"
  unfolding apply_snapshot_events_def by (rule book_apply_inv)

lemma replay_events_total:
  "book_inv b \<Longrightarrow> case replay_events a mode target es b cont of
      None \<Rightarrow> False | Some (Inl e) \<Rightarrow> (\<exists>err. e = ReplayBook err) | Some (Inr (b', _)) \<Rightarrow> book_inv b'"
proof (induction a mode target es b cont rule: replay_events.induct)
  case (2 a mode target e es b cont)
  let ?t = "event_ordering_ts mode e"
  let ?same = "\<lambda>c. be_kind c = Snapshot \<and> event_ordering_ts mode c = ?t"
  show ?case
  proof (cases "target < ?t")
    case True
    with 2(3) show ?thesis by simp
  next
    case False
    note on_time = this
    show ?thesis
    proof (cases "be_kind e")
      case Snapshot
      obtain b' r where ap: "apply_snapshot_events b (takeWhile ?same (e # es)) ?t = (b', r)"
        by (cases "apply_snapshot_events b (takeWhile ?same (e # es)) ?t")
      from snapshot_events_inv [OF 2(3) ap] have "book_inv b'" .
      show ?thesis
      proof (cases r)
        case (Inl err)
        with ap on_time Snapshot show ?thesis by simp
      next
        case (Inr u)
        with ap on_time Snapshot 2(1) [OF refl on_time Snapshot refl ap [symmetric] Inr \<open>book_inv b'\<close>]
        show ?thesis by simp
      qed
    next
      case Delta
      obtain b' r where ap: "try_apply_delta b (be_side e) (be_price e) (be_size e) (event_sequence e) ?t = Some (b', r)" "book_inv b'"
        using book_delta_inv [OF 2(3)] by blast
      show ?thesis
      proof (cases r)
        case (Inl err)
        with ap on_time Delta show ?thesis by (simp add: Let_def)
      next
        case (Inr u)
        with ap on_time Delta 2(2) [OF refl on_time Delta refl refl ap(1) refl Inr ap(2)]
        show ?thesis by (simp add: Let_def)
      qed
    qed
  qed
qed simp

lemma finish_replay_cases:
  "book_inv b \<Longrightarrow> case finish_replay a used (replay_events a mode target es b cont) of
      None \<Rightarrow> False | Some (Inl e) \<Rightarrow> (\<exists>err. e = ReplayBook err) | Some (Inr (b', _, u)) \<Rightarrow> book_inv b' \<and> u = used"
  using replay_events_total [of b a mode target es cont]
  by (auto simp: finish_replay_def split: option.splits sum.splits)

lemma reconstruct_from_checkpoint:
  assumes "usable_checkpoint (latest_reset_boundary_us (ingest_events w) target) cp = Some c"
  shows "reconstruct_book a target mode cp w =
    (case apply_checkpoint (book_new a) c mode of
       (_, Inl err) \<Rightarrow> Some (Inl (ReplayBook err))
     | (b, Inr _) \<Rightarrow> finish_replay a True (replay_events a mode target
         (dropWhile (\<lambda>e. event_ordering_ts mode e \<le> checkpoint_ordering_ts mode c) (sort_book_events mode (book_events w))) b
         (sort_key (\<lambda>i. recv_timestamp_us (ie_provenance i)) (ingest_events w))))"
  using assms unfolding usable_checkpoint_def
  by (simp only: reconstruct_book_def Let_def reset_boundary_sort option.case)

lemma reconstruct_from_snapshot:
  assumes "usable_checkpoint (latest_reset_boundary_us (ingest_events w) target) cp = None"
  shows "reconstruct_book a target mode cp w =
    (let evs = sort_book_events mode (book_events w); reset = latest_reset_boundary_us (ingest_events w) target
     in case rposition (usable_snapshot mode target reset) evs of
          None \<Rightarrow> Some (Inl (NoSnapshotFound a target))
        | Some i \<Rightarrow>
            let t = event_ordering_ts mode (evs ! i)
            in (case apply_snapshot_events (book_new a) (filter (\<lambda>e. be_kind e = Snapshot \<and>
                       event_ordering_ts mode e = t \<and> after_reset reset (event_recv e)) evs) t of
                  (_, Inl err) \<Rightarrow> Some (Inl (ReplayBook err))
                | (b, Inr _) \<Rightarrow> finish_replay a False (replay_events a mode target (drop (i + 1) evs) b
                    (sort_key (\<lambda>i. recv_timestamp_us (ie_provenance i)) (ingest_events w)))))"
  using assms unfolding usable_checkpoint_def usable_snapshot_def [abs_def]
  by (simp only: reconstruct_book_def Let_def reset_boundary_sort option.case)


section \<open>Sample events\<close>

definition sample_event :: "book_event_kind \<Rightarrow> side \<Rightarrow> u32 \<Rightarrow> u64 \<Rightarrow> u64 \<Rightarrow> u64 \<Rightarrow> u64 \<Rightarrow> u64 \<Rightarrow> book_event" where
  "sample_event k s p z recv exch sq n =
     \<lparr> be_asset_id = ''a'', be_kind = k, be_side = s, be_price = FixedPrice p, be_size = FixedSize z,
       be_provenance = \<lparr> recv_timestamp_us = recv, exchange_timestamp_us = exch, source = WebSocket,
         source_event_id = None, source_session_id = None, prov_sequence = Some (Sequence sq), ingest_ordinal = Some n \<rparr> \<rparr>"

definition sample_reset :: "u64 \<Rightarrow> ingest_event" where
  "sample_reset recv =
     \<lparr> ie_asset_id = None, ie_kind = SourceReset,
       ie_provenance = \<lparr> recv_timestamp_us = recv, exchange_timestamp_us = 0, source = WebSocket,
         source_event_id = None, source_session_id = None, prov_sequence = None, ingest_ordinal = None \<rparr>,
       ie_expected_sequence = None, ie_observed_sequence = None, ie_details = None \<rparr>"

definition sample_window :: "book_event list \<Rightarrow> ingest_event list \<Rightarrow> market_data_window" where
  "sample_window es is = \<lparr> book_events = es, trade_events = [], ingest_events = is \<rparr>"

definition result_levels :: "reconstruction \<Rightarrow> (book_side \<times> book_side) option" where
  "result_levels r = (case r of Some (Inr (b, _)) \<Rightarrow> Some (bids_sorted b, asks_sorted b) | _ \<Rightarrow> None)"

theorem reset_hides_the_past_witness:
  "let w = sample_window [sample_event Snapshot Bid 4000 5 20 0 0 3, sample_event Snapshot Bid 3000 9 5 0 0 1] [sample_reset 10];
       w' = sample_window [sample_event Snapshot Bid 4000 5 20 0 0 3] [sample_reset 10]
   in latest_reset_boundary_us (ingest_events w) 30 = Some 10 \<and>
      reconstruct_book ''a'' 30 RecvTime None w = reconstruct_book ''a'' 30 RecvTime None w'"
proof -
  let ?w = "sample_window [sample_event Snapshot Bid 4000 5 20 0 0 3, sample_event Snapshot Bid 3000 9 5 0 0 1] [sample_reset 10]"
  have "latest_reset_boundary_us (ingest_events ?w) 30 = Some 10" by code_simp
  moreover have "?w\<lparr> book_events := filter (\<lambda>e. 10 \<le> event_recv e) (book_events ?w) \<rparr> =
      sample_window [sample_event Snapshot Bid 4000 5 20 0 0 3] [sample_reset 10]"
    by (simp add: sample_window_def sample_event_def event_recv_def)
  ultimately show ?thesis
    using reset_hides_the_past [of ?w 30 10 "''a''" None] by (simp only: Let_def option.case simp_thms)
qed


end
