(* ===== verification/ReplayChecks.thy ===== *)
theory ReplayChecks
  imports Replay
begin

text \<open>
  Further properties of \<open>crates/pb-replay/src/engine.rs\<close>: snapshots that share a time, the limits
  of the reset guarantee, and the validation of a reconstructed book against a checkpoint.
\<close>

section \<open>Two snapshots at one time\<close>

lemma snapshot_content_append: "snapshot_content (xs @ ys) = snapshot_content xs ++ snapshot_content ys"
  by (simp add: snapshot_content_def)

lemma event_levels_append [simp]: "event_levels s (xs @ ys) = event_levels s xs @ event_levels s ys"
  by (simp add: event_levels_def)

lemma finish_replay_book: "finish_replay a used r = Some (Inr (b, cont, u)) \<Longrightarrow> \<exists>cont'. r = Some (Inr (b, cont'))"
  by (auto simp: finish_replay_def split: option.splits sum.splits)

text \<open>
  Snapshots that share a time in the replay clock are merged, not replaced: when the window
  holds the events of one snapshot and then of another with the same ordering time, the
  reconstructed book is the later snapshot laid over the earlier one, so a level that the later
  snapshot no longer has is still in the book.
\<close>

theorem equal_time_snapshots_merge:
  assumes sorted: "sorted (map (event_key mode) (es1 @ es2))" and ne: "es2 \<noteq> []"
    and snaps: "\<forall>e\<in>set (es1 @ es2). be_kind e = Snapshot \<and> event_ordering_ts mode e = t" and t: "t \<le> target"
    and result: "reconstruct_book a target mode None \<lparr> book_events = es1 @ es2, trade_events = ts, ingest_events = [] \<rparr> =
      Some (Inr (b, cont, used))"
  shows "book_bid b = snapshot_content (event_levels Bid es1) ++ snapshot_content (event_levels Bid es2) \<and>
    book_ask b = snapshot_content (event_levels Ask es1) ++ snapshot_content (event_levels Ask es2)"
proof -
  let ?w = "\<lparr> book_events = es1 @ es2, trade_events = ts, ingest_events = [] \<rparr>" and ?es = "es1 @ es2"
  have s: "sort_book_events mode ?es = ?es"
    using sorted by (simp add: sort_book_events_def sort_key_id_if_sorted)
  have none: "latest_reset_boundary_us [] target = None" by (simp add: latest_reset_boundary_us_def)
  obtain es x where x: "?es = es @ [x]" using ne by (metis append_is_Nil_conv rev_exhaust)
  have "usable_snapshot mode target None x"
    using snaps t x by (auto simp: usable_snapshot_def after_reset_def)
  then have pos: "rposition (usable_snapshot mode target None) ?es = Some (length es)"
    unfolding x by (simp add: rposition_append)
  have at: "event_ordering_ts mode (?es ! length es) = t" "drop (length es + 1) ?es = []"
    using snaps x by simp_all
  have group: "filter (\<lambda>e. be_kind e = Snapshot \<and> event_ordering_ts mode e = t \<and> after_reset None (event_recv e)) ?es = ?es"
    using snaps by (auto simp: after_reset_def intro: filter_True)
  obtain b' r where ap: "apply_snapshot_events (book_new a) ?es t = (b', r)" by (cases "apply_snapshot_events (book_new a) ?es t")
  have "usable_checkpoint (latest_reset_boundary_us (ingest_events ?w) target) None = None"
    by (simp add: usable_checkpoint_def)
  note rec = reconstruct_from_snapshot [OF this, of a mode, unfolded market_data_window.simps none s Let_def pos option.case at group ap prod.case]
  have "r = Inr ()" "b = b'"
    using result [unfolded rec] finish_replay_book [of a False "Some (Inr (b', []))" b cont used]
    by (auto split: sum.splits)
  with ap show ?thesis
    using snapshot_sides [of "book_new a" "event_levels Bid ?es" "event_levels Ask ?es" _ t b']
    by (auto simp: apply_snapshot_events_def snapshot_content_append)
qed

theorem equal_time_snapshots_merge_witness:
  "\<exists>b cont used. reconstruct_book ''a'' 90 ExchangeTime None (sample_window
      [sample_event Snapshot Bid 4000 5 20 50 0 1, sample_event Snapshot Bid 3900 7 20 50 1 2, sample_event Snapshot Bid 4000 6 21 50 0 3] []) =
      Some (Inr (b, cont, used)) \<and> book_bid b (FixedPrice 3900) = Some (FixedSize 7)"
proof -
  let ?e1 = "[sample_event Snapshot Bid 4000 5 20 50 0 1, sample_event Snapshot Bid 3900 7 20 50 1 2]"
    and ?e2 = "[sample_event Snapshot Bid 4000 6 21 50 0 3]"
  let ?r = "reconstruct_book ''a'' 90 ExchangeTime None (sample_window (?e1 @ ?e2) [])"
  have "case ?r of Some (Inr _) \<Rightarrow> True | _ \<Rightarrow> False" by code_simp
  then obtain b cont used where r: "?r = Some (Inr (b, cont, used))" by (auto split: option.splits sum.splits)
  have "sorted (map (event_key ExchangeTime) (?e1 @ ?e2))"
    "\<forall>e\<in>set (?e1 @ ?e2). be_kind e = Snapshot \<and> event_ordering_ts ExchangeTime e = 50"
    by (simp_all add: sample_event_def event_key_def normalized_exchange_ts_def event_recv_def less_eq_prod_def)
  from equal_time_snapshots_merge [OF this(1) _ this(2) _ r [unfolded sample_window_def]]
  have "book_bid b = snapshot_content (event_levels Bid ?e1) ++ snapshot_content (event_levels Bid ?e2)" by simp
  then have "book_bid b (FixedPrice 3900) = Some (FixedSize 7)"
    by (simp add: event_levels_def snapshot_content_def sample_event_def size_is_zero_def)
  with r show ?thesis by auto
qed

text \<open>
  The reset guarantee does not extend to exchange-time replay: there a delta received before
  the reset, but stamped later by the venue than the snapshot that follows the reset, is
  applied to the rebuilt book.
\<close>

theorem exchange_time_reset_leak:
  "let w = sample_window [sample_event Delta Ask 6000 2 5 100 7 1, sample_event Snapshot Bid 4000 5 20 90 0 2] [sample_reset 10]
   in latest_reset_boundary_us (ingest_events w) 200 = Some 10 \<and>
      result_levels (reconstruct_book ''a'' 200 ExchangeTime None w) =
        Some ([(FixedPrice 4000, FixedSize 5)], [(FixedPrice 6000, FixedSize 2)]) \<and>
      result_levels (reconstruct_book ''a'' 200 RecvTime None w) = Some ([(FixedPrice 4000, FixedSize 5)], [])"
  by code_simp

section \<open>Validation against an independent checkpoint\<close>

text \<open>
  C31. A validation never compares a checkpoint with itself. Its reference is the first
  checkpoint after the requested time, and the book compared with it is reconstructed without
  it: replacing every checkpoint at or after the reference time by anything else, in what the
  seed lookup reads, leaves the reconstructed book unchanged.
\<close>

theorem validation_uses_earlier_seed:
  assumes v: "replay_validation_at R lookback now a ts mode = Some (Inr (Some v))"
  shows "\<exists>cps reference b cont used. rd_checkpoints R a ts (saturating_add ts lookback) = Inr cps \<and>
    find (\<lambda>c. ts < cp_timestamp_us c) cps = Some reference \<and> rv_reference_timestamp_us v = cp_timestamp_us reference \<and>
    rv_matched v = books_match_checkpoint b reference \<and>
    (\<forall>R'. rd_market_data R' = rd_market_data R \<and>
       (\<forall>s e. e < cp_timestamp_us reference \<longrightarrow> rd_checkpoints R' a s e = rd_checkpoints R a s e) \<longrightarrow>
       seeded_reconstruction R' a (saturating_sub (cp_timestamp_us reference) lookback)
         (saturating_sub (cp_timestamp_us reference) 1) (cp_timestamp_us reference) mode = Some (Inr (b, cont, used)))"
proof -
  obtain cps where cps: "rd_checkpoints R a ts (saturating_add ts lookback) = Inr cps"
    using v by (auto simp: replay_validation_at_def split: sum.splits)
  obtain c where c: "find (\<lambda>c. ts < cp_timestamp_us c) cps = Some c"
    using v cps by (auto simp: replay_validation_at_def split: option.splits)
  let ?t = "cp_timestamp_us c"
  obtain b cont used where rec: "seeded_reconstruction R a (saturating_sub ?t lookback) (saturating_sub ?t 1) ?t mode = Some (Inr (b, cont, used))"
    and v': "rv_reference_timestamp_us v = ?t" "rv_matched v = books_match_checkpoint b c"
    using v cps c by (auto simp: replay_validation_at_def Let_def split: option.splits sum.splits)
  have "ts < ?t" using c by (auto simp: find_Some_iff)
  then have "0 < unat ?t" by (simp add: word_less_nat_alt)
  then have less: "saturating_sub ?t 1 < ?t"
    by (simp add: saturating_sub_def word_less_nat_alt word_le_nat_alt unat_sub_if')
  have "seeded_reconstruction R' a (saturating_sub ?t lookback) (saturating_sub ?t 1) ?t mode = Some (Inr (b, cont, used))"
    if "rd_market_data R' = rd_market_data R" "\<forall>s e. e < ?t \<longrightarrow> rd_checkpoints R' a s e = rd_checkpoints R a s e" for R'
  proof -
    have lookup: "latest_checkpoint_in_window R' a s (saturating_sub ?t 1) = latest_checkpoint_in_window R a s (saturating_sub ?t 1)" for s
      using that(2) less by (simp add: latest_checkpoint_in_window_def)
    from rec show ?thesis unfolding seeded_reconstruction_def lookup that(1) .
  qed
  with cps c v' show ?thesis by blast
qed

definition sample_checkpoint :: "u64 \<Rightarrow> price_level list \<Rightarrow> book_checkpoint" where
  "sample_checkpoint ts bs = \<lparr> cp_asset_id = ''a'', cp_timestamp_us = ts,
     cp_provenance = \<lparr> recv_timestamp_us = ts, exchange_timestamp_us = ts, source = RestSnapshot,
       source_event_id = None, source_session_id = None, prov_sequence = None, ingest_ordinal = None \<rparr>,
     cp_bids = bs, cp_asks = [], cp_wal_offset = None \<rparr>"

definition sample_reader :: event_reader where
  "sample_reader = \<lparr>
     rd_market_data = (\<lambda>a s e. Inr (sample_window [sample_event Delta Bid 4000 6 15 15 1 1] [])),
     rd_checkpoints = (\<lambda>a s e. Inr (filter (\<lambda>c. s \<le> cp_timestamp_us c \<and> cp_timestamp_us c \<le> e)
       [sample_checkpoint 10 [\<lparr> pl_price = FixedPrice 4000, pl_size = FixedSize 5 \<rparr>],
        sample_checkpoint 20 [\<lparr> pl_price = FixedPrice 4000, pl_size = FixedSize 6 \<rparr>]])) \<rparr>"

theorem validation_uses_earlier_seed_witness:
  "\<exists>v. replay_validation_at sample_reader 100 7 ''a'' 12 RecvTime = Some (Inr (Some v)) \<and> rv_matched v \<and>
     rv_reference_timestamp_us v = 20"
proof -
  let ?r = "replay_validation_at sample_reader 100 7 ''a'' 12 RecvTime"
  have "case ?r of Some (Inr (Some v)) \<Rightarrow> rv_matched v | _ \<Rightarrow> False" by code_simp
  then obtain v where v: "?r = Some (Inr (Some v))" "rv_matched v" by (auto split: option.splits sum.splits)
  from validation_uses_earlier_seed [OF v(1)] have "rv_reference_timestamp_us v = 20"
    by (auto simp: sample_reader_def sample_checkpoint_def saturating_add_def)
  with v show ?thesis by blast
qed

section \<open>Matching a checkpoint\<close>

lemma sorted_view_eq:
  fixes k :: "'p \<Rightarrow> 'k::linorder"
  assumes k: "inj k" and sorted: "sorted_wrt (<) (map (\<lambda>l. k (fst l)) xs)"
    and graph: "\<And>p z. (p, z) \<in> set xs \<longleftrightarrow> m p = Some z"
  shows "xs = sort_key (\<lambda>l. k (fst l)) ls \<longleftrightarrow> distinct (map fst ls) \<and> m = map_of ls"
proof -
  let ?f = "\<lambda>l. k (fst l)"
  have dist: "distinct (map ?f xs)" using sorted by (simp add: strict_sorted_iff)
  then have dfst: "distinct (map fst xs)" by (auto simp: distinct_map inj_on_def)
  show ?thesis
  proof
    assume xs: "xs = sort_key ?f ls"
    have "mset (map fst xs) = mset (map fst ls)" unfolding xs by simp
    with dfst have d: "distinct (map fst ls)" by (metis mset_eq_imp_distinct_iff)
    have "set xs = set ls" unfolding xs by simp
    then have "m p = Some z \<longleftrightarrow> map_of ls p = Some z" for p z
      using graph [of p z] d by (simp add: map_of_eq_Some_iff)
    then have "m = map_of ls" by (intro ext) (metis not_Some_eq)
    with d show "distinct (map fst ls) \<and> m = map_of ls" by blast
  next
    assume r: "distinct (map fst ls) \<and> m = map_of ls"
    then have "set xs = set ls" using graph by (auto simp: map_of_eq_Some_iff)
    moreover have "distinct xs" "distinct ls" using dfst r by (auto simp: distinct_map)
    ultimately have "mset ls = mset xs" by (simp add: set_eq_iff_mset_eq_distinct)
    moreover have "inj_on ?f (set ls)" using r k by (auto simp: distinct_map inj_on_def)
    ultimately have "sort_key ?f ls = sort_key ?f xs" by (rule sort_key_cong_mset)
    also have "\<dots> = xs" using sorted by (intro sort_key_id_if_sorted) (simp add: strict_sorted_iff)
    finally show "xs = sort_key ?f ls" by simp
  qed
qed

lemma map_fst_levels [simp]: "map fst (levels_of ls) = map pl_price ls"
  by (simp add: levels_of_def comp_def)

text \<open>
  A validation reports a match exactly when the reconstructed book is the checkpoint: the
  checkpoint lists no price twice on a side, and on each side the book holds precisely the
  checkpoint's levels. Only the order of the checkpoint's levels is ignored.
\<close>

theorem books_match_exact:
  assumes "book_inv b"
  shows "books_match_checkpoint b c \<longleftrightarrow>
    distinct (map pl_price (cp_bids c)) \<and> book_bid b = map_of (levels_of (cp_bids c)) \<and>
    distinct (map pl_price (cp_asks c)) \<and> book_ask b = map_of (levels_of (cp_asks c))"
proof -
  have "sorted_wrt (<) (map (\<lambda>l. Reverse (fst l)) (bids_sorted b))"
    using views_sorted(1) [OF assms] by (simp add: sorted_wrt_map less_reverse_def)
  note bids = sorted_view_eq [of Reverse, OF _ this views_entries(1) [OF assms], of "levels_of (cp_bids c)"]
  have "sorted_wrt (<) (map (\<lambda>l. (\<lambda>p. p) (fst l)) (asks_sorted b))"
    using views_sorted(2) [OF assms] by (simp add: comp_def)
  note asks = sorted_view_eq [of "\<lambda>p. p", OF _ this views_entries(2) [OF assms], of "levels_of (cp_asks c)"]
  show ?thesis
    using bids asks by (simp add: books_match_checkpoint_def inj_def)
qed

theorem books_match_exact_witness:
  "let c = (sample_checkpoint 10 [\<lparr> pl_price = FixedPrice 4000, pl_size = FixedSize 7 \<rparr>, \<lparr> pl_price = FixedPrice 4500, pl_size = FixedSize 9 \<rparr>])
       \<lparr> cp_asks := [\<lparr> pl_price = FixedPrice 5000, pl_size = FixedSize 3 \<rparr>] \<rparr>
   in books_match_checkpoint sample_book c \<and> book_bid sample_book = map_of (levels_of (cp_bids c))"
proof -
  let ?c = "(sample_checkpoint 10 [\<lparr> pl_price = FixedPrice 4000, pl_size = FixedSize 7 \<rparr>, \<lparr> pl_price = FixedPrice 4500, pl_size = FixedSize 9 \<rparr>])
       \<lparr> cp_asks := [\<lparr> pl_price = FixedPrice 5000, pl_size = FixedSize 3 \<rparr>] \<rparr>"
  have "books_match_checkpoint sample_book ?c" by code_simp
  with books_match_exact [OF sample_book_inv] show ?thesis by (simp add: Let_def)
qed

end
