(* ===== verification/Rows.thy ===== *)
theory Rows
  imports Replay
begin

text \<open>
  Stored rows. \<open>crates/pb-store/src/schema.rs\<close> turns persisted records into columns of a record
  batch; the \<open>extract_*\<close> functions of \<open>crates/pb-replay/src/reader.rs\<close> turn the rows of a batch
  back into records, keeping those of an asset and a time range. Arrow itself (the checks of
  \<open>RecordBatch::try_new\<close>) and the JSON text of price levels are parameters.
\<close>

section \<open>Store errors\<close>

datatype store_error =
    StoreParquet string
  | StoreArrow string
  | StoreIo string
  | StoreObject object_error
  | UnsafeRecovery string
  | StoreJson string
  | StoreOther string

section \<open>Columns and batches\<close>

datatype data_type = DUInt8 | DUInt32 | DUInt64 | DUtf8 | DBoolean

record field =
  fld_name :: string
  fld_type :: data_type
  fld_nullable :: bool

record schema =
  sch_fields :: "field list"
  sch_version :: "string option"

text \<open>An array of optional values; \<open>None\<close> is a null slot.\<close>

datatype arrow_array =
    UInt8Array "u8 option list"
  | UInt32Array "u32 option list"
  | UInt64Array "u64 option list"
  | StringArray "string option list"
  | BooleanArray "bool option list"

record record_batch =
  rb_schema :: schema
  rb_columns :: "arrow_array list"
  rb_rows :: nat

fun array_type :: "arrow_array \<Rightarrow> data_type" where
  "array_type (UInt8Array _) = DUInt8"
| "array_type (UInt32Array _) = DUInt32"
| "array_type (UInt64Array _) = DUInt64"
| "array_type (StringArray _) = DUtf8"
| "array_type (BooleanArray _) = DBoolean"

fun array_nulls :: "arrow_array \<Rightarrow> bool list" where
  "array_nulls (UInt8Array vs) = map Option.is_none vs"
| "array_nulls (UInt32Array vs) = map Option.is_none vs"
| "array_nulls (UInt64Array vs) = map Option.is_none vs"
| "array_nulls (StringArray vs) = map Option.is_none vs"
| "array_nulls (BooleanArray vs) = map Option.is_none vs"

text \<open>
  What \<open>RecordBatch::try_new\<close> asks of its arguments: at least one array, one per field, of its type, without
  nulls where the field forbids them, all of one length.
\<close>

definition columns_fit :: "schema \<Rightarrow> arrow_array list \<Rightarrow> nat \<Rightarrow> bool" where
  "columns_fit s cols n \<longleftrightarrow> cols \<noteq> [] \<and>
     list_all2 (\<lambda>f c. array_type c = fld_type f \<and> length (array_nulls c) = n \<and>
       (fld_nullable f \<or> list_all Not (array_nulls c))) (sch_fields s) cols"

text \<open>The Arrow constructor and the JSON codec of level lists.\<close>

record arrow_lib =
  try_new :: "schema \<Rightarrow> arrow_array list \<Rightarrow> string + record_batch"
  levels_to_json :: "price_level list \<Rightarrow> string + string"
  levels_from_json :: "string \<Rightarrow> string + price_level list"

section \<open>Schemas\<close>

definition PB_SCHEMA_VERSION :: string where
  "PB_SCHEMA_VERSION = ''2''"

definition versioned :: "field list \<Rightarrow> schema" where
  "versioned fs = \<lparr> sch_fields = fs, sch_version = Some PB_SCHEMA_VERSION \<rparr>"

definition field_new :: "string \<Rightarrow> data_type \<Rightarrow> bool \<Rightarrow> field" where
  "field_new n t nullable = \<lparr> fld_name = n, fld_type = t, fld_nullable = nullable \<rparr>"

definition book_event_schema :: schema where
  "book_event_schema = versioned [
     field_new ''recv_timestamp_us'' DUInt64 False,
     field_new ''exchange_timestamp_us'' DUInt64 False,
     field_new ''asset_id'' DUtf8 False,
     field_new ''event_kind'' DUInt8 False,
     field_new ''side'' DUInt8 False,
     field_new ''price'' DUInt32 False,
     field_new ''size'' DUInt64 False,
     field_new ''sequence'' DUInt64 True,
     field_new ''source'' DUtf8 False,
     field_new ''source_event_id'' DUtf8 True,
     field_new ''source_session_id'' DUtf8 True,
     field_new ''ingest_ordinal'' DUInt64 True]"

definition trade_event_schema :: schema where
  "trade_event_schema = versioned [
     field_new ''recv_timestamp_us'' DUInt64 False,
     field_new ''exchange_timestamp_us'' DUInt64 False,
     field_new ''asset_id'' DUtf8 False,
     field_new ''price'' DUInt32 False,
     field_new ''size'' DUInt64 True,
     field_new ''side'' DUInt8 True,
     field_new ''trade_id'' DUtf8 True,
     field_new ''fidelity'' DUtf8 False,
     field_new ''sequence'' DUInt64 True,
     field_new ''source'' DUtf8 False,
     field_new ''source_event_id'' DUtf8 True,
     field_new ''source_session_id'' DUtf8 True]"

definition ingest_event_schema :: schema where
  "ingest_event_schema = versioned [
     field_new ''recv_timestamp_us'' DUInt64 False,
     field_new ''exchange_timestamp_us'' DUInt64 False,
     field_new ''asset_id'' DUtf8 True,
     field_new ''event_kind'' DUtf8 False,
     field_new ''sequence'' DUInt64 True,
     field_new ''expected_sequence'' DUInt64 True,
     field_new ''observed_sequence'' DUInt64 True,
     field_new ''details'' DUtf8 True,
     field_new ''source'' DUtf8 False,
     field_new ''source_event_id'' DUtf8 True,
     field_new ''source_session_id'' DUtf8 True]"

definition checkpoint_schema :: schema where
  "checkpoint_schema = versioned [
     field_new ''checkpoint_timestamp_us'' DUInt64 False,
     field_new ''recv_timestamp_us'' DUInt64 False,
     field_new ''exchange_timestamp_us'' DUInt64 False,
     field_new ''asset_id'' DUtf8 False,
     field_new ''source'' DUtf8 False,
     field_new ''source_event_id'' DUtf8 True,
     field_new ''source_session_id'' DUtf8 True,
     field_new ''bids_json'' DUtf8 False,
     field_new ''asks_json'' DUtf8 False,
     field_new ''wal_offset'' DUInt64 True]"

definition replay_validation_schema :: schema where
  "replay_validation_schema = versioned [
     field_new ''asset_id'' DUtf8 False,
     field_new ''mode'' DUtf8 False,
     field_new ''replay_timestamp_us'' DUInt64 False,
     field_new ''reference_timestamp_us'' DUInt64 False,
     field_new ''matched'' DBoolean False,
     field_new ''mismatch_summary'' DUtf8 True,
     field_new ''persisted_at_us'' DUInt64 False]"

fun schema_for_record :: "persisted_record \<Rightarrow> schema" where
  "schema_for_record (Book _) = book_event_schema"
| "schema_for_record (Trade _) = trade_event_schema"
| "schema_for_record (Ingest _) = ingest_event_schema"
| "schema_for_record (Checkpoint _) = checkpoint_schema"
| "schema_for_record (Validation _) = replay_validation_schema"

section \<open>Writing rows\<close>

definition raw_sequence :: "event_provenance \<Rightarrow> u64 option" where
  "raw_sequence p = map_option seq_raw (prov_sequence p)"

definition build_batch :: "arrow_lib \<Rightarrow> schema \<Rightarrow> arrow_array list \<Rightarrow> store_error + record_batch" where
  "build_batch A s cols = map_sum StoreArrow id (try_new A s cols)"

definition book_event_refs_to_record_batch :: "arrow_lib \<Rightarrow> book_event list \<Rightarrow> store_error + record_batch" where
  "book_event_refs_to_record_batch A es = build_batch A book_event_schema [
     UInt64Array (map (\<lambda>e. Some (recv_timestamp_us (be_provenance e))) es),
     UInt64Array (map (\<lambda>e. Some (exchange_timestamp_us (be_provenance e))) es),
     StringArray (map (\<lambda>e. Some (be_asset_id e)) es),
     UInt8Array (map (\<lambda>e. Some (book_kind_to_u8 (be_kind e))) es),
     UInt8Array (map (\<lambda>e. side_to_u8 (Some (be_side e))) es),
     UInt32Array (map (\<lambda>e. Some (price_raw (be_price e))) es),
     UInt64Array (map (\<lambda>e. Some (size_raw (be_size e))) es),
     UInt64Array (map (\<lambda>e. raw_sequence (be_provenance e)) es),
     StringArray (map (\<lambda>e. Some (source_display (source (be_provenance e)))) es),
     StringArray (map (\<lambda>e. source_event_id (be_provenance e)) es),
     StringArray (map (\<lambda>e. source_session_id (be_provenance e)) es),
     UInt64Array (map (\<lambda>e. ingest_ordinal (be_provenance e)) es)]"

definition trade_event_refs_to_record_batch :: "arrow_lib \<Rightarrow> trade_event list \<Rightarrow> store_error + record_batch" where
  "trade_event_refs_to_record_batch A es = build_batch A trade_event_schema [
     UInt64Array (map (\<lambda>e. Some (recv_timestamp_us (te_provenance e))) es),
     UInt64Array (map (\<lambda>e. Some (exchange_timestamp_us (te_provenance e))) es),
     StringArray (map (\<lambda>e. Some (te_asset_id e)) es),
     UInt32Array (map (\<lambda>e. Some (price_raw (te_price e))) es),
     UInt64Array (map (\<lambda>e. map_option size_raw (te_size e)) es),
     UInt8Array (map (\<lambda>e. side_to_u8 (te_side e)) es),
     StringArray (map (\<lambda>e. te_trade_id e) es),
     StringArray (map (\<lambda>e. Some (fidelity_display (te_fidelity e))) es),
     UInt64Array (map (\<lambda>e. raw_sequence (te_provenance e)) es),
     StringArray (map (\<lambda>e. Some (source_display (source (te_provenance e)))) es),
     StringArray (map (\<lambda>e. source_event_id (te_provenance e)) es),
     StringArray (map (\<lambda>e. source_session_id (te_provenance e)) es)]"

definition ingest_event_refs_to_record_batch :: "arrow_lib \<Rightarrow> ingest_event list \<Rightarrow> store_error + record_batch" where
  "ingest_event_refs_to_record_batch A es = build_batch A ingest_event_schema [
     UInt64Array (map (\<lambda>e. Some (recv_timestamp_us (ie_provenance e))) es),
     UInt64Array (map (\<lambda>e. Some (exchange_timestamp_us (ie_provenance e))) es),
     StringArray (map (\<lambda>e. ie_asset_id e) es),
     StringArray (map (\<lambda>e. Some (ingest_kind_display (ie_kind e))) es),
     UInt64Array (map (\<lambda>e. raw_sequence (ie_provenance e)) es),
     UInt64Array (map (\<lambda>e. ie_expected_sequence e) es),
     UInt64Array (map (\<lambda>e. ie_observed_sequence e) es),
     StringArray (map (\<lambda>e. ie_details e) es),
     StringArray (map (\<lambda>e. Some (source_display (source (ie_provenance e)))) es),
     StringArray (map (\<lambda>e. source_event_id (ie_provenance e)) es),
     StringArray (map (\<lambda>e. source_session_id (ie_provenance e)) es)]"

text \<open>\<open>collect::<Result<Vec<_>, _>>\<close>: the first error, or all values.\<close>

fun collect :: "('e + 'a) list \<Rightarrow> 'e + 'a list" where
  "collect [] = Inr []"
| "collect (Inl e # rs) = Inl e"
| "collect (Inr x # rs) = map_sum id ((#) x) (collect rs)"

definition checkpoint_refs_to_record_batch :: "arrow_lib \<Rightarrow> book_checkpoint list \<Rightarrow> store_error + record_batch" where
  "checkpoint_refs_to_record_batch A cs =
     (case collect (map (\<lambda>c. map_sum StoreJson id (levels_to_json A (cp_bids c))) cs) of
        Inl e \<Rightarrow> Inl e
      | Inr bids_json \<Rightarrow>
          (case collect (map (\<lambda>c. map_sum StoreJson id (levels_to_json A (cp_asks c))) cs) of
             Inl e \<Rightarrow> Inl e
           | Inr asks_json \<Rightarrow> build_batch A checkpoint_schema [
               UInt64Array (map (\<lambda>c. Some (cp_timestamp_us c)) cs),
               UInt64Array (map (\<lambda>c. Some (recv_timestamp_us (cp_provenance c))) cs),
               UInt64Array (map (\<lambda>c. Some (exchange_timestamp_us (cp_provenance c))) cs),
               StringArray (map (\<lambda>c. Some (cp_asset_id c)) cs),
               StringArray (map (\<lambda>c. Some (source_display (source (cp_provenance c)))) cs),
               StringArray (map (\<lambda>c. source_event_id (cp_provenance c)) cs),
               StringArray (map (\<lambda>c. source_session_id (cp_provenance c)) cs),
               StringArray (map Some bids_json),
               StringArray (map Some asks_json),
               UInt64Array (map (\<lambda>c. cp_wal_offset c) cs)]))"

definition replay_validation_refs_to_record_batch :: "arrow_lib \<Rightarrow> replay_validation list \<Rightarrow> store_error + record_batch" where
  "replay_validation_refs_to_record_batch A vs = build_batch A replay_validation_schema [
     StringArray (map (\<lambda>v. Some (rv_asset_id v)) vs),
     StringArray (map (\<lambda>v. Some (replay_mode_display (rv_mode v))) vs),
     UInt64Array (map (\<lambda>v. Some (rv_replay_timestamp_us v)) vs),
     UInt64Array (map (\<lambda>v. Some (rv_reference_timestamp_us v)) vs),
     BooleanArray (map (\<lambda>v. Some (rv_matched v)) vs),
     StringArray (map (\<lambda>v. rv_mismatch_summary v) vs),
     UInt64Array (map (\<lambda>v. Some (rv_persisted_at_us v)) vs)]"

text \<open>The dataset of the batch is that of its first record; a mixed batch is an error.\<close>

definition mixed :: "persisted_record list \<Rightarrow> (persisted_record \<Rightarrow> 'a option) \<Rightarrow> store_error + 'a list" where
  "mixed rs pick = collect (map (\<lambda>r. case pick r of Some x \<Rightarrow> Inr x
     | None \<Rightarrow> Inl (StoreOther ''mixed dataset batch'')) rs)"

definition records_to_record_batch :: "arrow_lib \<Rightarrow> persisted_record list \<Rightarrow> store_error + record_batch" where
  "records_to_record_batch A rs =
     (case rs of
        [] \<Rightarrow> Inl (StoreOther ''cannot build record batch from empty record list'')
      | Book _ # _ \<Rightarrow>
          (case mixed rs (\<lambda>r. case r of Book e \<Rightarrow> Some e | _ \<Rightarrow> None) of
             Inl e \<Rightarrow> Inl e | Inr es \<Rightarrow> book_event_refs_to_record_batch A es)
      | Trade _ # _ \<Rightarrow>
          (case mixed rs (\<lambda>r. case r of Trade e \<Rightarrow> Some e | _ \<Rightarrow> None) of
             Inl e \<Rightarrow> Inl e | Inr es \<Rightarrow> trade_event_refs_to_record_batch A es)
      | Ingest _ # _ \<Rightarrow>
          (case mixed rs (\<lambda>r. case r of Ingest e \<Rightarrow> Some e | _ \<Rightarrow> None) of
             Inl e \<Rightarrow> Inl e | Inr es \<Rightarrow> ingest_event_refs_to_record_batch A es)
      | Checkpoint _ # _ \<Rightarrow>
          (case mixed rs (\<lambda>r. case r of Checkpoint e \<Rightarrow> Some e | _ \<Rightarrow> None) of
             Inl e \<Rightarrow> Inl e | Inr es \<Rightarrow> checkpoint_refs_to_record_batch A es)
      | Validation _ # _ \<Rightarrow>
          (case mixed rs (\<lambda>r. case r of Validation e \<Rightarrow> Some e | _ \<Rightarrow> None) of
             Inl e \<Rightarrow> Inl e | Inr es \<Rightarrow> replay_validation_refs_to_record_batch A es))"

section \<open>Reading rows\<close>

text \<open>The \<open>?\<close> of the readers; the outer \<open>None\<close> is the panic of a cast to the wrong array type.\<close>

definition and_then :: "('e + 'a) option \<Rightarrow> ('a \<Rightarrow> ('e + 'b) option) \<Rightarrow> ('e + 'b) option" where
  "and_then m f = (case m of None \<Rightarrow> None | Some (Inl e) \<Rightarrow> Some (Inl e) | Some (Inr x) \<Rightarrow> f x)"

lemma and_then_Inr [simp]: "and_then (Some (Inr x)) f = f x"
  by (simp add: and_then_def)

definition column_by_name :: "record_batch \<Rightarrow> string \<Rightarrow> arrow_array option" where
  "column_by_name b name =
     map_option snd (find (\<lambda>(f, c). fld_name f = name) (zip (sch_fields (rb_schema b)) (rb_columns b)))"

definition missing_column :: "string \<Rightarrow> replay_error" where
  "missing_column name = ReplayOther (''missing '' @ name @ '' column'')"

definition u8_column :: "record_batch \<Rightarrow> string \<Rightarrow> (replay_error + u8 option list) option" where
  "u8_column b name =
     (case column_by_name b name of
        None \<Rightarrow> Some (Inl (missing_column name))
      | Some (UInt8Array vs) \<Rightarrow> Some (Inr vs)
      | Some _ \<Rightarrow> None)"

definition u32_column :: "record_batch \<Rightarrow> string \<Rightarrow> (replay_error + u32 option list) option" where
  "u32_column b name =
     (case column_by_name b name of
        None \<Rightarrow> Some (Inl (missing_column name))
      | Some (UInt32Array vs) \<Rightarrow> Some (Inr vs)
      | Some _ \<Rightarrow> None)"

definition u64_column :: "record_batch \<Rightarrow> string \<Rightarrow> (replay_error + u64 option list) option" where
  "u64_column b name =
     (case column_by_name b name of
        None \<Rightarrow> Some (Inl (missing_column name))
      | Some (UInt64Array vs) \<Rightarrow> Some (Inr vs)
      | Some _ \<Rightarrow> None)"

definition string_column :: "record_batch \<Rightarrow> string \<Rightarrow> (replay_error + string option list) option" where
  "string_column b name =
     (case column_by_name b name of
        None \<Rightarrow> Some (Inl (missing_column name))
      | Some (StringArray vs) \<Rightarrow> Some (Inr vs)
      | Some _ \<Rightarrow> None)"

definition boolean_column :: "record_batch \<Rightarrow> string \<Rightarrow> (replay_error + bool option list) option" where
  "boolean_column b name =
     (case column_by_name b name of
        None \<Rightarrow> Some (Inl (missing_column name))
      | Some (BooleanArray vs) \<Rightarrow> Some (Inr vs)
      | Some _ \<Rightarrow> None)"

text \<open>The value of a slot; a null slot of a value buffer holds the type's zero.\<close>

definition slot :: "'a \<Rightarrow> 'a option list \<Rightarrow> nat \<Rightarrow> 'a" where
  "slot d vs i = (case vs ! i of Some x \<Rightarrow> x | None \<Rightarrow> d)"

text \<open>The row loop: a row is skipped, kept, or fails the whole batch.\<close>

fun collect_rows :: "(nat \<Rightarrow> 'e + 'a option) \<Rightarrow> nat list \<Rightarrow> 'e + 'a list" where
  "collect_rows row [] = Inr []"
| "collect_rows row (i # is) =
     (case row i of
        Inl e \<Rightarrow> Inl e
      | Inr None \<Rightarrow> collect_rows row is
      | Inr (Some x) \<Rightarrow> map_sum id ((#) x) (collect_rows row is))"

text \<open>Columns that older files lack: the ordinal is read when the column is there (a cast to the
  wrong type panics, before any row), the log offset when it is there with the right type.\<close>

definition ordinal_column :: "record_batch \<Rightarrow> (replay_error + u64 option list option) option" where
  "ordinal_column b =
     (case column_by_name b ''ingest_ordinal'' of
        None \<Rightarrow> Some (Inr None)
      | Some (UInt64Array vs) \<Rightarrow> Some (Inr (Some vs))
      | Some _ \<Rightarrow> None)"

definition wal_offset_at :: "record_batch \<Rightarrow> nat \<Rightarrow> u64 option" where
  "wal_offset_at b i =
     (case column_by_name b ''wal_offset'' of Some (UInt64Array vs) \<Rightarrow> vs ! i | _ \<Rightarrow> None)"

definition extract_book_events :: "record_batch \<Rightarrow> asset_id \<Rightarrow> u64 \<Rightarrow> u64 \<Rightarrow> (replay_error + book_event list) option" where
  "extract_book_events b a start_us end_us =
     and_then (u64_column b ''recv_timestamp_us'') (\<lambda>recv_ts_col.
     and_then (u64_column b ''exchange_timestamp_us'') (\<lambda>exchange_ts_col.
     and_then (string_column b ''asset_id'') (\<lambda>asset_id_col.
     and_then (u8_column b ''event_kind'') (\<lambda>kind_col.
     and_then (u8_column b ''side'') (\<lambda>side_col.
     and_then (u32_column b ''price'') (\<lambda>price_col.
     and_then (u64_column b ''size'') (\<lambda>size_col.
     and_then (u64_column b ''sequence'') (\<lambda>sequence_col.
     and_then (string_column b ''source'') (\<lambda>source_col.
     and_then (string_column b ''source_event_id'') (\<lambda>source_event_id_col.
     and_then (string_column b ''source_session_id'') (\<lambda>source_session_id_col.
     and_then (ordinal_column b) (\<lambda>ingest_ordinal_col.
     Some (collect_rows (\<lambda>i.
       if slot 0 recv_ts_col i < start_us \<or> end_us < slot 0 recv_ts_col i then Inr None
       else if slot [] asset_id_col i \<noteq> a then Inr None
       else (case parse_book_kind (slot 0 kind_col i) of
               Inl e \<Rightarrow> Inl e
             | Inr kind \<Rightarrow>
            (case parse_side_value (slot 0 side_col i) of
               Inl e \<Rightarrow> Inl e
             | Inr sd \<Rightarrow>
            (case price_new (slot 0 price_col i) of
               Inl e \<Rightarrow> Inl (ReplayTypes e)
             | Inr price \<Rightarrow>
            (case parse_source (slot [] source_col i) of
               Inl e \<Rightarrow> Inl e
             | Inr src \<Rightarrow> Inr (Some
                 \<lparr> be_asset_id = slot [] asset_id_col i, be_kind = kind, be_side = sd, be_price = price,
                   be_size = FixedSize (slot 0 size_col i), be_provenance =
                  \<lparr> recv_timestamp_us = slot 0 recv_ts_col i, exchange_timestamp_us = slot 0 exchange_ts_col i, source = src,
                    source_event_id = source_event_id_col ! i, source_session_id = source_session_id_col ! i,
                    prov_sequence = map_option Sequence (sequence_col ! i), ingest_ordinal = Option.bind ingest_ordinal_col (\<lambda>c. c ! i) \<rparr> \<rparr>)))))) [0..<rb_rows b])))))))))))))"

definition extract_trade_events :: "record_batch \<Rightarrow> asset_id \<Rightarrow> u64 \<Rightarrow> u64 \<Rightarrow> (replay_error + trade_event list) option" where
  "extract_trade_events b a start_us end_us =
     and_then (u64_column b ''recv_timestamp_us'') (\<lambda>recv_ts_col.
     and_then (u64_column b ''exchange_timestamp_us'') (\<lambda>exchange_ts_col.
     and_then (string_column b ''asset_id'') (\<lambda>asset_id_col.
     and_then (u32_column b ''price'') (\<lambda>price_col.
     and_then (u64_column b ''size'') (\<lambda>size_col.
     and_then (u8_column b ''side'') (\<lambda>side_col.
     and_then (string_column b ''trade_id'') (\<lambda>trade_id_col.
     and_then (string_column b ''fidelity'') (\<lambda>fidelity_col.
     and_then (u64_column b ''sequence'') (\<lambda>sequence_col.
     and_then (string_column b ''source'') (\<lambda>source_col.
     and_then (string_column b ''source_event_id'') (\<lambda>source_event_id_col.
     and_then (string_column b ''source_session_id'') (\<lambda>source_session_id_col.
     Some (collect_rows (\<lambda>i.
       if slot 0 recv_ts_col i < start_us \<or> end_us < slot 0 recv_ts_col i then Inr None
       else if slot [] asset_id_col i \<noteq> a then Inr None
       else (case (case side_col ! i of None \<Rightarrow> Inr None | Some v \<Rightarrow> map_sum id Some (parse_side_value v)) of
               Inl e \<Rightarrow> Inl e
             | Inr sd \<Rightarrow>
            (case price_new (slot 0 price_col i) of
               Inl e \<Rightarrow> Inl (ReplayTypes e)
             | Inr price \<Rightarrow>
            (case parse_trade_fidelity (slot [] fidelity_col i) of
               Inl e \<Rightarrow> Inl e
             | Inr fidelity \<Rightarrow>
            (case parse_source (slot [] source_col i) of
               Inl e \<Rightarrow> Inl e
             | Inr src \<Rightarrow> Inr (Some
                 \<lparr> te_asset_id = slot [] asset_id_col i, te_price = price, te_size = map_option FixedSize (size_col ! i),
                   te_side = sd, te_trade_id = trade_id_col ! i, te_fidelity = fidelity, te_provenance =
                  \<lparr> recv_timestamp_us = slot 0 recv_ts_col i, exchange_timestamp_us = slot 0 exchange_ts_col i, source = src,
                    source_event_id = source_event_id_col ! i, source_session_id = source_session_id_col ! i,
                    prov_sequence = map_option Sequence (sequence_col ! i), ingest_ordinal = None \<rparr> \<rparr>)))))) [0..<rb_rows b])))))))))))))"

definition extract_ingest_events :: "record_batch \<Rightarrow> asset_id \<Rightarrow> u64 \<Rightarrow> u64 \<Rightarrow> (replay_error + ingest_event list) option" where
  "extract_ingest_events b a start_us end_us =
     and_then (u64_column b ''recv_timestamp_us'') (\<lambda>recv_ts_col.
     and_then (u64_column b ''exchange_timestamp_us'') (\<lambda>exchange_ts_col.
     and_then (string_column b ''asset_id'') (\<lambda>asset_id_col.
     and_then (string_column b ''event_kind'') (\<lambda>kind_col.
     and_then (u64_column b ''sequence'') (\<lambda>sequence_col.
     and_then (u64_column b ''expected_sequence'') (\<lambda>expected_col.
     and_then (u64_column b ''observed_sequence'') (\<lambda>observed_col.
     and_then (string_column b ''details'') (\<lambda>details_col.
     and_then (string_column b ''source'') (\<lambda>source_col.
     and_then (string_column b ''source_event_id'') (\<lambda>source_event_id_col.
     and_then (string_column b ''source_session_id'') (\<lambda>source_session_id_col.
     Some (collect_rows (\<lambda>i.
       if slot 0 recv_ts_col i < start_us \<or> end_us < slot 0 recv_ts_col i then Inr None
       else if (case asset_id_col ! i of None \<Rightarrow> False | Some row_asset \<Rightarrow> row_asset \<noteq> a) then Inr None
       else (case parse_ingest_kind (slot [] kind_col i) of
               Inl e \<Rightarrow> Inl e
             | Inr kind \<Rightarrow>
            (case parse_source (slot [] source_col i) of
               Inl e \<Rightarrow> Inl e
             | Inr src \<Rightarrow> Inr (Some
                 \<lparr> ie_asset_id = asset_id_col ! i, ie_kind = kind, ie_provenance =
                  \<lparr> recv_timestamp_us = slot 0 recv_ts_col i, exchange_timestamp_us = slot 0 exchange_ts_col i, source = src,
                    source_event_id = source_event_id_col ! i, source_session_id = source_session_id_col ! i,
                    prov_sequence = map_option Sequence (sequence_col ! i), ingest_ordinal = None \<rparr>,
                   ie_expected_sequence = expected_col ! i, ie_observed_sequence = observed_col ! i,
                   ie_details = details_col ! i \<rparr>)))) [0..<rb_rows b]))))))))))))"

definition extract_checkpoints :: "arrow_lib \<Rightarrow> record_batch \<Rightarrow> asset_id \<Rightarrow> u64 \<Rightarrow> u64 \<Rightarrow> (replay_error + book_checkpoint list) option" where
  "extract_checkpoints A b a start_us end_us =
     and_then (u64_column b ''checkpoint_timestamp_us'') (\<lambda>checkpoint_ts_col.
     and_then (u64_column b ''recv_timestamp_us'') (\<lambda>recv_ts_col.
     and_then (u64_column b ''exchange_timestamp_us'') (\<lambda>exchange_ts_col.
     and_then (string_column b ''asset_id'') (\<lambda>asset_id_col.
     and_then (string_column b ''source'') (\<lambda>source_col.
     and_then (string_column b ''source_event_id'') (\<lambda>source_event_id_col.
     and_then (string_column b ''source_session_id'') (\<lambda>source_session_id_col.
     and_then (string_column b ''bids_json'') (\<lambda>bids_col.
     and_then (string_column b ''asks_json'') (\<lambda>asks_col.
     Some (collect_rows (\<lambda>i.
       if slot 0 checkpoint_ts_col i < start_us \<or> end_us < slot 0 checkpoint_ts_col i then Inr None
       else if slot [] asset_id_col i \<noteq> a then Inr None
       else (case parse_source (slot [] source_col i) of
               Inl e \<Rightarrow> Inl e
             | Inr src \<Rightarrow>
            (case levels_from_json A (slot [] bids_col i) of
               Inl e \<Rightarrow> Inl (ReplayJson e)
             | Inr bid_levels \<Rightarrow>
            (case levels_from_json A (slot [] asks_col i) of
               Inl e \<Rightarrow> Inl (ReplayJson e)
             | Inr ask_levels \<Rightarrow> Inr (Some
                 \<lparr> cp_asset_id = slot [] asset_id_col i, cp_timestamp_us = slot 0 checkpoint_ts_col i, cp_provenance =
                  \<lparr> recv_timestamp_us = slot 0 recv_ts_col i, exchange_timestamp_us = slot 0 exchange_ts_col i, source = src,
                    source_event_id = source_event_id_col ! i, source_session_id = source_session_id_col ! i,
                    prov_sequence = None, ingest_ordinal = None \<rparr>,
                   cp_bids = bid_levels, cp_asks = ask_levels, cp_wal_offset = wal_offset_at b i \<rparr>))))) [0..<rb_rows b]))))))))))"

definition extract_validations :: "record_batch \<Rightarrow> asset_id \<Rightarrow> u64 \<Rightarrow> u64 \<Rightarrow> (replay_error + replay_validation list) option" where
  "extract_validations b a start_us end_us =
     and_then (string_column b ''asset_id'') (\<lambda>asset_id_col.
     and_then (string_column b ''mode'') (\<lambda>mode_col.
     and_then (u64_column b ''replay_timestamp_us'') (\<lambda>replay_ts_col.
     and_then (u64_column b ''reference_timestamp_us'') (\<lambda>reference_ts_col.
     and_then (boolean_column b ''matched'') (\<lambda>matched_col.
     and_then (string_column b ''mismatch_summary'') (\<lambda>mismatch_col.
     and_then (u64_column b ''persisted_at_us'') (\<lambda>persisted_col.
     Some (collect_rows (\<lambda>i.
       if slot 0 persisted_col i < start_us \<or> end_us < slot 0 persisted_col i then Inr None
       else if slot [] asset_id_col i \<noteq> a then Inr None
       else (case parse_replay_mode (slot [] mode_col i) of
               Inl e \<Rightarrow> Inl e
             | Inr mode \<Rightarrow> Inr (Some
                 \<lparr> rv_asset_id = slot [] asset_id_col i, rv_mode = mode, rv_replay_timestamp_us = slot 0 replay_ts_col i,
                   rv_reference_timestamp_us = slot 0 reference_ts_col i, rv_matched = slot False matched_col i,
                   rv_mismatch_summary = mismatch_col ! i, rv_persisted_at_us = slot 0 persisted_col i \<rparr>))) [0..<rb_rows b]))))))))"

section \<open>What is read back\<close>

text \<open>Documented behaviour of Arrow and serde: fitting columns make a batch of those columns, and
  the JSON text of levels with valid prices reads back.\<close>

definition arrow_ok :: "arrow_lib \<Rightarrow> bool" where
  "arrow_ok A \<longleftrightarrow>
     (\<forall>s cols n. columns_fit s cols n \<longrightarrow>
        try_new A s cols = Inr \<lparr> rb_schema = s, rb_columns = cols, rb_rows = n \<rparr>)"

definition json_ok :: "arrow_lib \<Rightarrow> bool" where
  "json_ok A \<longleftrightarrow>
     (\<forall>ls. list_all (\<lambda>l. price_valid (pl_price l)) ls \<longrightarrow>
        (\<exists>t. levels_to_json A ls = Inr t \<and> levels_from_json A t = Inr ls))"

text \<open>Fields without a column are lost: the ordinal of all but book events, the sequence of
  checkpoints.\<close>

definition stored_trade :: "trade_event \<Rightarrow> trade_event" where
  "stored_trade e = e\<lparr> te_provenance := (te_provenance e)\<lparr> ingest_ordinal := None \<rparr> \<rparr>"

definition stored_ingest :: "ingest_event \<Rightarrow> ingest_event" where
  "stored_ingest e = e\<lparr> ie_provenance := (ie_provenance e)\<lparr> ingest_ordinal := None \<rparr> \<rparr>"

definition stored_checkpoint :: "book_checkpoint \<Rightarrow> book_checkpoint" where
  "stored_checkpoint c =
     c\<lparr> cp_provenance := (cp_provenance c)\<lparr> prov_sequence := None, ingest_ordinal := None \<rparr> \<rparr>"

definition in_range :: "u64 \<Rightarrow> u64 \<Rightarrow> u64 \<Rightarrow> bool" where
  "in_range start_us end_us t \<longleftrightarrow> start_us \<le> t \<and> t \<le> end_us"

lemma batch_built:
  assumes "arrow_ok A" "columns_fit s cols n"
  shows "build_batch A s cols = Inr \<lparr> rb_schema = s, rb_columns = cols, rb_rows = n \<rparr>"
  using assms by (simp add: arrow_ok_def build_batch_def)

lemma collect_rows_select:
  assumes "\<And>i. i < length xs \<Longrightarrow> row i = (if P (xs ! i) then Inr (Some (h (xs ! i))) else Inr None)"
  shows "collect_rows row [0..<length xs] = Inr (map h (filter P xs))"
proof -
  have "set is \<subseteq> {..<length xs} \<Longrightarrow> collect_rows row is = Inr (map h (filter P (map ((!) xs) is)))" for "is"
    by (induction "is") (auto simp: assms)
  from this [of "[0..<length xs]"] show ?thesis by (simp add: map_nth atLeast0LessThan)
qed

lemma slot_map [simp]: "i < length xs \<Longrightarrow> slot d (map f xs) i = (case f (xs ! i) of Some x \<Rightarrow> x | None \<Rightarrow> d)"
  by (simp add: slot_def)

lemma Not_range: "(t < start_us \<or> end_us < t) \<longleftrightarrow> \<not> in_range start_us end_us t"
  by (auto simp: in_range_def)

lemma raw_sequence_back [simp]: "map_option Sequence (raw_sequence p) = prov_sequence p"
  by (cases "prov_sequence p") (simp_all add: raw_sequence_def)

lemma side_code_back [simp]:
  "side_to_u8 (Some sd) = Some n \<Longrightarrow> parse_side_value n = Inr sd"
  by (simp add: parse_side_iff)

lemma side_slot [simp]: "parse_side_value (case side_to_u8 (Some sd) of Some x \<Rightarrow> x | None \<Rightarrow> 0) = Inr sd"
  by (cases sd) (simp_all add: side_to_u8_def parse_side_value_def)

lemma optional_side [simp]:
  "(case side_to_u8 sd of None \<Rightarrow> Inr None | Some v \<Rightarrow> map_sum id Some (parse_side_value v)) = Inr sd"
  by (cases sd) (auto simp: side_to_u8_def parse_side_value_def split: side.splits)

lemma price_back: "price_valid p \<Longrightarrow> price_new (price_raw p) = Inr p"
  by (simp add: price_new_valid)

lemma map_raw_size [simp]: "map_option FixedSize (map_option size_raw z) = z"
  by (cases z) simp_all

lemma nulls_of_Some [simp]: "list_all Not (map Option.is_none (map (\<lambda>x. Some (f x)) xs))"
  by (simp add: list_all_iff)

lemma side_nulls [simp]: "\<not> Option.is_none (side_to_u8 (Some sd))"
  by (simp add: side_to_u8_def)

lemmas schema_defs = book_event_schema_def trade_event_schema_def ingest_event_schema_def
  checkpoint_schema_def replay_validation_schema_def versioned_def field_new_def

lemmas column_defs = u8_column_def u32_column_def u64_column_def string_column_def boolean_column_def
  column_by_name_def ordinal_column_def

text \<open>Each writer fits its schema; each reader keeps the rows in range of its asset.\<close>

lemma book_rows:
  assumes "arrow_ok A" "\<And>e. e \<in> set es \<Longrightarrow> price_valid (be_price e)"
  shows "\<exists>b. book_event_refs_to_record_batch A es = Inr b \<and>
    extract_book_events b a s t = Some (Inr (filter (\<lambda>e. in_range s t (event_recv e) \<and> be_asset_id e = a) es))"
  unfolding book_event_refs_to_record_batch_def extract_book_events_def
  apply (subst batch_built [OF assms(1), where n = "length es"])
   apply (simp add: columns_fit_def schema_defs list_all_iff)
  apply (simp add: column_defs schema_defs Not_range)
  apply (rule trans [OF collect_rows_select [where xs = es and h = "\<lambda>e. e" and P = "\<lambda>e. in_range s t (event_recv e) \<and> be_asset_id e = a"]])
   apply (simp_all add: assms(2) price_back event_recv_def)
  done

lemma trade_rows:
  assumes "arrow_ok A" "\<And>e. e \<in> set es \<Longrightarrow> price_valid (te_price e)"
  shows "\<exists>b. trade_event_refs_to_record_batch A es = Inr b \<and>
    extract_trade_events b a s t = Some (Inr (map stored_trade
      (filter (\<lambda>e. in_range s t (recv_timestamp_us (te_provenance e)) \<and> te_asset_id e = a) es)))"
  unfolding trade_event_refs_to_record_batch_def extract_trade_events_def
  apply (subst batch_built [OF assms(1), where n = "length es"])
   apply (simp add: columns_fit_def schema_defs list_all_iff)
  apply (simp add: column_defs schema_defs Not_range)
  apply (rule collect_rows_select)
  apply (simp add: assms(2) price_back stored_trade_def)
  done

lemma ingest_rows:
  assumes "arrow_ok A"
  shows "\<exists>b. ingest_event_refs_to_record_batch A es = Inr b \<and>
    extract_ingest_events b a s t = Some (Inr (map stored_ingest
      (filter (\<lambda>e. in_range s t (recv_timestamp_us (ie_provenance e)) \<and> (ie_asset_id e = None \<or> ie_asset_id e = Some a)) es)))"
  unfolding ingest_event_refs_to_record_batch_def extract_ingest_events_def
  apply (subst batch_built [OF assms(1), where n = "length es"])
   apply (simp add: columns_fit_def schema_defs list_all_iff)
  apply (simp add: column_defs schema_defs Not_range)
  apply (rule collect_rows_select)
  apply (auto simp add: stored_ingest_def split: option.splits)
  done

lemma validation_rows:
  assumes "arrow_ok A"
  shows "\<exists>b. replay_validation_refs_to_record_batch A vs = Inr b \<and>
    extract_validations b a s t = Some (Inr (filter (\<lambda>v. in_range s t (rv_persisted_at_us v) \<and> rv_asset_id v = a) vs))"
  unfolding replay_validation_refs_to_record_batch_def extract_validations_def
  apply (subst batch_built [OF assms(1), where n = "length vs"])
   apply (simp add: columns_fit_def schema_defs list_all_iff)
  apply (simp add: column_defs schema_defs Not_range)
  apply (rule trans [OF collect_rows_select [where xs = vs and h = "\<lambda>v. v" and P = "\<lambda>v. in_range s t (rv_persisted_at_us v) \<and> rv_asset_id v = a"]])
   apply simp_all
  done

lemma collect_Inr:
  "(\<And>x. x \<in> set xs \<Longrightarrow> f x = Inr (g x)) \<Longrightarrow> collect (map f xs) = Inr (map g xs)"
  by (induction xs) simp_all

definition checkpoint_valid :: "book_checkpoint \<Rightarrow> bool" where
  "checkpoint_valid c \<longleftrightarrow> list_all (\<lambda>l. price_valid (pl_price l)) (cp_bids c) \<and>
     list_all (\<lambda>l. price_valid (pl_price l)) (cp_asks c)"

lemma checkpoint_rows:
  assumes "arrow_ok A" "json_ok A" "\<And>c. c \<in> set cs \<Longrightarrow> checkpoint_valid c"
  shows "\<exists>b. checkpoint_refs_to_record_batch A cs = Inr b \<and>
    extract_checkpoints A b a s t = Some (Inr (map stored_checkpoint
      (filter (\<lambda>c. in_range s t (cp_timestamp_us c) \<and> cp_asset_id c = a) cs)))"
proof -
  have "\<forall>ls. \<exists>j. list_all (\<lambda>l. price_valid (pl_price l)) ls \<longrightarrow> levels_to_json A ls = Inr j \<and> levels_from_json A j = Inr ls"
    using assms(2) unfolding json_ok_def by blast
  then obtain js where "\<forall>ls. list_all (\<lambda>l. price_valid (pl_price l)) ls \<longrightarrow>
      levels_to_json A ls = Inr (js ls) \<and> levels_from_json A (js ls) = Inr ls"
    by (rule choice [THEN exE])
  then have js: "levels_to_json A ls = Inr (js ls)" "levels_from_json A (js ls) = Inr ls"
    if "list_all (\<lambda>l. price_valid (pl_price l)) ls" for ls
    using that by blast+
  have bids_text: "collect (map (\<lambda>c. map_sum StoreJson id (levels_to_json A (cp_bids c))) cs) = Inr (map (js \<circ> cp_bids) cs)"
    using assms(3) js(1) by (intro collect_Inr) (simp add: checkpoint_valid_def)
  have asks_text: "collect (map (\<lambda>c. map_sum StoreJson id (levels_to_json A (cp_asks c))) cs) = Inr (map (js \<circ> cp_asks) cs)"
    using assms(3) js(1) by (intro collect_Inr) (simp add: checkpoint_valid_def)
  show ?thesis
    unfolding checkpoint_refs_to_record_batch_def extract_checkpoints_def bids_text asks_text sum.case
    apply (subst batch_built [OF assms(1), where n = "length cs"])
     apply (simp add: columns_fit_def schema_defs list_all_iff)
    apply (simp add: column_defs schema_defs Not_range)
    apply (rule collect_rows_select)
    using assms(3) js(2) apply (simp add: stored_checkpoint_def checkpoint_valid_def wal_offset_at_def column_by_name_def)
    done
qed

text \<open>The dataset of a batch.\<close>

lemma mixed_all:
  "(\<And>x. x \<in> set xs \<Longrightarrow> pick (f x) = Some x) \<Longrightarrow> mixed (map f xs) pick = Inr xs"
  unfolding mixed_def map_map by (rule trans [OF collect_Inr [where g = id]]) simp_all

lemma batch_of_dataset:
  "es \<noteq> [] \<Longrightarrow> records_to_record_batch A (map Book es) = book_event_refs_to_record_batch A es"
  "ts \<noteq> [] \<Longrightarrow> records_to_record_batch A (map Trade ts) = trade_event_refs_to_record_batch A ts"
  "is \<noteq> [] \<Longrightarrow> records_to_record_batch A (map Ingest is) = ingest_event_refs_to_record_batch A is"
  "cs \<noteq> [] \<Longrightarrow> records_to_record_batch A (map Checkpoint cs) = checkpoint_refs_to_record_batch A cs"
  "vs \<noteq> [] \<Longrightarrow> records_to_record_batch A (map Validation vs) = replay_validation_refs_to_record_batch A vs"
  by (auto simp: records_to_record_batch_def mixed_all neq_Nil_conv mixed_def collect_Inr [where g = id])

section \<open>The round trip\<close>

text \<open>The reader of a record's dataset.\<close>

fun extract_rows :: "persisted_record \<Rightarrow> arrow_lib \<Rightarrow> record_batch \<Rightarrow> asset_id \<Rightarrow> u64 \<Rightarrow> u64 \<Rightarrow>
    (replay_error + persisted_record list) option" where
  "extract_rows (Book _) A b a s t = map_option (map_sum id (map Book)) (extract_book_events b a s t)"
| "extract_rows (Trade _) A b a s t = map_option (map_sum id (map Trade)) (extract_trade_events b a s t)"
| "extract_rows (Ingest _) A b a s t = map_option (map_sum id (map Ingest)) (extract_ingest_events b a s t)"
| "extract_rows (Checkpoint _) A b a s t = map_option (map_sum id (map Checkpoint)) (extract_checkpoints A b a s t)"
| "extract_rows (Validation _) A b a s t = map_option (map_sum id (map Validation)) (extract_validations b a s t)"

fun record_valid :: "persisted_record \<Rightarrow> bool" where
  "record_valid (Book e) = price_valid (be_price e)"
| "record_valid (Trade e) = price_valid (te_price e)"
| "record_valid (Ingest _) = True"
| "record_valid (Checkpoint c) = checkpoint_valid c"
| "record_valid (Validation _) = True"

fun stored_form :: "persisted_record \<Rightarrow> persisted_record" where
  "stored_form (Book e) = Book e"
| "stored_form (Trade e) = Trade (stored_trade e)"
| "stored_form (Ingest e) = Ingest (stored_ingest e)"
| "stored_form (Checkpoint c) = Checkpoint (stored_checkpoint c)"
| "stored_form (Validation v) = Validation v"

text \<open>An ingest event without an asset concerns every asset.\<close>

fun concerns :: "asset_id \<Rightarrow> persisted_record \<Rightarrow> bool" where
  "concerns a (Ingest e) = (case ie_asset_id e of None \<Rightarrow> True | Some b \<Rightarrow> b = a)"
| "concerns a r = (asset_partition r = a)"

definition wanted :: "asset_id \<Rightarrow> u64 \<Rightarrow> u64 \<Rightarrow> persisted_record \<Rightarrow> bool" where
  "wanted a s t r \<longleftrightarrow> in_range s t (partition_timestamp_us r) \<and> concerns a r"

definition one_dataset :: "persisted_record list \<Rightarrow> bool" where
  "one_dataset rs \<longleftrightarrow> list_all (\<lambda>r. dataset_name r = dataset_name (hd rs)) rs"

lemma dataset_eq:
  "dataset_name r = ''book_events'' \<longleftrightarrow> (\<exists>e. r = Book e)"
  "dataset_name r = ''trade_events'' \<longleftrightarrow> (\<exists>e. r = Trade e)"
  "dataset_name r = ''ingest_events'' \<longleftrightarrow> (\<exists>e. r = Ingest e)"
  "dataset_name r = ''book_checkpoints'' \<longleftrightarrow> (\<exists>e. r = Checkpoint e)"
  "dataset_name r = ''replay_validations'' \<longleftrightarrow> (\<exists>e. r = Validation e)"
  by (cases r; simp)+

lemma all_of_dataset: "list_all (\<lambda>r. \<exists>e. r = C e) rs \<Longrightarrow> \<exists>es. rs = map C es"
  by (induction rs) (auto, metis list.simps(9))

lemma one_dataset_cases:
  assumes "one_dataset rs" "rs \<noteq> []"
  obtains es where "rs = map Book es" "es \<noteq> []"
  | es where "rs = map Trade es" "es \<noteq> []"
  | es where "rs = map Ingest es" "es \<noteq> []"
  | es where "rs = map Checkpoint es" "es \<noteq> []"
  | es where "rs = map Validation es" "es \<noteq> []"
proof -
  have "list_all (\<lambda>r. dataset_name r = dataset_name (hd rs)) rs" using assms(1) by (simp add: one_dataset_def)
  then consider es where "rs = map Book es" | es where "rs = map Trade es" | es where "rs = map Ingest es"
    | es where "rs = map Checkpoint es" | es where "rs = map Validation es"
    by (cases "hd rs") (auto simp: dataset_eq dest!: all_of_dataset)
  then show ?thesis
    using that assms(2) by cases simp_all
qed

lemma concerns_ingest: "concerns a (Ingest e) \<longleftrightarrow> ie_asset_id e = None \<or> ie_asset_id e = Some a"
  by (simp split: option.splits)

lemma filter_records:
  "filter (wanted a s t) (map Book es) = map Book (filter (\<lambda>e. in_range s t (event_recv e) \<and> be_asset_id e = a) es)"
  "filter (wanted a s t) (map Trade ts) =
     map Trade (filter (\<lambda>e. in_range s t (recv_timestamp_us (te_provenance e)) \<and> te_asset_id e = a) ts)"
  "filter (wanted a s t) (map Ingest is) = map Ingest (filter (\<lambda>e. in_range s t (recv_timestamp_us (ie_provenance e)) \<and>
     (ie_asset_id e = None \<or> ie_asset_id e = Some a)) is)"
  "filter (wanted a s t) (map Checkpoint cs) =
     map Checkpoint (filter (\<lambda>c. in_range s t (cp_timestamp_us c) \<and> cp_asset_id c = a) cs)"
  "filter (wanted a s t) (map Validation vs) =
     map Validation (filter (\<lambda>v. in_range s t (rv_persisted_at_us v) \<and> rv_asset_id v = a) vs)"
  by (simp_all add: filter_map comp_def wanted_def event_recv_def concerns_ingest del: concerns.simps(1))

lemma stored_rows:
  assumes "arrow_ok A" "json_ok A" "rs \<noteq> []" "one_dataset rs" "list_all record_valid rs"
  shows "\<exists>b. records_to_record_batch A rs = Inr b \<and>
    extract_rows (hd rs) A b a s t = Some (Inr (map stored_form (filter (wanted a s t) rs)))"
  using assms(4,3)
proof (cases rule: one_dataset_cases)
  case (1 es)
  with assms(5) book_rows [OF assms(1), of es a s t] show ?thesis
    by (auto simp: batch_of_dataset filter_records hd_map list_all_iff)
next
  case (2 es)
  with assms(5) trade_rows [OF assms(1), of es a s t] show ?thesis
    by (auto simp: batch_of_dataset filter_records hd_map list_all_iff)
next
  case (3 es)
  with ingest_rows [OF assms(1), of es a s t] show ?thesis
    by (auto simp: batch_of_dataset filter_records hd_map)
next
  case (4 es)
  with assms(5) checkpoint_rows [OF assms(1,2), of es a s t] show ?thesis
    by (auto simp: batch_of_dataset filter_records hd_map list_all_iff)
next
  case (5 es)
  with validation_rows [OF assms(1), of es a s t] show ?thesis
    by (auto simp: batch_of_dataset filter_records hd_map)
qed

text \<open>
  C40. What is stored is what is read. A non-empty batch of valid records of one dataset is
  written, and reading it back for an asset and a time range returns exactly the records of that
  range that concern the asset, in order and complete up to the fields without a column (the
  ingest ordinal of all but book events, the sequence of checkpoints).
\<close>

theorem stored_rows_roundtrip:
  assumes "arrow_ok A" "json_ok A" "rs \<noteq> []" "one_dataset rs" "list_all record_valid rs"
  shows "\<exists>b. records_to_record_batch A rs = Inr b \<and>
    extract_rows (hd rs) A b a s t = Some (Inr (map stored_form (filter (wanted a s t) rs)))"
  using assms by (rule stored_rows)

text \<open>An instance of the libraries: batches are kept as they are, levels are written in decimal.\<close>

definition level_text :: "price_level \<Rightarrow> string" where
  "level_text l = dec (unat (ucast (price_raw (pl_price l)) :: u64)) @ '','' @ dec (unat (size_raw (pl_size l))) @ '';''"

fun read_levels :: "nat \<Rightarrow> string \<Rightarrow> string + price_level list" where
  "read_levels n [] = Inr []"
| "read_levels 0 s = Inl ''too long''"
| "read_levels (Suc n) s =
     (case split_once (CHR '';'') s of
        None \<Rightarrow> Inl ''no level end''
      | Some (l, rest) \<Rightarrow>
          (case split_once (CHR '','') l of
             None \<Rightarrow> Inl ''no size''
           | Some (p, z) \<Rightarrow>
               (case (parse_u64 p, parse_u64 z) of
                  (Some p, Some z) \<Rightarrow>
                    map_sum id ((#) \<lparr> pl_price = FixedPrice (ucast p), pl_size = FixedSize z \<rparr>) (read_levels n rest)
                | _ \<Rightarrow> Inl ''no number'')))"

definition sample_lib :: arrow_lib where
  "sample_lib =
     \<lparr> try_new = (\<lambda>s cols. if cols = [] then Inl ''no columns''
         else Inr \<lparr> rb_schema = s, rb_columns = cols, rb_rows = length (array_nulls (hd cols)) \<rparr>),
       levels_to_json = (\<lambda>ls. Inr (concat (map level_text ls))),
       levels_from_json = (\<lambda>s. read_levels (length s) s) \<rparr>"

lemma sample_arrow_ok [simp]: "arrow_ok sample_lib"
  by (auto simp: arrow_ok_def columns_fit_def sample_lib_def list_all2_Cons2 neq_Nil_conv)

lemma read_level_text: "length ls \<le> n \<Longrightarrow> read_levels n (concat (map level_text ls)) = Inr ls"
proof (induction ls arbitrary: n)
  case (Cons l ls)
  then obtain m where n: "n = Suc m" "length ls \<le> m" by (cases n) auto
  let ?p = "dec (unat (ucast (price_raw (pl_price l)) :: u64))" and ?z = "dec (unat (size_raw (pl_size l)))"
  have no: "CHR '';'' \<notin> set (?p @ CHR '','' # ?z)" "CHR '','' \<notin> set ?p"
    using digit_set_no [OF dec_digits] by (simp_all add: is_ascii_digit_def char_code_def)
  have s: "concat (map level_text (l # ls)) = (?p @ CHR '','' # ?z) @ CHR '';'' # concat (map level_text ls)"
    by (simp add: level_text_def)
  have "read_levels n (concat (map level_text (l # ls))) = map_sum id ((#) l) (read_levels m (concat (map level_text ls)))"
  proof -
    obtain c cs where "concat (map level_text (l # ls)) = c # cs" unfolding s by (cases ?p) auto
    then have "read_levels (Suc m) (concat (map level_text (l # ls))) =
        (case split_once (CHR '';'') (concat (map level_text (l # ls))) of
          None \<Rightarrow> Inl ''no level end''
        | Some (l, rest) \<Rightarrow>
          (case split_once (CHR '','') l of
             None \<Rightarrow> Inl ''no size''
           | Some (p, z) \<Rightarrow>
               (case (parse_u64 p, parse_u64 z) of
                  (Some p, Some z) \<Rightarrow>
                    map_sum id ((#) \<lparr> pl_price = FixedPrice (ucast p), pl_size = FixedSize z \<rparr>) (read_levels m rest)
                | _ \<Rightarrow> Inl ''no number'')))" by simp
    then show ?thesis
      unfolding n(1) s split_once_append [OF no(1)] option.case prod.case split_once_append [OF no(2)] parse_u64_dec
      by (cases l) (simp add: ucast_up_down)
  qed
  with Cons.IH [OF n(2)] show ?case by simp
qed (cases n, simp_all)

lemma level_text_length: "length ls \<le> length (concat (map level_text ls))"
  by (induction ls) (simp_all add: level_text_def)

lemma sample_json_ok [simp]: "json_ok sample_lib"
  using read_level_text [OF level_text_length] by (simp add: json_ok_def sample_lib_def)

theorem stored_rows_roundtrip_witness:
  "let e = sample_event Snapshot Bid 4000 5 20 0 0 3; e' = sample_event Delta Ask 6000 7 90 0 0 4
   in \<exists>b. records_to_record_batch sample_lib [Book e, Book e'] = Inr b \<and>
        extract_rows (Book e) sample_lib b ''a'' 0 50 = Some (Inr [Book e])"
proof -
  let ?e = "sample_event Snapshot Bid 4000 5 20 0 0 3" and ?e' = "sample_event Delta Ask 6000 7 90 0 0 4"
  have "one_dataset [Book ?e, Book ?e']" "list_all record_valid [Book ?e, Book ?e']"
    by (simp_all add: one_dataset_def sample_event_def price_valid_def PRICE_SCALE_def)
  note stored_rows_roundtrip [OF sample_arrow_ok sample_json_ok _ this, of "''a''" 0 50]
  moreover have "wanted ''a'' 0 50 (Book ?e)" "\<not> wanted ''a'' 0 50 (Book ?e')"
    by (simp_all add: wanted_def in_range_def sample_event_def)
  ultimately show ?thesis by (simp add: Let_def)
qed

end
