(* ===== verification/BatchParts.thy ===== *)
theory BatchParts
  imports Rows
begin

text \<open>
  A Parquet file is read back in parts: record batches with the same schema whose columns are
  consecutive slices of the columns written. The slices of a stored batch are the batches of
  the slices of the records, so the extractors see every record once, whatever the parts.
\<close>

section \<open>Slices\<close>

fun array_take :: "nat \<Rightarrow> arrow_array \<Rightarrow> arrow_array" where
  "array_take n (UInt8Array vs) = UInt8Array (take n vs)"
| "array_take n (UInt32Array vs) = UInt32Array (take n vs)"
| "array_take n (UInt64Array vs) = UInt64Array (take n vs)"
| "array_take n (StringArray vs) = StringArray (take n vs)"
| "array_take n (BooleanArray vs) = BooleanArray (take n vs)"

fun array_drop :: "nat \<Rightarrow> arrow_array \<Rightarrow> arrow_array" where
  "array_drop n (UInt8Array vs) = UInt8Array (drop n vs)"
| "array_drop n (UInt32Array vs) = UInt32Array (drop n vs)"
| "array_drop n (UInt64Array vs) = UInt64Array (drop n vs)"
| "array_drop n (StringArray vs) = StringArray (drop n vs)"
| "array_drop n (BooleanArray vs) = BooleanArray (drop n vs)"

definition batch_take :: "nat \<Rightarrow> record_batch \<Rightarrow> record_batch" where
  "batch_take n b = b\<lparr> rb_columns := map (array_take n) (rb_columns b), rb_rows := min (rb_rows b) n \<rparr>"

definition batch_drop :: "nat \<Rightarrow> record_batch \<Rightarrow> record_batch" where
  "batch_drop n b = b\<lparr> rb_columns := map (array_drop n) (rb_columns b), rb_rows := rb_rows b - n \<rparr>"

text \<open>The parts of a batch, by their numbers of rows.\<close>

fun batch_parts :: "nat list \<Rightarrow> record_batch \<Rightarrow> record_batch list" where
  "batch_parts [] b = []"
| "batch_parts (n # ns) b = batch_take n b # batch_parts ns (batch_drop n b)"

section \<open>Slices of stored records\<close>

lemma slice_type [simp]: "array_type (array_take n c) = array_type c" "array_type (array_drop n c) = array_type c"
  by (cases c; simp)+

lemma slice_nulls [simp]:
  "array_nulls (array_take n c) = take n (array_nulls c)" "array_nulls (array_drop n c) = drop n (array_nulls c)"
  by (cases c; simp add: take_map drop_map)+

lemma build_slices:
  assumes "arrow_ok A" "columns_fit s cols k"
  shows "build_batch A s (map (array_take n) cols) = map_sum id (batch_take n) (build_batch A s cols)"
    and "build_batch A s (map (array_drop n) cols) = map_sum id (batch_drop n) (build_batch A s cols)"
proof -
  have "columns_fit s (map (array_take n) cols) (min k n)" "columns_fit s (map (array_drop n) cols) (k - n)"
    using assms(2) unfolding columns_fit_def list_all2_map2
    by (auto elim!: list_all2_mono dest: in_set_takeD in_set_dropD simp: list_all_iff min.commute)
  then show "build_batch A s (map (array_take n) cols) = map_sum id (batch_take n) (build_batch A s cols)"
    and "build_batch A s (map (array_drop n) cols) = map_sum id (batch_drop n) (build_batch A s cols)"
    by (simp_all add: batch_built [OF assms(1)] batch_built [OF assms] batch_take_def batch_drop_def)
qed

lemma book_slices:
  assumes "arrow_ok A"
  shows "book_event_refs_to_record_batch A (take n es) = map_sum id (batch_take n) (book_event_refs_to_record_batch A es)"
    and "book_event_refs_to_record_batch A (drop n es) = map_sum id (batch_drop n) (book_event_refs_to_record_batch A es)"
  unfolding book_event_refs_to_record_batch_def
  by (subst build_slices [OF assms, where k = "length es", symmetric],
      simp add: columns_fit_def schema_defs list_all_iff, simp add: take_map drop_map)+

lemma trade_slices:
  assumes "arrow_ok A"
  shows "trade_event_refs_to_record_batch A (take n es) = map_sum id (batch_take n) (trade_event_refs_to_record_batch A es)"
    and "trade_event_refs_to_record_batch A (drop n es) = map_sum id (batch_drop n) (trade_event_refs_to_record_batch A es)"
  unfolding trade_event_refs_to_record_batch_def
  by (subst build_slices [OF assms, where k = "length es", symmetric],
      simp add: columns_fit_def schema_defs list_all_iff, simp add: take_map drop_map)+

lemma ingest_slices:
  assumes "arrow_ok A"
  shows "ingest_event_refs_to_record_batch A (take n es) = map_sum id (batch_take n) (ingest_event_refs_to_record_batch A es)"
    and "ingest_event_refs_to_record_batch A (drop n es) = map_sum id (batch_drop n) (ingest_event_refs_to_record_batch A es)"
  unfolding ingest_event_refs_to_record_batch_def
  by (subst build_slices [OF assms, where k = "length es", symmetric],
      simp add: columns_fit_def schema_defs list_all_iff, simp add: take_map drop_map)+

lemma validation_slices:
  assumes "arrow_ok A"
  shows "replay_validation_refs_to_record_batch A (take n es) = map_sum id (batch_take n) (replay_validation_refs_to_record_batch A es)"
    and "replay_validation_refs_to_record_batch A (drop n es) = map_sum id (batch_drop n) (replay_validation_refs_to_record_batch A es)"
  unfolding replay_validation_refs_to_record_batch_def
  by (subst build_slices [OF assms, where k = "length es", symmetric],
      simp add: columns_fit_def schema_defs list_all_iff, simp add: take_map drop_map)+

lemma checkpoint_slices:
  assumes "arrow_ok A" "json_ok A" "\<And>c. c \<in> set cs \<Longrightarrow> checkpoint_valid c"
  shows "checkpoint_refs_to_record_batch A (take n cs) = map_sum id (batch_take n) (checkpoint_refs_to_record_batch A cs)"
    and "checkpoint_refs_to_record_batch A (drop n cs) = map_sum id (batch_drop n) (checkpoint_refs_to_record_batch A cs)"
proof -
  define js where "js = (\<lambda>ls. projr (levels_to_json A ls))"
  have js: "levels_to_json A ls = Inr (js ls)" if "list_all (\<lambda>l. price_valid (pl_price l)) ls" for ls
    using assms(2) that by (auto simp: json_ok_def js_def)
  have texts: "collect (map (\<lambda>c. map_sum StoreJson id (levels_to_json A (f c))) xs) = Inr (map (js \<circ> f) xs)"
    if "set xs \<subseteq> set cs" "f = cp_bids \<or> f = cp_asks" for xs f
    using that assms(3) js by (intro collect_Inr) (auto simp: checkpoint_valid_def)
  note texts' = texts [of cs] texts [of "take n cs", OF set_take_subset] texts [of "drop n cs", OF set_drop_subset]
  show "checkpoint_refs_to_record_batch A (take n cs) = map_sum id (batch_take n) (checkpoint_refs_to_record_batch A cs)"
    and "checkpoint_refs_to_record_batch A (drop n cs) = map_sum id (batch_drop n) (checkpoint_refs_to_record_batch A cs)"
    unfolding checkpoint_refs_to_record_batch_def
    by (simp_all only: texts' sum.case simp_thms subset_refl)
      (subst build_slices [OF assms(1), where k = "length cs", symmetric],
        simp add: columns_fit_def schema_defs list_all_iff, simp add: take_map drop_map)+
qed

lemma record_slices:
  assumes "arrow_ok A" "json_ok A" "one_dataset rs" "list_all record_valid rs" "0 < n" "n < length rs"
  shows "records_to_record_batch A (take n rs) = map_sum id (batch_take n) (records_to_record_batch A rs)"
    and "records_to_record_batch A (drop n rs) = map_sum id (batch_drop n) (records_to_record_batch A rs)"
proof -
  have ne: "rs \<noteq> []" using assms(6) by auto
  have "records_to_record_batch A (take n rs) = map_sum id (batch_take n) (records_to_record_batch A rs) \<and>
      records_to_record_batch A (drop n rs) = map_sum id (batch_drop n) (records_to_record_batch A rs)"
    using assms(3) ne
  proof (cases rule: one_dataset_cases)
    case (1 es)
    with assms(5,6) show ?thesis by (auto simp: take_map drop_map batch_of_dataset book_slices [OF assms(1)])
  next
    case (2 es)
    with assms(5,6) show ?thesis by (auto simp: take_map drop_map batch_of_dataset trade_slices [OF assms(1)])
  next
    case (3 es)
    with assms(5,6) show ?thesis by (auto simp: take_map drop_map batch_of_dataset ingest_slices [OF assms(1)])
  next
    case (4 es)
    with assms(4) have "checkpoint_valid c" if "c \<in> set es" for c using that by (auto simp: list_all_iff)
    with 4 assms(5,6) show ?thesis
      by (auto simp: take_map drop_map batch_of_dataset checkpoint_slices [OF assms(1,2)])
  next
    case (5 es)
    with assms(5,6) show ?thesis by (auto simp: take_map drop_map batch_of_dataset validation_slices [OF assms(1)])
  qed
  then show "records_to_record_batch A (take n rs) = map_sum id (batch_take n) (records_to_record_batch A rs)"
    and "records_to_record_batch A (drop n rs) = map_sum id (batch_drop n) (records_to_record_batch A rs)" by blast+
qed

lemma built_rows: "arrow_ok A \<Longrightarrow> columns_fit s cols k \<Longrightarrow> build_batch A s cols = Inr b \<Longrightarrow> rb_rows b = k"
  using batch_built by fastforce

lemma dataset_rows:
  assumes "arrow_ok A"
  shows "book_event_refs_to_record_batch A es = Inr b \<Longrightarrow> rb_rows b = length es"
    and "trade_event_refs_to_record_batch A ts = Inr b \<Longrightarrow> rb_rows b = length ts"
    and "ingest_event_refs_to_record_batch A is = Inr b \<Longrightarrow> rb_rows b = length is"
    and "replay_validation_refs_to_record_batch A vs = Inr b \<Longrightarrow> rb_rows b = length vs"
  unfolding book_event_refs_to_record_batch_def trade_event_refs_to_record_batch_def
    ingest_event_refs_to_record_batch_def replay_validation_refs_to_record_batch_def
  by (erule built_rows [OF assms, rotated], simp add: columns_fit_def schema_defs list_all_iff)+

lemma collect_length: "collect rs = Inr ys \<Longrightarrow> length ys = length rs"
proof (induction rs arbitrary: ys rule: collect.induct)
  case (3 x rs)
  then show ?case by (cases "collect rs") auto
qed simp_all

lemma checkpoint_batch_rows:
  assumes "arrow_ok A" "checkpoint_refs_to_record_batch A cs = Inr b"
  shows "rb_rows b = length cs"
  using assms(2) unfolding checkpoint_refs_to_record_batch_def
  by (auto split: sum.splits dest!: collect_length)
    (erule built_rows [OF assms(1), rotated], simp add: columns_fit_def schema_defs list_all_iff)

lemma batch_rows:
  assumes "arrow_ok A" "json_ok A" "rs \<noteq> []" "one_dataset rs" "list_all record_valid rs" "records_to_record_batch A rs = Inr b"
  shows "rb_rows b = length rs" and "batch_take (length rs) b = b"
proof -
  have "rb_rows b = length rs \<and> batch_take (length rs) b = b"
    using assms(4,3)
  proof (cases rule: one_dataset_cases)
    case (1 es)
    with assms(6) book_slices(1) [OF assms(1), of "length es" es] dataset_rows(1) [OF assms(1)] show ?thesis
      by (auto simp: batch_of_dataset)
  next
    case (2 es)
    with assms(6) trade_slices(1) [OF assms(1), of "length es" es] dataset_rows(2) [OF assms(1)] show ?thesis
      by (auto simp: batch_of_dataset)
  next
    case (3 es)
    with assms(6) ingest_slices(1) [OF assms(1), of "length es" es] dataset_rows(3) [OF assms(1)] show ?thesis
      by (auto simp: batch_of_dataset)
  next
    case (4 es)
    with assms(5) have "checkpoint_valid c" if "c \<in> set es" for c using that by (auto simp: list_all_iff)
    with 4 assms(6) checkpoint_slices(1) [OF assms(1,2), of es "length es"] checkpoint_batch_rows [OF assms(1)] show ?thesis
      by (auto simp: batch_of_dataset)
  next
    case (5 es)
    with assms(6) validation_slices(1) [OF assms(1), of "length es" es] dataset_rows(4) [OF assms(1)] show ?thesis
      by (auto simp: batch_of_dataset)
  qed
  then show "rb_rows b = length rs" and "batch_take (length rs) b = b" by blast+
qed

text \<open>The parts of the stored batch are stored batches of consecutive records.\<close>

lemma parts_of_records:
  assumes "arrow_ok A" "json_ok A" "rs \<noteq> []" "one_dataset rs" "list_all record_valid rs"
    and "records_to_record_batch A rs = Inr b" "sum_list ns = rb_rows b" "0 \<notin> set ns"
  shows "\<exists>rss. concat rss = rs \<and> list_all2 (\<lambda>g p. g \<noteq> [] \<and> records_to_record_batch A g = Inr p) rss (batch_parts ns b)"
  using assms(3-)
proof (induction ns arbitrary: rs b)
  case Nil
  then show ?case using batch_rows [OF assms(1,2)] by fastforce
next
  case (Cons n ns)
  note len = batch_rows [OF assms(1,2) Cons.prems(1-4)]
  show ?case
  proof (cases "ns = []")
    case True
    then have "n = length rs" using Cons.prems(5) len(1) by simp
    with True Cons.prems len(2) show ?thesis by (intro exI [of _ "[rs]"]) simp
  next
    case False
    then have "0 < sum_list ns" using Cons.prems(6) by (cases ns) auto
    with Cons.prems(5,6) len(1) have n: "0 < n" "n < length rs" "sum_list ns = length rs - n" by auto
    note cut = record_slices [OF assms(1,2) Cons.prems(2,3) n(1,2)]
    have one: "one_dataset (drop n rs)" "list_all record_valid (drop n rs)" "drop n rs \<noteq> []"
      using Cons.prems(2,3) n(2) by (auto simp: one_dataset_def list_all_iff hd_drop_conv_nth dest!: in_set_dropD)
    have "sum_list ns = rb_rows (batch_drop n b)" using n(3) len(1) by (simp add: batch_drop_def)
    from Cons.IH [OF one(3,1,2) _ this] cut(2) Cons.prems(4,6) obtain rss where
      "concat rss = drop n rs" "list_all2 (\<lambda>g p. g \<noteq> [] \<and> records_to_record_batch A g = Inr p) rss (batch_parts ns (batch_drop n b))"
      by auto
    with n cut(1) Cons.prems(1,4) show ?thesis by (intro exI [of _ "take n rs # rss"]) simp
  qed
qed

end
