(* ===== verification/Partition.thy ===== *)
theory Partition
  imports Rows "HOL-Library.Signed_Division"
begin

text \<open>
  Hourly partitions. \<open>partition_hour_key\<close> and \<open>RecoveryCoverage\<close> of
  \<open>crates/pb-store/src/writer.rs\<close>, and the hours a read visits (\<open>hour_paths\<close> of
  \<open>crates/pb-replay/src/reader.rs\<close>). A \<open>DateTime<Utc>\<close> is its second count; the calendar that
  \<open>chrono\<close> computes from it (and the range it supports) is a parameter.
\<close>

section \<open>The calendar\<close>

record calendar =
  cal_in_range :: "int \<Rightarrow> bool"
  cal_year :: "int \<Rightarrow> int"
  cal_month :: "int \<Rightarrow> nat"
  cal_day :: "int \<Rightarrow> nat"
  cal_hour :: "int \<Rightarrow> nat"

text \<open>\<open>{:04}\<close> of a signed number: the sign counts towards the width.\<close>

definition year_text :: "int \<Rightarrow> string" where
  "year_text y = (if y < 0 then CHR ''-'' # zero_pad 3 (dec (nat (- y))) else zero_pad 4 (dec (nat y)))"

definition two_digits :: "nat \<Rightarrow> string" where
  "two_digits n = zero_pad 2 (dec n)"

definition hour_text :: "calendar \<Rightarrow> int \<Rightarrow> string" where
  "hour_text C s =
     year_text (cal_year C s) @ ''/'' @ two_digits (cal_month C s) @ ''/'' @ two_digits (cal_day C s) @ ''/'' @
     two_digits (cal_hour C s)"

text \<open>
  Documented behaviour of \<open>chrono\<close>: the times from the epoch to the year 2286 are supported and
  have four-digit years; the fields are those of the UTC hour, and order hours in time.
\<close>

definition cal_fields :: "calendar \<Rightarrow> int \<Rightarrow> int \<times> nat \<times> nat \<times> nat" where
  "cal_fields C s = (cal_year C s, cal_month C s, cal_day C s, cal_hour C s)"

definition calendar_ok :: "calendar \<Rightarrow> bool" where
  "calendar_ok C \<longleftrightarrow>
     (\<forall>s. 0 \<le> s \<and> s \<le> 10000000000 \<longrightarrow> cal_in_range C s \<and> 1970 \<le> cal_year C s \<and> cal_year C s \<le> 2286 \<and>
        cal_month C s \<le> 12 \<and> cal_day C s \<le> 31 \<and> cal_hour C s \<le> 23) \<and>
     (\<forall>s s'. s div 3600 = s' div 3600 \<longrightarrow> cal_fields C s = cal_fields C s') \<and>
     (\<forall>s s'. s div 3600 < s' div 3600 \<longrightarrow> cal_fields C s < cal_fields C s')"

section \<open>The partition of a record\<close>

definition MIN_PLAUSIBLE_PARTITION_US :: u64 where
  "MIN_PLAUSIBLE_PARTITION_US = 1000000000000000"

definition MAX_PLAUSIBLE_PARTITION_US :: u64 where
  "MAX_PLAUSIBLE_PARTITION_US = 10000000000000000"

definition HOUR_US :: u64 where
  "HOUR_US = 3600000000"

definition invalid_partition :: string where
  "invalid_partition = ''invalid_timestamp''"

text \<open>\<open>from_timestamp_micros\<close> rounds down to the second the calendar is asked about.\<close>

definition partition_hour_key :: "calendar \<Rightarrow> u64 \<Rightarrow> string" where
  "partition_hour_key C ts =
     (if \<not> (MIN_PLAUSIBLE_PARTITION_US \<le> ts \<and> ts \<le> MAX_PLAUSIBLE_PARTITION_US) then invalid_partition
      else let s = sint ts div 1000000
           in if cal_in_range C s then hour_text C s else invalid_partition)"

section \<open>Recovery coverage\<close>

record recovery_coverage =
  cov_start_us :: u64
  cov_end_us :: u64

definition coverage_new :: "u64 \<Rightarrow> u64 \<Rightarrow> store_error + recovery_coverage" where
  "coverage_new start_us end_us =
     (if end_us \<le> start_us then
        Inl (UnsafeRecovery (''WAL coverage must increase, got '' @ dec (unat start_us) @ ''..'' @ dec (unat end_us)))
      else if start_us < MIN_PLAUSIBLE_PARTITION_US \<or> MAX_PLAUSIBLE_PARTITION_US < end_us then
        Inl (UnsafeRecovery (''WAL coverage '' @ dec (unat start_us) @ ''..'' @ dec (unat end_us) @
          '' is outside the plausible timestamp range''))
      else Inr \<lparr> cov_start_us = start_us, cov_end_us = end_us \<rparr>)"

definition contains_complete_hour :: "recovery_coverage \<Rightarrow> u64 \<Rightarrow> bool" where
  "contains_complete_hour c ts =
     (let hour_start = ts div HOUR_US * HOUR_US
      in cov_start_us c < hour_start \<and>
         (case checked_add hour_start HOUR_US of None \<Rightarrow> False | Some hour_end \<Rightarrow> hour_end \<le> cov_end_us c))"

section \<open>The hours of a read\<close>

text \<open>The cast to \<open>i64\<close> wraps, the division rounds towards zero, an unsupported second falls back
  to the epoch.\<close>

definition read_second :: "calendar \<Rightarrow> u64 \<Rightarrow> int" where
  "read_second C ts =
     (let s = sint ts sdiv 1000000 in if cal_in_range C s then s else 0)"

function hours_from :: "int \<Rightarrow> int \<Rightarrow> int list" where
  "hours_from current last_s = (if current \<le> last_s then current # hours_from (current + 3600) last_s else [])"
  by auto
termination by (relation "measure (\<lambda>(current, last_s). nat (last_s - current + 1))") auto

declare hours_from.simps [simp del]

definition hour_keys :: "calendar \<Rightarrow> u64 \<Rightarrow> u64 \<Rightarrow> string list" where
  "hour_keys C start_us end_us =
     (let start_s = read_second C start_us
      in map (hour_text C) (hours_from (start_s - start_s mod 3600) (read_second C end_us)))"

section \<open>Correctness\<close>

lemma unat_u64_bound: "unat (t :: u64) < 2 ^ 64"
  using unsigned_less [of t] by simp

lemma unat_hour_start: "unat (t div HOUR_US * HOUR_US) = unat t div 3600000000 * 3600000000"
proof -
  have "unat (t div HOUR_US) = unat t div 3600000000" by (simp add: HOUR_US_def unat_div_distrib)
  moreover have "unat t div 3600000000 * 3600000000 < 2 ^ LENGTH(64)"
    using unat_u64_bound [of t] div_times_less_eq_dividend [of "unat t" 3600000000] by simp
  ultimately show ?thesis by (simp add: unat_mul_small HOUR_US_def)
qed

lemma complete_hour_bounds:
  "contains_complete_hour c t \<longleftrightarrow> unat (cov_start_us c) < unat t div 3600000000 * 3600000000 \<and>
     unat t div 3600000000 * 3600000000 + 3600000000 \<le> unat (cov_end_us c)"
proof -
  let ?s = "unat t div 3600000000 * 3600000000"
  have upper: "(case checked_add (t div HOUR_US * HOUR_US) HOUR_US of None \<Rightarrow> False | Some e \<Rightarrow> e \<le> cov_end_us c) \<longleftrightarrow>
      ?s + 3600000000 \<le> unat (cov_end_us c)"
  proof (cases "checked_add (t div HOUR_US * HOUR_US) HOUR_US")
    case None
    then have "2 ^ 64 \<le> ?s + 3600000000"
      by (simp add: checked_add_eq_None unat_hour_start) (simp add: HOUR_US_def)
    with None show ?thesis using unat_u64_bound [of "cov_end_us c"] by simp
  next
    case (Some e)
    then have "unat e = ?s + 3600000000"
      by (simp add: checked_add_eq_Some unat_hour_start) (simp add: HOUR_US_def)
    with Some show ?thesis by (simp add: word_le_nat_alt)
  qed
  show ?thesis
    unfolding contains_complete_hour_def Let_def upper by (simp add: word_less_nat_alt unat_hour_start)
qed

text \<open>
  Coverage is exact: a recovery may replace an hour precisely when every microsecond of that
  hour lies strictly inside the observed span of the log, so neither the first nor the last hour
  of the log is ever taken for complete; and a span is accepted precisely when it increases
  within the plausible range.
\<close>

theorem coverage_exact:
  "(contains_complete_hour c t \<longleftrightarrow>
      {u. unat u div 3600000000 = unat t div 3600000000} \<subseteq> {cov_start_us c <..< cov_end_us c}) \<and>
   (coverage_new a b = Inr c \<longleftrightarrow> a = cov_start_us c \<and> b = cov_end_us c \<and>
      1000000000000000 \<le> a \<and> a < b \<and> b \<le> 10000000000000000)"
proof
  show "coverage_new a b = Inr c \<longleftrightarrow> a = cov_start_us c \<and> b = cov_end_us c \<and>
      1000000000000000 \<le> a \<and> a < b \<and> b \<le> 10000000000000000"
    by (cases c) (auto simp: coverage_new_def MIN_PLAUSIBLE_PARTITION_US_def MAX_PLAUSIBLE_PARTITION_US_def not_le not_less)
next
  let ?h = "unat t div 3600000000"
  show "contains_complete_hour c t \<longleftrightarrow> {u. unat u div 3600000000 = ?h} \<subseteq> {cov_start_us c <..< cov_end_us c}"
  proof
    assume c: "contains_complete_hour c t"
    show "{u. unat u div 3600000000 = ?h} \<subseteq> {cov_start_us c <..< cov_end_us c}"
    proof
      fix u :: u64
      assume "u \<in> {u. unat u div 3600000000 = ?h}"
      then have "?h * 3600000000 \<le> unat u" "unat u < ?h * 3600000000 + 3600000000"
        using div_mod_decomp [of "unat u" 3600000000] by simp_all
      with c show "u \<in> {cov_start_us c <..< cov_end_us c}"
        by (simp add: complete_hour_bounds word_less_nat_alt)
    qed
  next
    assume all: "{u. unat u div 3600000000 = ?h} \<subseteq> {cov_start_us c <..< cov_end_us c}"
    have in_hour: "unat (cov_start_us c) < n \<and> n < unat (cov_end_us c)"
      if "?h * 3600000000 \<le> n" "n < ?h * 3600000000 + 3600000000" "n < 2 ^ 64" for n
    proof -
      have "n div 3600000000 = ?h" using that(1,2) by (intro div_nat_eqI) simp_all
      moreover have "unat (of_nat n :: u64) = n" using that(3) by (simp add: unat_of_nat_small)
      ultimately have "of_nat n \<in> {cov_start_us c <..< cov_end_us c}" using all by (metis (mono_tags) mem_Collect_eq subsetD)
      then show ?thesis using \<open>unat (of_nat n :: u64) = n\<close> by (simp add: word_less_nat_alt)
    qed
    have "?h * 3600000000 \<le> unat t" using div_times_less_eq_dividend .
    with unat_u64_bound [of t] have first: "unat (cov_start_us c) < ?h * 3600000000" by (intro conjunct1 [OF in_hour]) simp_all
    have "?h * 3600000000 + 3600000000 \<le> unat (cov_end_us c)"
    proof (rule ccontr)
      assume less: "\<not> ?h * 3600000000 + 3600000000 \<le> unat (cov_end_us c)"
      have "?h * 3600000000 < unat (cov_end_us c)"
        using in_hour [of "?h * 3600000000"] \<open>?h * 3600000000 \<le> unat t\<close> unat_u64_bound [of t] by simp
      with less in_hour [of "unat (cov_end_us c)"] unat_u64_bound [of "cov_end_us c"] show False by simp
    qed
    with first show "contains_complete_hour c t" by (simp add: complete_hour_bounds)
  qed
qed

section \<open>A read visits the partition of every record in its range\<close>

lemma hours_from_mem: "c + 3600 * int k \<le> e \<Longrightarrow> c + 3600 * int k \<in> set (hours_from c e)"
proof (induction k arbitrary: c)
  case 0
  then show ?case by (subst hours_from.simps) simp
next
  case (Suc k)
  then have "c + 3600 + 3600 * int k \<in> set (hours_from (c + 3600) e)" by (intro Suc.IH) simp
  with Suc.prems show ?case by (subst hours_from.simps) (auto simp: algebra_simps)
qed

lemma sint_plausible: "ts \<le> MAX_PLAUSIBLE_PARTITION_US \<Longrightarrow> sint ts = int (unat ts)"
proof -
  assume "ts \<le> MAX_PLAUSIBLE_PARTITION_US"
  then have "uint ts \<le> 10000000000000000" by (simp add: MAX_PLAUSIBLE_PARTITION_US_def word_le_def)
  then have "uint ts < 2 ^ 63" by (rule le_less_trans) simp
  moreover have "- (2 ^ 63) \<le> uint ts" by (rule order_trans [of _ 0]) simp_all
  ultimately have "signed_take_bit 63 (uint ts) = uint ts" by (intro signed_take_bit_int_eq_self)
  then show ?thesis by (simp add: sint_uint)
qed

lemma read_second_plausible:
  assumes "calendar_ok C" "ts \<le> MAX_PLAUSIBLE_PARTITION_US"
  shows "read_second C ts = int (unat ts div 1000000)"
proof -
  have "sint ts sdiv 1000000 = int (unat ts div 1000000)"
    unfolding sint_plausible [OF assms(2)] by (simp add: signed_divide_int_def sgn_if zdiv_int)
  moreover have "unat ts \<le> 10000000000000000"
    using assms(2) by (simp add: MAX_PLAUSIBLE_PARTITION_US_def word_le_nat_alt)
  then have "cal_in_range C (int (unat ts div 1000000))" using assms(1) by (simp add: calendar_ok_def)
  ultimately show ?thesis by (simp add: read_second_def)
qed

lemma hour_text_cong: "calendar_ok C \<Longrightarrow> s div 3600 = s' div 3600 \<Longrightarrow> hour_text C s = hour_text C s'"
  unfolding calendar_ok_def cal_fields_def hour_text_def by (metis prod.inject)

lemma partition_text:
  assumes "calendar_ok C" "MIN_PLAUSIBLE_PARTITION_US \<le> ts" "ts \<le> MAX_PLAUSIBLE_PARTITION_US"
  shows "partition_hour_key C ts = hour_text C (int (unat ts div 1000000))"
proof -
  have "unat ts \<le> 10000000000000000"
    using assms(3) by (simp add: MAX_PLAUSIBLE_PARTITION_US_def word_le_nat_alt)
  then have "cal_in_range C (int (unat ts div 1000000))" using assms(1) by (simp add: calendar_ok_def)
  then show ?thesis
    using assms(2,3) by (simp add: partition_hour_key_def sint_plausible zdiv_int Let_def)
qed

lemma partition_visited:
  assumes "calendar_ok C" "start_us \<le> ts" "ts \<le> end_us"
    "MIN_PLAUSIBLE_PARTITION_US \<le> ts" "end_us \<le> MAX_PLAUSIBLE_PARTITION_US"
  shows "partition_hour_key C ts \<in> set (hour_keys C start_us end_us)"
proof -
  let ?t = "int (unat ts div 1000000)" and ?a = "int (unat start_us div 1000000)" and ?b = "int (unat end_us div 1000000)"
  have le: "ts \<le> MAX_PLAUSIBLE_PARTITION_US" "start_us \<le> MAX_PLAUSIBLE_PARTITION_US"
    using assms(2,3,5) by order+
  have order: "?a \<le> ?t" "?t \<le> ?b"
    using assms(2,3) by (simp_all add: word_le_nat_alt div_le_mono)
  define s where "s = 3600 * (?t div 3600)"
  define k where "k = nat (?t div 3600 - ?a div 3600)"
  have "?a div 3600 \<le> ?t div 3600" using order(1) by (rule zdiv_mono1) simp
  then have s: "s = ?a - ?a mod 3600 + 3600 * int k"
    by (simp add: k_def s_def minus_mod_eq_mult_div [symmetric] algebra_simps)
  have "s \<le> ?t" using minus_mod_eq_mult_div [of ?t 3600] pos_mod_sign [of 3600 ?t] unfolding s_def by linarith
  then have "s \<le> ?b" using order(2) by (rule order_trans)
  moreover have "s div 3600 = ?t div 3600" unfolding s_def by simp
  ultimately have "s \<le> ?b" "s div 3600 = ?t div 3600" .
  then have "s \<in> set (hours_from (?a - ?a mod 3600) ?b)" unfolding s by (intro hours_from_mem)
  moreover have "hour_text C s = partition_hour_key C ts"
    unfolding partition_text [OF assms(1,4) le(1)] by (rule hour_text_cong [OF assms(1) \<open>s div 3600 = ?t div 3600\<close>])
  ultimately show ?thesis
    unfolding hour_keys_def Let_def read_second_plausible [OF assms(1) le(2)] read_second_plausible [OF assms(1,5)]
    by (metis image_eqI list.set_map)
qed

section \<open>Hour texts order like hours\<close>

lemma append_less:
  fixes a b :: "'a::linorder list"
  shows "length a = length b \<Longrightarrow> a @ x < b @ y \<longleftrightarrow> a < b \<or> a = b \<and> x < y"
  by (induction a b rule: list_induct2) auto

lemma digit_char_less: "x < y \<Longrightarrow> y < 10 \<Longrightarrow> digit_char x < digit_char y"
  by (simp add: digit_char_def less_char_def of_char_of)

lemma length_pad: "n < 10 ^ w \<Longrightarrow> 0 < w \<Longrightarrow> length (zero_pad w (dec n)) = w"
  using dec_length [of n w] by (simp add: length_zero_pad)

lemma pad_Suc:
  assumes "0 < w"
  shows "zero_pad (Suc w) (dec n) = zero_pad w (dec (n div 10)) @ [digit_char (n mod 10)]"
proof (cases "n < 10")
  case True
  obtain v where "w = Suc v" using assms by (cases w) auto
  moreover have "digit_char 0 = CHR ''0''" by code_simp
  ultimately show ?thesis
    using True by (simp add: zero_pad_def dec.simps [of n] dec.simps [of 0] replicate_append_same [symmetric])
next
  case False
  then show ?thesis by (simp add: zero_pad_def dec.simps [of n])
qed

lemma pad_less:
  assumes "m < n" "n < 10 ^ w" "0 < w"
  shows "zero_pad w (dec m) < zero_pad w (dec n)"
  using assms
proof (induction w arbitrary: m n)
  case (Suc w)
  show ?case
  proof (cases "w = 0")
    case True
    with Suc.prems have "dec m = [digit_char m]" "dec n = [digit_char n]" by (simp_all add: dec.simps [of m] dec.simps [of n])
    with True Suc.prems show ?thesis by (simp add: zero_pad_def digit_char_less)
  next
    case False
    have small: "m div 10 < 10 ^ w" "n div 10 < 10 ^ w" using Suc.prems by simp_all
    show ?thesis
    proof (cases "m div 10 = n div 10")
      case True
      with Suc.prems(1) have "m mod 10 < n mod 10"
        using div_mult_mod_eq [of m 10] div_mult_mod_eq [of n 10] by linarith
      then have "digit_char (m mod 10) < digit_char (n mod 10)" by (rule digit_char_less) simp
      then show ?thesis using False by (simp only: pad_Suc neq0_conv True append_less Cons_less_Cons) simp
    next
      case neq: False
      with Suc.prems(1) have "m div 10 < n div 10" by (meson div_le_mono less_imp_le le_neq_trans)
      with Suc.IH [OF this small(2)] False show ?thesis
        by (simp add: pad_Suc append_less length_pad small)
    qed
  qed
qed simp

lemma hour_text_fields:
  assumes "calendar_ok C" "0 \<le> s" "s \<le> 10000000000"
  shows "hour_text C s = zero_pad 4 (dec (nat (cal_year C s))) @ ''/'' @ two_digits (cal_month C s) @ ''/'' @
      two_digits (cal_day C s) @ ''/'' @ two_digits (cal_hour C s)"
    and "length (zero_pad 4 (dec (nat (cal_year C s)))) = 4" "nat (cal_year C s) < 10 ^ 4" "0 \<le> cal_year C s"
    and "length (two_digits (cal_month C s)) = 2" "length (two_digits (cal_day C s)) = 2" "length (two_digits (cal_hour C s)) = 2"
    and "cal_month C s < 10 ^ 2" "cal_day C s < 10 ^ 2" "cal_hour C s < 10 ^ 2"
proof -
  have b: "1970 \<le> cal_year C s" "cal_year C s \<le> 2286" "cal_month C s \<le> 12" "cal_day C s \<le> 31" "cal_hour C s \<le> 23"
    using assms by (auto simp: calendar_ok_def)
  then show "hour_text C s = zero_pad 4 (dec (nat (cal_year C s))) @ ''/'' @ two_digits (cal_month C s) @ ''/'' @
      two_digits (cal_day C s) @ ''/'' @ two_digits (cal_hour C s)" by (simp add: hour_text_def year_text_def)
  from b show "length (zero_pad 4 (dec (nat (cal_year C s)))) = 4" "nat (cal_year C s) < 10 ^ 4" "0 \<le> cal_year C s"
    "length (two_digits (cal_month C s)) = 2" "length (two_digits (cal_day C s)) = 2" "length (two_digits (cal_hour C s)) = 2"
    "cal_month C s < 10 ^ 2" "cal_day C s < 10 ^ 2" "cal_hour C s < 10 ^ 2"
    by (simp_all add: length_pad two_digits_def)
qed

lemma hour_text_length:
  "calendar_ok C \<Longrightarrow> 0 \<le> s \<Longrightarrow> s \<le> 10000000000 \<Longrightarrow> length (hour_text C s) = 13"
  by (simp add: hour_text_fields)

lemma hour_text_less:
  assumes "calendar_ok C" "0 \<le> s" "s div 3600 < s' div 3600" "s' \<le> 10000000000"
  shows "hour_text C s < hour_text C s'"
proof -
  have "s < s'" using assms(3) by (meson linorder_not_less zdiv_mono1 zero_less_numeral)
  then have bounds: "s \<le> 10000000000" "0 \<le> s'" using assms by simp_all
  note f = hour_text_fields [OF assms(1,2) bounds(1)] and f' = hour_text_fields [OF assms(1) bounds(2) assms(4)]
  have "cal_fields C s < cal_fields C s'" using assms(1,3) unfolding calendar_ok_def by blast
  then have "cal_year C s < cal_year C s' \<or> cal_year C s = cal_year C s' \<and> (cal_month C s < cal_month C s' \<or>
      cal_month C s = cal_month C s' \<and> (cal_day C s < cal_day C s' \<or>
      cal_day C s = cal_day C s' \<and> cal_hour C s < cal_hour C s'))"
    by (simp add: cal_fields_def order_le_less) blast
  then consider "nat (cal_year C s) < nat (cal_year C s')"
    | "cal_year C s = cal_year C s'" "cal_month C s < cal_month C s'"
    | "cal_year C s = cal_year C s'" "cal_month C s = cal_month C s'" "cal_day C s < cal_day C s'"
    | "cal_year C s = cal_year C s'" "cal_month C s = cal_month C s'" "cal_day C s = cal_day C s'" "cal_hour C s < cal_hour C s'"
    using nat_less_eq_zless [OF f(4), of "cal_year C s'"] by blast
  then show ?thesis
    unfolding f(1) f'(1)
    by cases (use f f' in \<open>simp_all add: append_less pad_less two_digits_def\<close>)
qed

section \<open>An instance of the calendar\<close>

text \<open>A calendar of twelve months of 31 days has the documented laws.\<close>

definition sample_calendar :: calendar where
  "sample_calendar =
     \<lparr> cal_in_range = (\<lambda>s. 0 \<le> s \<and> s \<le> 10000000000),
       cal_year = (\<lambda>s. 1970 + s div 3600 div 24 div 31 div 12),
       cal_month = (\<lambda>s. Suc (nat (s div 3600 div 24 div 31 mod 12))),
       cal_day = (\<lambda>s. Suc (nat (s div 3600 div 24 mod 31))),
       cal_hour = (\<lambda>s. nat (s div 3600 mod 24)) \<rparr>"

lemma div_mod_order:
  fixes x y n :: int
  assumes "x < y" "0 < n"
  shows "x div n < y div n \<or> x div n = y div n \<and> nat (x mod n) < nat (y mod n)"
proof (cases "x div n = y div n")
  case True
  have "x mod n = x - x div n * n" "y mod n = y - y div n * n"
    by (simp_all add: minus_div_mult_eq_mod)
  then have "x mod n < y mod n" using assms(1) by (simp add: True)
  with True pos_mod_sign [OF assms(2), of x] show ?thesis by (simp add: nat_less_eq_zless)
next
  case False
  then show ?thesis using assms zdiv_mono1 [of x y n] by (meson le_neq_trans less_imp_le)
qed

lemma fields_less:
  fixes x x' :: int and y y' z z' w w' :: nat
  assumes "x < x' \<or> x = x' \<and> (y < y' \<or> y = y' \<and> (z < z' \<or> z = z' \<and> w < w'))"
  shows "(1970 + x, Suc y, Suc z, w) < (1970 + x', Suc y', Suc z', w')"
  using assms by auto

lemma sample_calendar_ok [simp]: "calendar_ok sample_calendar"
proof -
  have range: "s div 3600 div 24 div 31 div 12 \<le> 311" if "s \<le> 10000000000" for s :: int
    using zdiv_mono1 [OF that, of "3600 * 24 * 31 * 12"] by (simp add: zdiv_zmult2_eq [symmetric])
  have less: "cal_fields sample_calendar s < cal_fields sample_calendar s'" if "s div 3600 < s' div 3600" for s s'
  proof -
    define a b where "a = s div 3600" and "b = s' div 3600"
    define a1 b1 where "a1 = a div 24" and "b1 = b div 24"
    define a2 b2 where "a2 = a1 div 31" and "b2 = b1 div 31"
    note defs = a_def b_def a1_def b1_def a2_def b2_def
    have "a < b" using that by (simp add: a_def b_def)
    then consider "a1 < b1" | "a1 = b1" "nat (a mod 24) < nat (b mod 24)"
      using div_mod_order [of a b 24] by (auto simp: a1_def b1_def)
    then have "a2 div 12 < b2 div 12 \<or> a2 div 12 = b2 div 12 \<and> (nat (a2 mod 12) < nat (b2 mod 12) \<or>
        nat (a2 mod 12) = nat (b2 mod 12) \<and> (nat (a1 mod 31) < nat (b1 mod 31) \<or>
        nat (a1 mod 31) = nat (b1 mod 31) \<and> nat (a mod 24) < nat (b mod 24)))"
    proof cases
      case 1
      then show ?thesis using div_mod_order [of a1 b1 31] div_mod_order [of a2 b2 12] by (auto simp: a2_def b2_def)
    next
      case 2
      then show ?thesis by (simp add: a2_def b2_def)
    qed
    then have "(1970 + a2 div 12, Suc (nat (a2 mod 12)), Suc (nat (a1 mod 31)), nat (a mod 24)) <
        (1970 + b2 div 12, Suc (nat (b2 mod 12)), Suc (nat (b1 mod 31)), nat (b mod 24))"
      by (rule fields_less)
    then show ?thesis
      unfolding defs by (simp only: cal_fields_def sample_calendar_def calendar.select_convs)
  qed
  have "\<forall>s s'. s div 3600 = s' div 3600 \<longrightarrow> cal_fields sample_calendar s = cal_fields sample_calendar s'"
    by (simp add: cal_fields_def sample_calendar_def)
  moreover have "cal_in_range sample_calendar s \<and> 1970 \<le> cal_year sample_calendar s \<and> cal_year sample_calendar s \<le> 2286 \<and>
      cal_month sample_calendar s \<le> 12 \<and> cal_day sample_calendar s \<le> 31 \<and> cal_hour sample_calendar s \<le> 23"
    if "0 \<le> s" "s \<le> 10000000000" for s
  proof -
    define m d h where "m = s div 3600 div 24 div 31 mod 12" and "d = s div 3600 div 24 mod 31" and "h = s div 3600 mod 24"
    have "m < 12" "d < 31" "h < 24" by (simp_all add: m_def d_def h_def)
    moreover have "0 \<le> s div 3600 div 24 div 31 div 12" using that(1) by (simp add: pos_imp_zdiv_nonneg_iff)
    ultimately show ?thesis
      using that range [OF that(2)]
      unfolding sample_calendar_def calendar.select_convs m_def [symmetric] d_def [symmetric] h_def [symmetric]
      by (intro conjI) linarith+
  qed
  ultimately show ?thesis unfolding calendar_ok_def using less by blast
qed

end
