(* ===== verification/ObjectStore.thy ===== *)
theory ObjectStore
  imports Partition
begin

text \<open>
  Programs over an object store. The store is a map from paths to objects; the client of
  \<open>crates/pb-store\<close> and of the Parquet reader puts, gets, lists and deletes objects, and any of
  these calls can fail. A schedule of fates stands for the outside world: a call is done, is
  refused, or is done without the client learning of it. Since a client stops at its first
  error, a crash at any point is such a schedule. An object's bytes are opaque here.
\<close>

section \<open>Programs\<close>

datatype 'e stop = Panic | Failed 'e

datatype fate = Done | Refused string | Unconfirmed string

record 'o store =
  st_objects :: "(string, 'o) hmap"
  st_fates :: "fate list"

type_synonym ('o, 'e, 'a) prog = "'o store \<Rightarrow> 'o store \<times> ('e stop + 'a)"

definition ret :: "'a \<Rightarrow> ('o, 'e, 'a) prog" where
  "ret x st = (st, Inr x)"

definition stop :: "'e \<Rightarrow> ('o, 'e, 'a) prog" where
  "stop e st = (st, Inl (Failed e))"

definition panic :: "('o, 'e, 'a) prog" where
  "panic st = (st, Inl Panic)"

definition andthen :: "('o, 'e, 'a) prog \<Rightarrow> ('a \<Rightarrow> ('o, 'e, 'b) prog) \<Rightarrow> ('o, 'e, 'b) prog" where
  "andthen m f st = (case m st of (st', Inl e) \<Rightarrow> (st', Inl e) | (st', Inr x) \<Rightarrow> f x st')"

text \<open>\<open>?\<close> on a plain result.\<close>

definition of_result :: "'e + 'a \<Rightarrow> ('o, 'e, 'a) prog" where
  "of_result r = (case r of Inl e \<Rightarrow> stop e | Inr x \<Rightarrow> ret x)"

text \<open>A loop that runs a program for each element and collects the results.\<close>

fun for_each :: "'x list \<Rightarrow> ('x \<Rightarrow> ('o, 'e, 'a) prog) \<Rightarrow> ('o, 'e, 'a list) prog" where
  "for_each [] f = ret []"
| "for_each (x # xs) f = andthen (f x) (\<lambda>y. andthen (for_each xs f) (\<lambda>ys. ret (y # ys)))"

section \<open>The calls of the store\<close>

text \<open>Each call takes its fate from the schedule; beyond its end every call is done.\<close>

definition next_fate :: "'o store \<Rightarrow> fate \<times> 'o store" where
  "next_fate st = (case st_fates st of [] \<Rightarrow> (Done, st) | f # fs \<Rightarrow> (f, st\<lparr> st_fates := fs \<rparr>))"

definition write_call :: "('o store \<Rightarrow> 'o store \<times> (object_error + 'a)) \<Rightarrow> 'o store \<Rightarrow> 'o store \<times> (object_error + 'a)" where
  "write_call act st =
     (case next_fate st of
        (Done, st') \<Rightarrow> act st'
      | (Refused m, st') \<Rightarrow> (st', Inl (StoreFailure m))
      | (Unconfirmed m, st') \<Rightarrow> (fst (act st'), Inl (StoreFailure m)))"

definition store_put :: "string \<Rightarrow> 'o \<Rightarrow> 'o store \<Rightarrow> 'o store \<times> (object_error + unit)" where
  "store_put p x = write_call (\<lambda>st. (st\<lparr> st_objects := hm_insert p x (st_objects st) \<rparr>, Inr ()))"

definition store_delete :: "string \<Rightarrow> 'o store \<Rightarrow> 'o store \<times> (object_error + unit)" where
  "store_delete p = write_call (\<lambda>st.
     case hm_get (st_objects st) p of
       None \<Rightarrow> (st, Inl (NotFound p))
     | Some _ \<Rightarrow> (st\<lparr> st_objects := hm_remove p (st_objects st) \<rparr>, Inr ()))"

definition read_call :: "('o store \<Rightarrow> object_error + 'a) \<Rightarrow> 'o store \<Rightarrow> 'o store \<times> (object_error + 'a)" where
  "read_call query st =
     (case next_fate st of
        (Done, st') \<Rightarrow> (st', query st')
      | (Refused m, st') \<Rightarrow> (st', Inl (StoreFailure m))
      | (Unconfirmed m, st') \<Rightarrow> (st', Inl (StoreFailure m)))"

definition store_get :: "string \<Rightarrow> 'o store \<Rightarrow> 'o store \<times> (object_error + 'o)" where
  "store_get p = read_call (\<lambda>st. case hm_get (st_objects st) p of None \<Rightarrow> Inl (NotFound p) | Some x \<Rightarrow> Inr x)"

text \<open>Paths are matched by whole segments, at any depth below the prefix.\<close>

definition under :: "string \<Rightarrow> string \<Rightarrow> bool" where
  "under dir p \<longleftrightarrow> (case strip_prefix (dir @ ''/'') p of None \<Rightarrow> False | Some rest \<Rightarrow> rest \<noteq> [])"

definition store_list :: "string \<Rightarrow> 'o store \<Rightarrow> 'o store \<times> (object_error + string list)" where
  "store_list dir = read_call (\<lambda>st. Inr (filter (under dir) (hm_keys (st_objects st))))"

text \<open>The conversion of a store error by \<open>?\<close>.\<close>

definition call :: "(object_error \<Rightarrow> 'e) \<Rightarrow> ('o store \<Rightarrow> 'o store \<times> (object_error + 'a)) \<Rightarrow> ('o, 'e, 'a) prog" where
  "call wrap op st = map_prod id (map_sum (\<lambda>e. Failed (wrap e)) id) (op st)"

section \<open>Hoare triples with a postcondition for early stops\<close>

definition triple :: "('o store \<Rightarrow> bool) \<Rightarrow> ('o, 'e, 'a) prog \<Rightarrow> ('a \<Rightarrow> 'o store \<Rightarrow> bool) \<Rightarrow> ('o store \<Rightarrow> bool) \<Rightarrow> bool" where
  "triple P m Q E \<longleftrightarrow>
     (\<forall>st. P st \<longrightarrow> (case m st of (st', Inl _) \<Rightarrow> E st' | (st', Inr x) \<Rightarrow> Q x st'))"

text \<open>A property of the objects alone is kept by reading.\<close>

definition on_objects :: "((string, 'o) hmap \<Rightarrow> bool) \<Rightarrow> 'o store \<Rightarrow> bool" where
  "on_objects I st \<longleftrightarrow> I (st_objects st)"

named_theorems triples \<open>sequencing rules of the store programs\<close>

lemma tripleI:
  assumes "\<And>st st' r. P st \<Longrightarrow> m st = (st', r) \<Longrightarrow> (case r of Inl _ \<Rightarrow> E st' | Inr x \<Rightarrow> Q x st')"
  shows "triple P m Q E"
  unfolding triple_def
proof (intro allI impI)
  fix st assume "P st"
  then show "case m st of (st', Inl _) \<Rightarrow> E st' | (st', Inr x) \<Rightarrow> Q x st'"
    using assms [of st "fst (m st)" "snd (m st)"] by (simp add: case_prod_beta)
qed

lemma tripleD:
  "triple P m Q E \<Longrightarrow> P st \<Longrightarrow> m st = (st', r) \<Longrightarrow> (case r of Inl _ \<Rightarrow> E st' | Inr x \<Rightarrow> Q x st')"
  unfolding triple_def by force

lemma triple_andthen [triples]:
  assumes "triple P m R E" "\<And>x. triple (R x) (f x) Q E"
  shows "triple P (andthen m f) Q E"
proof (rule tripleI)
  fix st st' r
  assume "P st" and eq: "andthen m f st = (st', r)"
  obtain st1 r1 where m: "m st = (st1, r1)" by (cases "m st")
  note first = tripleD [OF assms(1) \<open>P st\<close> m]
  show "case r of Inl _ \<Rightarrow> E st' | Inr x \<Rightarrow> Q x st'"
  proof (cases r1)
    case (Inl e)
    with eq m first show ?thesis by (auto simp: andthen_def)
  next
    case (Inr x)
    with eq m have "f x st1 = (st', r)" by (simp add: andthen_def)
    moreover from first Inr have "R x st1" by simp
    ultimately show ?thesis using tripleD [OF assms(2)] by blast
  qed
qed

lemma triple_ret [triples]: "(\<And>st. P st \<Longrightarrow> Q x st) \<Longrightarrow> triple P (ret x) Q E"
  by (simp add: triple_def ret_def)

lemma triple_stop [triples]: "(\<And>st. P st \<Longrightarrow> E st) \<Longrightarrow> triple P (stop e) Q E"
  by (simp add: triple_def stop_def)

lemma triple_panic [triples]: "(\<And>st. P st \<Longrightarrow> E st) \<Longrightarrow> triple P panic Q E"
  by (simp add: triple_def panic_def)

lemma triple_of_result [triples]:
  assumes "\<And>m. I m \<Longrightarrow> K m"
  shows "triple (on_objects I) (of_result r) (\<lambda>x. on_objects (\<lambda>m. I m \<and> r = Inr x)) (on_objects K)"
  using assms unfolding on_objects_def by (cases r) (auto simp: of_result_def triple_def ret_def stop_def)

lemma triple_pre: "triple P m Q E \<Longrightarrow> (\<And>st. P' st \<Longrightarrow> P st) \<Longrightarrow> triple P' m Q E"
  by (auto simp: triple_def)

lemma triple_post:
  assumes "triple P m Q E" "\<And>x st. Q x st \<Longrightarrow> Q' x st" "\<And>st. E st \<Longrightarrow> E' st"
  shows "triple P m Q' E'"
proof (rule tripleI)
  fix st st' r assume "P st" "m st = (st', r)"
  from tripleD [OF assms(1) this] show "case r of Inl _ \<Rightarrow> E' st' | Inr x \<Rightarrow> Q' x st'"
    using assms(2,3) by (auto split: sum.splits)
qed

lemma next_fate_objects: "next_fate st = (f, st') \<Longrightarrow> st_objects st' = st_objects st"
  by (auto simp: next_fate_def split: list.splits)

lemma triple_get [triples]:
  assumes "\<And>m. I m \<Longrightarrow> K m"
  shows "triple (on_objects I) (call w (store_get p)) (\<lambda>x. on_objects (\<lambda>m. I m \<and> hm_get m p = Some x)) (on_objects K)"
  using assms
  by (intro tripleI)
    (auto simp: on_objects_def call_def store_get_def read_call_def split: prod.splits fate.splits option.splits
      dest: next_fate_objects)

lemma triple_list [triples]:
  assumes "\<And>m. I m \<Longrightarrow> K m"
  shows "triple (on_objects I) (call w (store_list dir))
     (\<lambda>ps. on_objects (\<lambda>m. I m \<and> ps = filter (under dir) (hm_keys m))) (on_objects K)"
  using assms
  by (intro tripleI)
    (auto simp: on_objects_def call_def store_list_def read_call_def split: prod.splits fate.splits dest: next_fate_objects)

lemma triple_put [triples]:
  assumes "\<And>m. I m \<Longrightarrow> J (hm_insert p x m)" "\<And>m. I m \<Longrightarrow> K m" "\<And>m. J m \<Longrightarrow> K m"
  shows "triple (on_objects I) (call w (store_put p x)) (\<lambda>_. on_objects J) (on_objects K)"
  by (rule tripleI)
    (use assms in \<open>auto simp: on_objects_def call_def store_put_def write_call_def split: prod.splits fate.splits
      dest!: next_fate_objects\<close>)

end
