(* ===== verification/ParquetWriter.thy ===== *)
theory ParquetWriter
  imports ObjectStore
begin

text \<open>
  The Parquet writer: \<open>crates/pb-store/src/writer.rs\<close> with the recovery manifests of
  \<open>crates/pb-types/src/storage.rs\<close>. Batches are written as content-named files, one per dataset,
  asset and hour; a recovery replaces such a partition in two published phases. The Parquet
  encoder, its hash, the JSON text of manifests and the path parser are parameters.
\<close>

section \<open>Recovery manifests\<close>

definition PARQUET_RECOVERY_MANIFEST_VERSION :: u32 where
  "PARQUET_RECOVERY_MANIFEST_VERSION = 1"

definition PARQUET_RECOVERY_MANIFEST_PREFIX :: string where
  "PARQUET_RECOVERY_MANIFEST_PREFIX = ''_recovery_manifests''"

definition PARQUET_RECOVERY_OBJECT_PREFIX :: string where
  "PARQUET_RECOVERY_OBJECT_PREFIX = ''_recovery_objects''"

record manifest =
  pm_version :: u32
  pm_dataset :: string
  pm_asset_key :: string
  pm_hour_key :: string
  pm_covered_start_us :: u64
  pm_covered_end_us :: u64
  pm_active_objects :: "string list"
  pm_superseded_objects :: "string list"

definition manifest_validate :: "manifest \<Rightarrow> string + unit" where
  "manifest_validate m =
     (if pm_version m \<noteq> PARQUET_RECOVERY_MANIFEST_VERSION then
        Inl (''unsupported recovery manifest version '' @ dec (unat (pm_version m)) @ '', expected '' @
          dec (unat PARQUET_RECOVERY_MANIFEST_VERSION))
      else if pm_dataset m = [] \<or> pm_asset_key m = [] \<or> pm_hour_key m = [] then
        Inl ''recovery manifest identity fields must not be empty''
      else if pm_covered_end_us m \<le> pm_covered_start_us m then
        Inl ''recovery manifest coverage must be an increasing range''
      else if pm_active_objects m = [] then
        Inl ''recovery manifest must name at least one active object''
      else if list_ex (\<lambda>a. a \<in> set (pm_superseded_objects m)) (pm_active_objects m) then
        Inl ''recovery manifest cannot supersede an active object''
      else Inr ())"

section \<open>Libraries\<close>

record 'o parquet_lib =
  pq_arrow :: arrow_lib
  pq_calendar :: calendar
  pq_write :: "schema \<Rightarrow> record_batch \<Rightarrow> string + 'o"
  pq_hash :: "'o \<Rightarrow> u64"
  pq_len :: "'o \<Rightarrow> nat"
  pq_version :: "'o \<Rightarrow> string + string option"
  pq_batches :: "'o \<Rightarrow> (string + record_batch) list"
  manifest_to_json :: "manifest \<Rightarrow> string + 'o"
  manifest_from_json :: "'o \<Rightarrow> string + manifest"
  path_parse :: "string \<Rightarrow> string + string"

section \<open>Paths\<close>

text \<open>The last segment of a path, and the file name of a path that has one.\<close>

definition last_segment :: "string \<Rightarrow> string" where
  "last_segment p = (case rsplit_once (CHR ''/'') p of None \<Rightarrow> p | Some (_, s) \<Rightarrow> s)"

definition path_filename :: "string \<Rightarrow> string option" where
  "path_filename p = (if p = [] then None else Some (last_segment p))"

text \<open>\<open>expect\<close> on the parsed path aborts.\<close>

definition child_path :: "'o parquet_lib \<Rightarrow> string \<Rightarrow> string \<Rightarrow> ('o, 'e, string) prog" where
  "child_path L base suffix =
     (case path_parse L (if base = [] then suffix else base @ ''/'' @ suffix) of
        Inl _ \<Rightarrow> panic | Inr p \<Rightarrow> ret p)"

definition recovery_manifest_path :: "'o parquet_lib \<Rightarrow> string \<Rightarrow> string \<Rightarrow> string \<Rightarrow> string \<Rightarrow> ('o, 'e, string) prog" where
  "recovery_manifest_path L base dataset asset hour_key =
     child_path L base (PARQUET_RECOVERY_MANIFEST_PREFIX @ ''/'' @ dataset @ ''/'' @ hour_key @ ''/'' @ asset @ ''.json'')"

text \<open>Listing the objects of an asset in the normal and in the hidden partition.\<close>

definition file_of_asset :: "string \<Rightarrow> string \<Rightarrow> bool" where
  "file_of_asset asset p =
     (case path_filename p of None \<Rightarrow> False | Some name \<Rightarrow> storage_object_file_matches_asset name asset)"

definition group_objects :: "'o parquet_lib \<Rightarrow> string \<Rightarrow> string \<Rightarrow> string \<Rightarrow> string \<Rightarrow> ('o, store_error, string list) prog" where
  "group_objects L base dataset asset hour_key =
     andthen (child_path L base (dataset @ ''/'' @ hour_key)) (\<lambda>dir_path.
     andthen (call StoreObject (store_list dir_path)) (\<lambda>existing.
     ret (filter (file_of_asset asset) existing)))"

definition recovery_group_objects :: "'o parquet_lib \<Rightarrow> string \<Rightarrow> string \<Rightarrow> string \<Rightarrow> string \<Rightarrow> ('o, store_error, string list) prog" where
  "recovery_group_objects L base dataset asset hour_key =
     andthen (child_path L base (PARQUET_RECOVERY_OBJECT_PREFIX @ ''/'' @ dataset @ ''/'' @ hour_key)) (\<lambda>dir_path.
     andthen (call StoreObject (store_list dir_path)) (\<lambda>existing.
     ret (filter (file_of_asset asset) existing)))"

section \<open>Encoding a group\<close>

text \<open>Indexing an empty group aborts.\<close>

definition encode_group :: "'o parquet_lib \<Rightarrow> persisted_record list \<Rightarrow> ('o, store_error, 'o \<times> string) prog" where
  "encode_group L records =
     (case records of
        [] \<Rightarrow> panic
      | r # _ \<Rightarrow>
          andthen (of_result (records_to_record_batch (pq_arrow L) records)) (\<lambda>batch.
          andthen (of_result (map_sum StoreParquet id (pq_write L (schema_for_record r) batch))) (\<lambda>buf.
          ret (buf, parquet_file_name (storage_key_for (asset_partition r)) (partition_timestamp_us r)
            (pq_hash L buf) (pq_len L buf)))))"

section \<open>Writing batches\<close>

type_synonym group_id = "string \<times> string \<times> string"

definition group_key :: "calendar \<Rightarrow> persisted_record \<Rightarrow> group_id" where
  "group_key C r = (dataset_name r, storage_key_for (asset_partition r), partition_hour_key C (partition_timestamp_us r))"

text \<open>\<open>entry(key).or_default().push(record)\<close>\<close>

definition push_group :: "group_id \<Rightarrow> persisted_record \<Rightarrow> (group_id, persisted_record list) btree \<Rightarrow>
    (group_id, persisted_record list) btree" where
  "push_group k r groups =
     bt_insert k ((case bt_get groups k of None \<Rightarrow> [] | Some rs \<Rightarrow> rs) @ [r]) groups"

definition write_group :: "'o parquet_lib \<Rightarrow> string \<Rightarrow> string \<Rightarrow> string \<Rightarrow> string \<Rightarrow> persisted_record list \<Rightarrow>
    ('o, store_error, unit) prog" where
  "write_group L base dataset asset hour_key records =
     andthen (encode_group L records) (\<lambda>(buf, file_name).
     andthen (child_path L base (dataset @ ''/'' @ hour_key @ ''/'' @ file_name)) (\<lambda>object_path.
     call StoreObject (store_put object_path buf)))"

definition write_batch :: "'o parquet_lib \<Rightarrow> string \<Rightarrow> persisted_record list \<Rightarrow> ('o, store_error, unit) prog" where
  "write_batch L base records =
     (if records = [] then ret ()
      else andthen (for_each (fold (\<lambda>r. push_group (group_key (pq_calendar L) r) r) records bt_empty)
             (\<lambda>((dataset, asset, hour_key), rs). write_group L base dataset asset hour_key rs))
           (\<lambda>_. ret ()))"

definition write_record :: "'o parquet_lib \<Rightarrow> string \<Rightarrow> persisted_record \<Rightarrow> ('o, store_error, unit) prog" where
  "write_record L base r = write_batch L base [r]"

section \<open>Manifests of a partition\<close>

definition ends_with :: "string \<Rightarrow> string \<Rightarrow> bool" where
  "ends_with suffix s \<longleftrightarrow> strip_suffix suffix s \<noteq> None"

definition under_prefix :: "string \<Rightarrow> string \<Rightarrow> bool" where
  "under_prefix object prefix =
     (case strip_prefix prefix object of
        None \<Rightarrow> False
      | Some suffix \<Rightarrow> (case suffix of c # _ \<Rightarrow> c = CHR ''/'' | [] \<Rightarrow> False) \<and> ends_with ''.parquet'' suffix)"

definition object_scoped :: "string \<Rightarrow> string \<Rightarrow> string \<Rightarrow> string \<Rightarrow> bool" where
  "object_scoped normal_prefix recovery_prefix asset object \<longleftrightarrow>
     (under_prefix object normal_prefix \<or> under_prefix object recovery_prefix) \<and>
     storage_object_file_matches_asset (last_segment object) asset"

definition unscoped_manifest :: "string \<Rightarrow> string" where
  "unscoped_manifest path = ''recovery manifest '' @ path @ '' does not match its partition scope''"

definition validate_recovery_manifest_scope :: "'o parquet_lib \<Rightarrow> string \<Rightarrow> string \<Rightarrow> manifest \<Rightarrow> string \<Rightarrow> string \<Rightarrow> string \<Rightarrow>
    ('o, store_error, unit) prog" where
  "validate_recovery_manifest_scope L base path m dataset asset hour_key =
     andthen (child_path L base (PARQUET_RECOVERY_OBJECT_PREFIX @ ''/'' @ dataset @ ''/'' @ hour_key)) (\<lambda>recovery_prefix.
     andthen (child_path L base (dataset @ ''/'' @ hour_key)) (\<lambda>normal_prefix.
       let identity_matches =
             pm_dataset m = dataset \<and> pm_asset_key m = asset \<and> pm_hour_key m = hour_key \<and>
             (case Option.bind (path_filename path) (strip_suffix ''.json'') of
                None \<Rightarrow> False | Some stem \<Rightarrow> storage_object_component_matches_key stem asset)
       in if identity_matches \<and>
             list_all (object_scoped normal_prefix recovery_prefix asset) (pm_active_objects m) \<and>
             list_all (object_scoped normal_prefix recovery_prefix asset) (pm_superseded_objects m)
          then ret () else stop (UnsafeRecovery (unscoped_manifest path))))"

definition read_recovery_manifest :: "'o parquet_lib \<Rightarrow> string \<Rightarrow> string \<Rightarrow> string \<Rightarrow> string \<Rightarrow> string \<Rightarrow>
    ('o, store_error, manifest option) prog" where
  "read_recovery_manifest L base path dataset asset hour_key st =
     (case store_get path st of
        (st', Inl (NotFound _)) \<Rightarrow> (st', Inr None)
      | (st', Inl e) \<Rightarrow> (st', Inl (Failed (StoreObject e)))
      | (st', Inr bytes) \<Rightarrow>
          andthen (of_result (map_sum StoreJson id (manifest_from_json L bytes))) (\<lambda>m.
          andthen (of_result (map_sum UnsafeRecovery id (manifest_validate m))) (\<lambda>_.
          andthen (validate_recovery_manifest_scope L base path m dataset asset hour_key) (\<lambda>_.
          ret (Some m)))) st')"

definition disappeared :: "string \<Rightarrow> string" where
  "disappeared path = ''recovery manifest '' @ path @ '' disappeared after publication''"

definition unverified :: "string \<Rightarrow> string" where
  "unverified path = ''recovery manifest '' @ path @ '' failed read-after-write verification''"

definition publish_recovery_manifest :: "'o parquet_lib \<Rightarrow> string \<Rightarrow> string \<Rightarrow> manifest \<Rightarrow> string \<Rightarrow> string \<Rightarrow> string \<Rightarrow>
    ('o, store_error, unit) prog" where
  "publish_recovery_manifest L base path m dataset asset hour_key =
     andthen (of_result (map_sum UnsafeRecovery id (manifest_validate m))) (\<lambda>_.
     andthen (validate_recovery_manifest_scope L base path m dataset asset hour_key) (\<lambda>_.
     andthen (of_result (map_sum StoreJson id (manifest_to_json L m))) (\<lambda>manifest_bytes.
     andthen (call StoreObject (store_put path manifest_bytes)) (\<lambda>_.
     andthen (read_recovery_manifest L base path dataset asset hour_key) (\<lambda>published.
       case published of
         None \<Rightarrow> stop (UnsafeRecovery (disappeared path))
       | Some p \<Rightarrow>
           if p = m then ret ()
           else stop (UnsafeRecovery (unverified path)))))))"

section \<open>Replacing a partition\<close>

definition wrong_size :: "string \<Rightarrow> string \<Rightarrow> nat \<Rightarrow> nat \<Rightarrow> string" where
  "wrong_size what path found expected =
     what @ '' recovery object '' @ path @ '' has size '' @ dec found @ '', expected '' @ dec expected"

text \<open>\<open>put\<close>, then \<open>head\<close>: the stored object must have the expected size.\<close>

definition put_checked :: "'o parquet_lib \<Rightarrow> string \<Rightarrow> string \<Rightarrow> 'o \<Rightarrow> ('o, store_error, unit) prog" where
  "put_checked L what path buf =
     andthen (call StoreObject (store_put path buf)) (\<lambda>_.
     andthen (call StoreObject (store_get path)) (\<lambda>written.
       if pq_len L written = pq_len L buf then ret ()
       else stop (UnsafeRecovery (wrong_size what path (pq_len L written) (pq_len L buf)))))"

text \<open>Cleanup is best effort: a failed deletion is counted.\<close>

definition delete_stale :: "'o parquet_lib \<Rightarrow> string \<Rightarrow> ('o, store_error, nat) prog" where
  "delete_stale L stale =
     (case path_parse L stale of
        Inl error \<Rightarrow> stop (UnsafeRecovery (''invalid superseded object path '' @ stale @ '': '' @ error))
      | Inr stale_path \<Rightarrow> (\<lambda>st.
          case store_delete stale_path st of
            (st', Inr _) \<Rightarrow> (st', Inr 0)
          | (st', Inl (NotFound _)) \<Rightarrow> (st', Inr 0)
          | (st', Inl (StoreFailure _)) \<Rightarrow> (st', Inr 1)))"

definition recovery_manifest :: "string \<Rightarrow> string \<Rightarrow> string \<Rightarrow> recovery_coverage \<Rightarrow> string \<Rightarrow> string list \<Rightarrow> manifest" where
  "recovery_manifest dataset asset hour_key coverage active superseded =
     \<lparr> pm_version = PARQUET_RECOVERY_MANIFEST_VERSION, pm_dataset = dataset, pm_asset_key = asset,
       pm_hour_key = hour_key, pm_covered_start_us = cov_start_us coverage, pm_covered_end_us = cov_end_us coverage,
       pm_active_objects = [active], pm_superseded_objects = superseded \<rparr>"

text \<open>A \<open>BTreeSet\<close> of paths is a sorted list without repeats.\<close>

definition path_set :: "string list \<Rightarrow> string list" where
  "path_set ps = sort (remdups ps)"

definition replace_group :: "'o parquet_lib \<Rightarrow> string \<Rightarrow> string \<Rightarrow> string \<Rightarrow> string \<Rightarrow> persisted_record list \<Rightarrow>
    recovery_coverage \<Rightarrow> ('o, store_error, nat) prog" where
  "replace_group L base dataset asset hour_key records coverage =
     andthen (group_objects L base dataset asset hour_key) (\<lambda>existing_objects.
     andthen (recovery_group_objects L base dataset asset hour_key) (\<lambda>abandoned_staged_objects.
     andthen (recovery_manifest_path L base dataset asset hour_key) (\<lambda>manifest_path.
     andthen (read_recovery_manifest L base manifest_path dataset asset hour_key) (\<lambda>previous_manifest.
     andthen (encode_group L records) (\<lambda>(buf, file_name).
     andthen (child_path L base (PARQUET_RECOVERY_OBJECT_PREFIX @ ''/'' @ dataset @ ''/'' @ hour_key @ ''/'' @ file_name)) (\<lambda>staged_path.
     andthen (child_path L base (dataset @ ''/'' @ hour_key @ ''/'' @ file_name)) (\<lambda>recovered_path.
     andthen (put_checked L ''staged'' staged_path buf) (\<lambda>_.
     let superseded = existing_objects @ abandoned_staged_objects @
           (case previous_manifest of None \<Rightarrow> []
            | Some previous \<Rightarrow> pm_active_objects previous @ pm_superseded_objects previous);
         staged_superseded = path_set (removeAll staged_path (recovered_path # superseded))
     in andthen (publish_recovery_manifest L base manifest_path
          (recovery_manifest dataset asset hour_key coverage staged_path staged_superseded) dataset asset hour_key) (\<lambda>_.
     andthen (put_checked L ''promoted'' recovered_path buf) (\<lambda>_.
     let final_superseded = path_set (removeAll recovered_path (staged_path # superseded))
     in andthen (publish_recovery_manifest L base manifest_path
          (recovery_manifest dataset asset hour_key coverage recovered_path final_superseded) dataset asset hour_key) (\<lambda>_.
     andthen (for_each final_superseded (delete_stale L)) (\<lambda>failures.
     ret (sum_list failures)))))))))))))"

section \<open>Recovery of a batch\<close>

record recovery_report =
  rp_partitions_published :: nat
  rp_records_published :: nat
  rp_cleanup_failures :: nat

fun recoverable_record :: "persisted_record \<Rightarrow> bool" where
  "recoverable_record (Book _) = True"
| "recoverable_record (Trade _) = True"
| "recoverable_record (Ingest _) = True"
| "recoverable_record (Checkpoint _) = False"
| "recoverable_record (Validation _) = False"

fun recovery_groups :: "calendar \<Rightarrow> recovery_coverage \<Rightarrow> persisted_record list \<Rightarrow>
    (group_id, persisted_record list) btree \<Rightarrow> store_error + (group_id, persisted_record list) btree" where
  "recovery_groups C coverage [] groups = Inr groups"
| "recovery_groups C coverage (r # rs) groups =
     (let ts = partition_timestamp_us r
      in if \<not> recoverable_record r then
           Inl (UnsafeRecovery (''dataset '' @ dataset_name r @
             '' is not partitioned by receive time and has no complete-hour WAL coverage proof''))
         else if \<not> contains_complete_hour coverage ts then
           Inl (UnsafeRecovery (''record at '' @ dec (unat ts) @ '' belongs to a boundary hour not fully covered by WAL '' @
             dec (unat (cov_start_us coverage)) @ ''..'' @ dec (unat (cov_end_us coverage))))
         else if partition_hour_key C ts = invalid_partition then
           Inl (UnsafeRecovery (''record at '' @ dec (unat ts) @ '' has no recoverable UTC hour''))
         else recovery_groups C coverage rs (push_group (group_key C r) r groups))"

definition write_batch_replacing :: "'o parquet_lib \<Rightarrow> string \<Rightarrow> persisted_record list \<Rightarrow> recovery_coverage \<Rightarrow>
    ('o, store_error, recovery_report) prog" where
  "write_batch_replacing L base records coverage =
     (if records = [] then ret \<lparr> rp_partitions_published = 0, rp_records_published = 0, rp_cleanup_failures = 0 \<rparr>
      else andthen (of_result (recovery_groups (pq_calendar L) coverage records bt_empty)) (\<lambda>groups.
           andthen (for_each groups (\<lambda>((dataset, asset, hour_key), rs).
             andthen (replace_group L base dataset asset hour_key rs coverage) (\<lambda>failures.
             ret (length rs, failures)))) (\<lambda>done.
           ret \<lparr> rp_partitions_published = length done, rp_records_published = sum_list (map fst done),
                 rp_cleanup_failures = sum_list (map snd done) \<rparr>)))"

end
