(* ===== verification/ParquetReader.thy ===== *)
theory ParquetReader
  imports ParquetWriter
begin

text \<open>
  The storage reader: \<open>ParquetReader\<close> of \<open>crates/pb-replay/src/reader.rs\<close>. It resolves the files
  of a dataset hour by hour, through the recovery manifests, reads them and keeps the rows of an
  asset and a time range. Files are read concurrently: the order in which the reads complete is a
  parameter. Range requests on an object are one call here.
\<close>

record 'o reader_env =
  re_lib :: "'o parquet_lib"
  re_base :: string
  re_order :: "string list \<Rightarrow> string list"

section \<open>Partitions of a read\<close>

definition hour_paths :: "'o reader_env \<Rightarrow> string \<Rightarrow> u64 \<Rightarrow> u64 \<Rightarrow> ('o, replay_error, string list) prog" where
  "hour_paths R dataset start_us end_us =
     for_each (hour_keys (pq_calendar (re_lib R)) start_us end_us)
       (\<lambda>hour_key. child_path (re_lib R) (re_base R) (dataset @ ''/'' @ hour_key))"

text \<open>\<open>trim_start_matches('/')\<close>\<close>

definition trim_slashes :: "string \<Rightarrow> string" where
  "trim_slashes s = dropWhile (\<lambda>c. c = CHR ''/'') s"

definition strip_or_same :: "string \<Rightarrow> string \<Rightarrow> string" where
  "strip_or_same prefix s = (case strip_prefix prefix s of None \<Rightarrow> s | Some rest \<Rightarrow> rest)"

definition hour_key_of :: "string \<Rightarrow> string \<Rightarrow> string \<Rightarrow> string" where
  "hour_key_of base dataset hour_path =
     trim_slashes (strip_or_same dataset (trim_slashes (strip_or_same base hour_path)))"

section \<open>Recovery manifests\<close>

definition decode_manifest :: "'o parquet_lib \<Rightarrow> string \<Rightarrow> 'o \<Rightarrow> replay_error + manifest" where
  "decode_manifest L path bytes =
     (case manifest_from_json L bytes of
        Inl e \<Rightarrow> Inl (ReplayJson e)
      | Inr m \<Rightarrow> (case manifest_validate m of
          Inl e \<Rightarrow> Inl (ReplayOther (''invalid recovery manifest '' @ path @ '': '' @ e))
        | Inr _ \<Rightarrow> Inr m))"

definition validate_manifest_scope :: "'o reader_env \<Rightarrow> string \<Rightarrow> manifest \<Rightarrow> string \<Rightarrow> string \<Rightarrow> string option \<Rightarrow>
    ('o, replay_error, unit) prog" where
  "validate_manifest_scope R path m dataset hour_key expected_asset =
     andthen (child_path (re_lib R) (re_base R) (PARQUET_RECOVERY_OBJECT_PREFIX @ ''/'' @ dataset @ ''/'' @ hour_key)) (\<lambda>recovery_prefix.
     andthen (child_path (re_lib R) (re_base R) (dataset @ ''/'' @ hour_key)) (\<lambda>normal_prefix.
       let identity_matches =
             pm_dataset m = dataset \<and> pm_hour_key m = hour_key \<and>
             (case expected_asset of None \<Rightarrow> True | Some asset \<Rightarrow> pm_asset_key m = asset) \<and>
             (case Option.bind (path_filename path) (strip_suffix ''.json'') of
                None \<Rightarrow> False | Some stem \<Rightarrow> storage_object_component_matches_key stem (pm_asset_key m))
       in if identity_matches \<and>
             list_all (object_scoped normal_prefix recovery_prefix (pm_asset_key m)) (pm_active_objects m) \<and>
             list_all (object_scoped normal_prefix recovery_prefix (pm_asset_key m)) (pm_superseded_objects m)
          then ret () else stop (ReplayOther (unscoped_manifest path))))"

definition recovery_manifests :: "'o reader_env \<Rightarrow> string \<Rightarrow> string \<Rightarrow> string option \<Rightarrow> ('o, replay_error, manifest list) prog" where
  "recovery_manifests R dataset hour_path asset_prefix =
     (let L = re_lib R; hour_key = hour_key_of (re_base R) dataset hour_path
      in andthen (child_path L (re_base R) (PARQUET_RECOVERY_MANIFEST_PREFIX @ ''/'' @ dataset @ ''/'' @ hour_key)) (\<lambda>manifest_prefix.
         case asset_prefix of
           Some asset_id \<Rightarrow>
             let asset_key = storage_key_for asset_id
             in (case path_parse L (manifest_prefix @ ''/'' @ asset_key @ ''.json'') of
                   Inl _ \<Rightarrow> panic
                 | Inr path \<Rightarrow> (\<lambda>st.
                     case store_get path st of
                       (st', Inl (NotFound _)) \<Rightarrow> (st', Inr [])
                     | (st', Inl e) \<Rightarrow> (st', Inl (Failed (ReplayObjectStore e)))
                     | (st', Inr bytes) \<Rightarrow>
                         andthen (of_result (decode_manifest L path bytes)) (\<lambda>m.
                         andthen (validate_manifest_scope R path m dataset hour_key (Some asset_key)) (\<lambda>_.
                         ret [m])) st'))
         | None \<Rightarrow>
             andthen (call ReplayObjectStore (store_list manifest_prefix)) (\<lambda>entries.
             for_each (filter (\<lambda>p. case path_filename p of None \<Rightarrow> False | Some name \<Rightarrow> ends_with ''.json'' name) entries)
               (\<lambda>path.
                 andthen (call ReplayObjectStore (store_get path)) (\<lambda>bytes.
                 andthen (of_result (decode_manifest L path bytes)) (\<lambda>m.
                 andthen (validate_manifest_scope R path m dataset hour_key None) (\<lambda>_.
                 ret m)))))))"

section \<open>The files of a dataset\<close>

definition listed_file_wanted :: "string option \<Rightarrow> string \<Rightarrow> bool" where
  "listed_file_wanted asset_prefix path =
     (case path_filename path of
        None \<Rightarrow> False
      | Some name \<Rightarrow> ends_with ''.parquet'' name \<and>
          (case asset_prefix of None \<Rightarrow> True
           | Some a \<Rightarrow> storage_object_file_matches_asset name (storage_key_for a)))"

definition parse_active :: "'o parquet_lib \<Rightarrow> string \<Rightarrow> replay_error + string" where
  "parse_active L object = map_sum (\<lambda>error. ReplayOther (''invalid active object path '' @ object @
     '' in recovery manifest: '' @ error)) id (path_parse L object)"

text \<open>One directory: its wanted files without those superseded, and the active objects. (The list
  of files grows over the hours; a manifest hides files of earlier hours too.)\<close>

definition add_hour_files :: "'o reader_env \<Rightarrow> string \<Rightarrow> string option \<Rightarrow> string \<Rightarrow> string list \<Rightarrow>
    ('o, replay_error, string list) prog" where
  "add_hour_files R dataset asset_prefix dir files =
     andthen (call ReplayObjectStore (store_list dir)) (\<lambda>entries.
       let files1 = files @ filter (listed_file_wanted asset_prefix) entries
       in andthen (recovery_manifests R dataset dir asset_prefix) (\<lambda>manifests.
            if manifests = [] then ret files1
            else let superseded = concat (map pm_superseded_objects manifests);
                     files2 = filter (\<lambda>p. p \<notin> set superseded) files1
                 in andthen (of_result (collect (map (parse_active (re_lib R)) (concat (map pm_active_objects manifests)))))
                      (\<lambda>active. ret (files2 @ active))))"

fun add_hours :: "'o reader_env \<Rightarrow> string \<Rightarrow> string option \<Rightarrow> string list \<Rightarrow> string list \<Rightarrow> ('o, replay_error, string list) prog" where
  "add_hours R dataset asset_prefix [] files = ret files"
| "add_hours R dataset asset_prefix (dir # dirs) files =
     andthen (add_hour_files R dataset asset_prefix dir files) (add_hours R dataset asset_prefix dirs)"

text \<open>\<open>sort\<close> and \<open>dedup\<close>\<close>

definition dataset_files :: "'o reader_env \<Rightarrow> string \<Rightarrow> string option \<Rightarrow> u64 \<Rightarrow> u64 \<Rightarrow> ('o, replay_error, string list) prog" where
  "dataset_files R dataset asset_prefix start_us end_us =
     andthen (hour_paths R dataset start_us end_us) (\<lambda>dirs.
     andthen (add_hours R dataset asset_prefix dirs []) (\<lambda>files.
     ret (remdups_adj (sort files))))"

section \<open>Reading files\<close>

definition EXPECTED_PARQUET_SCHEMA_VERSION :: string where
  "EXPECTED_PARQUET_SCHEMA_VERSION = ''2''"

definition check_schema_version :: "string option \<Rightarrow> string + unit" where
  "check_schema_version version =
     (case version of
        Some v \<Rightarrow> if v = EXPECTED_PARQUET_SCHEMA_VERSION then Inr ()
          else Inl (''schema version '' @ v @ '', expected '' @ EXPECTED_PARQUET_SCHEMA_VERSION @ ''; migrate it'')
      | None \<Rightarrow> Inl ''no pb_schema_version (pre-split/legacy layout); migrate, do not read as empty'')"

definition MAX_PARQUET_DATASET_ROWS :: nat where
  "MAX_PARQUET_DATASET_ROWS = 500000"

definition too_many_rows :: replay_error where
  "too_many_rows = ReplayOther (''Parquet read exceeds '' @ dec MAX_PARQUET_DATASET_ROWS @
     '' rows per dataset; narrow the requested time window'')"

text \<open>The batches of a file, one after the other; the extractor may abort on a foreign column type.\<close>

fun read_batches :: "(record_batch \<Rightarrow> (replay_error + 'a list) option) \<Rightarrow> (string + record_batch) list \<Rightarrow> 'a list \<Rightarrow>
    (replay_error + 'a list) option" where
  "read_batches extractor [] rows = Some (Inr rows)"
| "read_batches extractor (Inl e # bs) rows = Some (Inl (ReplayParquet e None))"
| "read_batches extractor (Inr b # bs) rows =
     and_then (extractor b) (\<lambda>extracted.
       if MAX_PARQUET_DATASET_ROWS < length rows + length extracted then Some (Inl too_many_rows)
       else read_batches extractor bs (rows @ extracted))"

definition of_outcome :: "('e + 'a) option \<Rightarrow> ('o, 'e, 'a) prog" where
  "of_outcome r = (case r of None \<Rightarrow> panic | Some r \<Rightarrow> of_result r)"

definition read_parquet_file :: "'o parquet_lib \<Rightarrow> (record_batch \<Rightarrow> (replay_error + 'a list) option) \<Rightarrow> string \<Rightarrow>
    ('o, replay_error, 'a list) prog" where
  "read_parquet_file L extractor path =
     andthen (call ReplayObjectStore (store_get path)) (\<lambda>_.
     andthen (call (\<lambda>e. ReplayParquet ''object store'' (Some e)) (store_get path)) (\<lambda>obj.
     andthen (of_result (map_sum (\<lambda>e. ReplayParquet e None) id (pq_version L obj))) (\<lambda>version.
     andthen (of_result (map_sum (\<lambda>e. ReplayOther (''Parquet object '' @ path @ '': '' @ e)) id (check_schema_version version))) (\<lambda>_.
     of_outcome (read_batches extractor (pq_batches L obj) [])))))"

fun fold_files :: "(string \<Rightarrow> ('o, replay_error, 'a list) prog) \<Rightarrow> string list \<Rightarrow> 'a list \<Rightarrow> ('o, replay_error, 'a list) prog" where
  "fold_files read [] rows = ret rows"
| "fold_files read (p # ps) rows =
     andthen (read p) (\<lambda>batch.
       if MAX_PARQUET_DATASET_ROWS < length rows + length batch then stop too_many_rows
       else fold_files read ps (rows @ batch))"

definition read_parquet_files :: "'o reader_env \<Rightarrow> (record_batch \<Rightarrow> (replay_error + 'a list) option) \<Rightarrow> string list \<Rightarrow>
    ('o, replay_error, 'a list) prog" where
  "read_parquet_files R extractor paths = fold_files (read_parquet_file (re_lib R) extractor) (re_order R paths) []"

text \<open>The view is resolved once more when an object of it has disappeared.\<close>

definition read_dataset_with_view_retry :: "'o reader_env \<Rightarrow> string \<Rightarrow> string option \<Rightarrow> u64 \<Rightarrow> u64 \<Rightarrow>
    (record_batch \<Rightarrow> (replay_error + 'a list) option) \<Rightarrow> ('o, replay_error, 'a list) prog" where
  "read_dataset_with_view_retry R dataset asset_prefix start_us end_us extractor =
     andthen (dataset_files R dataset asset_prefix start_us end_us) (\<lambda>files st.
       case read_parquet_files R extractor files st of
         (st', Inl (Failed e)) \<Rightarrow>
           if is_object_not_found e then
             andthen (dataset_files R dataset asset_prefix start_us end_us) (read_parquet_files R extractor) st'
           else (st', Inl (Failed e))
       | r \<Rightarrow> r)"

section \<open>The reader's operations\<close>

definition raw_sequence_or_0 :: "event_provenance \<Rightarrow> u64" where
  "raw_sequence_or_0 p = (case prov_sequence p of None \<Rightarrow> 0 | Some s \<Rightarrow> seq_raw s)"

definition read_key :: "event_provenance \<Rightarrow> u64 \<times> u64" where
  "read_key p = (recv_timestamp_us p, raw_sequence_or_0 p)"

definition read_market_data :: "'o reader_env \<Rightarrow> asset_id \<Rightarrow> u64 \<Rightarrow> u64 \<Rightarrow> ('o, replay_error, market_data_window) prog" where
  "read_market_data R asset_id start_us end_us =
     andthen (read_dataset_with_view_retry R ''book_events'' (Some asset_id) start_us end_us
       (\<lambda>b. extract_book_events b asset_id start_us end_us)) (\<lambda>books.
     andthen (read_dataset_with_view_retry R ''trade_events'' (Some asset_id) start_us end_us
       (\<lambda>b. extract_trade_events b asset_id start_us end_us)) (\<lambda>trades.
     andthen (read_dataset_with_view_retry R ''ingest_events'' None start_us end_us
       (\<lambda>b. extract_ingest_events b asset_id start_us end_us)) (\<lambda>ingests.
     ret \<lparr> book_events = sort_key (\<lambda>e. read_key (be_provenance e)) books,
           trade_events = sort_key (\<lambda>e. read_key (te_provenance e)) trades,
           ingest_events = sort_key (\<lambda>e. read_key (ie_provenance e)) ingests \<rparr>)))"

definition read_checkpoints :: "'o reader_env \<Rightarrow> asset_id \<Rightarrow> u64 \<Rightarrow> u64 \<Rightarrow> ('o, replay_error, book_checkpoint list) prog" where
  "read_checkpoints R asset_id start_us end_us =
     andthen (dataset_files R ''book_checkpoints'' (Some asset_id) start_us end_us) (\<lambda>files.
     andthen (read_parquet_files R (\<lambda>b. extract_checkpoints (pq_arrow (re_lib R)) b asset_id start_us end_us) files) (\<lambda>cps.
     ret (sort_key cp_timestamp_us cps)))"

definition read_validations :: "'o reader_env \<Rightarrow> asset_id \<Rightarrow> u64 \<Rightarrow> u64 \<Rightarrow> ('o, replay_error, replay_validation list) prog" where
  "read_validations R asset_id start_us end_us =
     andthen (dataset_files R ''replay_validations'' (Some asset_id) start_us end_us) (\<lambda>files.
     andthen (read_parquet_files R (\<lambda>b. extract_validations b asset_id start_us end_us) files) (\<lambda>vs.
     ret (sort_key rv_persisted_at_us vs)))"

section \<open>The latest checkpoints\<close>

text \<open>One listing of the dataset, grouped by asset and hour; the hour keys order like the hours.\<close>

definition place_checkpoint_file :: "string \<Rightarrow> string list \<Rightarrow> string \<Rightarrow> string \<Rightarrow>
    (string, string list) btree list \<Rightarrow> (string, string list) btree list" where
  "place_checkpoint_file relative_prefix logical_assets at_hour location by_asset =
     (case path_filename location of
        None \<Rightarrow> by_asset
      | Some file_name \<Rightarrow>
          (case find (\<lambda>i. storage_object_file_matches_asset file_name (logical_assets ! i)) [0..<length logical_assets] of
             None \<Rightarrow> by_asset
           | Some i \<Rightarrow>
               (case Option.bind (strip_prefix relative_prefix location) (rsplit_once (CHR ''/'')) of
                  None \<Rightarrow> by_asset
                | Some (hour_key, _) \<Rightarrow>
                    if length hour_key = length ''YYYY/MM/DD/HH'' \<and> hour_key \<le> at_hour
                    then by_asset[i := bt_insert hour_key
                      ((case bt_get (by_asset ! i) hour_key of None \<Rightarrow> [] | Some fs \<Rightarrow> fs) @ [location]) (by_asset ! i)]
                    else by_asset)))"

definition checkpoint_files_by_asset_and_hour :: "'o reader_env \<Rightarrow> asset_id list \<Rightarrow> u64 \<Rightarrow>
    ('o, replay_error, (string, string list) btree list) prog" where
  "checkpoint_files_by_asset_and_hour R asset_ids at_us =
     (let C = pq_calendar (re_lib R); at_hour = hour_text C (read_second C at_us)
      in andthen (child_path (re_lib R) (re_base R) ''book_checkpoints'') (\<lambda>dataset_prefix.
         andthen (call ReplayObjectStore (store_list dataset_prefix)) (\<lambda>entries.
         ret (fold (place_checkpoint_file (dataset_prefix @ ''/'') (map storage_key_for asset_ids) at_hour) entries
           (replicate (length asset_ids) bt_empty)))))"

text \<open>Hours are tried from the latest back; the first with a checkpoint decides.\<close>

fun latest_in_hours :: "'o reader_env \<Rightarrow> asset_id \<Rightarrow> u64 \<Rightarrow> (string \<times> string list) list \<Rightarrow>
    ('o, replay_error, book_checkpoint option) prog" where
  "latest_in_hours R asset_id at_us [] = ret None"
| "latest_in_hours R asset_id at_us ((_, files) # hours) =
     andthen (read_parquet_files R (\<lambda>b. extract_checkpoints (pq_arrow (re_lib R)) b asset_id 0 at_us) files) (\<lambda>cps.
       let sorted_cps = sort_key cp_timestamp_us cps
       in if sorted_cps = [] then latest_in_hours R asset_id at_us hours
          else ret (Some (last sorted_cps)))"

definition read_latest_checkpoints :: "'o reader_env \<Rightarrow> asset_id list \<Rightarrow> u64 \<Rightarrow> ('o, replay_error, book_checkpoint option list) prog" where
  "read_latest_checkpoints R asset_ids at_us =
     andthen (checkpoint_files_by_asset_and_hour R asset_ids at_us) (\<lambda>inventories.
     for_each (zip asset_ids inventories) (\<lambda>(asset_id, by_hour). latest_in_hours R asset_id at_us (rev by_hour)))"

definition read_latest_checkpoint :: "'o reader_env \<Rightarrow> asset_id \<Rightarrow> u64 \<Rightarrow> ('o, replay_error, book_checkpoint option) prog" where
  "read_latest_checkpoint R asset_id at_us =
     andthen (read_latest_checkpoints R [asset_id] at_us) (\<lambda>latest.
     ret (case latest of [] \<Rightarrow> None | cs \<Rightarrow> last cs))"

end
