(* ===== verification/StorePaths.thy ===== *)
theory StorePaths
  imports ParquetReader BatchParts
begin

text \<open>
  The paths of a partition. The object store's path parser is a parameter; what the code relies
  on is that it keeps a path whose segments are non-empty and made of the characters of storage
  keys, and that it never changes more than the slashes at the ends.
\<close>

section \<open>Plain paths\<close>

fun split_path :: "string \<Rightarrow> string list" where
  "split_path [] = [[]]"
| "split_path (c # s) =
     (if c = CHR ''/'' then [] # split_path s
      else (case split_path s of [] \<Rightarrow> [[c]] | h # t \<Rightarrow> (c # h) # t))"

definition segment_ok :: "string \<Rightarrow> bool" where
  "segment_ok s \<longleftrightarrow> s \<noteq> [] \<and> s \<noteq> ''.'' \<and> s \<noteq> ''..'' \<and> list_all (\<lambda>c. storage_safe c \<or> c = CHR ''%'') s"

definition plain :: "string \<Rightarrow> bool" where
  "plain s \<longleftrightarrow> list_all segment_ok (split_path s)"

definition child :: "string \<Rightarrow> string \<Rightarrow> string" where
  "child base suffix = (if base = [] then suffix else base @ ''/'' @ suffix)"

definition path_laws :: "'o parquet_lib \<Rightarrow> string \<Rightarrow> bool" where
  "path_laws L base \<longleftrightarrow>
     (\<forall>s. plain s \<longrightarrow> path_parse L (child base s) = Inr (child base s)) \<and>
     (\<forall>s p. path_parse L s = Inr p \<and> s \<noteq> [] \<and> hd s \<noteq> CHR ''/'' \<and> last s \<noteq> CHR ''/'' \<longrightarrow> p = s) \<and>
     (base = [] \<or> hd base \<noteq> CHR ''/'')"

lemma split_path_not_Nil [simp]: "split_path s \<noteq> []"
  by (induction s) (auto split: list.splits)

lemma split_path_slash: "split_path (a @ CHR ''/'' # b) = split_path a @ split_path b"
  by (induction a) (auto split: list.splits simp: Cons_eq_append_conv)

lemma split_path_one: "CHR ''/'' \<notin> set s \<Longrightarrow> split_path s = [s]"
  by (induction s) auto

lemma not_safe_slash [simp]: "\<not> storage_safe (CHR ''/'')"
  by (simp add: storage_safe_def is_ascii_digit_def char_code_def)

lemma segment_no_slash: "segment_ok s \<Longrightarrow> CHR ''/'' \<notin> set s"
  by (auto simp: segment_ok_def list_all_iff)

lemma plain_slash [simp]: "plain (a @ CHR ''/'' # b) \<longleftrightarrow> plain a \<and> plain b"
  by (simp add: plain_def split_path_slash)

lemma plain_segment: "segment_ok s \<Longrightarrow> plain s"
  by (simp add: plain_def split_path_one segment_no_slash)

lemma plain_hd: "plain s \<Longrightarrow> s \<noteq> [] \<and> hd s \<noteq> CHR ''/''"
  by (cases s) (auto simp: plain_def segment_ok_def split: list.splits if_splits)

lemma child_path_plain [simp]: "path_laws L base \<Longrightarrow> plain s \<Longrightarrow> child_path L base s = ret (child base s)"
  by (simp add: path_laws_def child_path_def child_def)

lemma andthen_ret [simp]: "andthen (ret x) f = f x"
  by (rule ext) (simp add: andthen_def ret_def)

lemma last_segment_append: "CHR ''/'' \<notin> set n \<Longrightarrow> last_segment (d @ CHR ''/'' # n) = n"
  by (simp add: last_segment_def rsplit_once_append)

lemma last_segment_no_slash: "CHR ''/'' \<notin> set (last_segment p)"
  by (auto simp: last_segment_def rsplit_once_None rsplit_once_Some split: option.splits)

section \<open>The segments the code builds\<close>

lemma safe_digit: "is_ascii_digit c \<Longrightarrow> storage_safe c"
  by (simp add: storage_safe_def)

lemma safe_marks [simp]: "storage_safe (CHR ''_'')" "storage_safe (CHR ''.'')" "storage_safe (CHR ''-'')"
  by (simp_all add: storage_safe_def)

lemma safe_hex: "is_ascii_hexdigit c \<Longrightarrow> storage_safe c"
  by (auto simp: is_ascii_hexdigit_def storage_safe_def)

lemma key_chars: "list_all (\<lambda>c. storage_safe c \<or> c = CHR ''%'') (storage_key_for a)"
  using storage_key_chars by (auto simp: list_all_iff)

lemma all_safe: "list_all P s \<Longrightarrow> (\<And>c. P c \<Longrightarrow> storage_safe c) \<Longrightarrow> list_all (\<lambda>c. storage_safe c \<or> c = CHR ''%'') s"
  by (auto simp: list_all_iff)

lemma letters_safe [simp]:
  "storage_safe (CHR ''a'')" "storage_safe (CHR ''b'')" "storage_safe (CHR ''c'')"
  "storage_safe (CHR ''d'')" "storage_safe (CHR ''e'')" "storage_safe (CHR ''f'')"
  "storage_safe (CHR ''g'')" "storage_safe (CHR ''h'')" "storage_safe (CHR ''i'')"
  "storage_safe (CHR ''j'')" "storage_safe (CHR ''k'')" "storage_safe (CHR ''l'')"
  "storage_safe (CHR ''m'')" "storage_safe (CHR ''n'')" "storage_safe (CHR ''o'')"
  "storage_safe (CHR ''p'')" "storage_safe (CHR ''q'')" "storage_safe (CHR ''r'')"
  "storage_safe (CHR ''s'')" "storage_safe (CHR ''t'')" "storage_safe (CHR ''u'')"
  "storage_safe (CHR ''v'')" "storage_safe (CHR ''w'')" "storage_safe (CHR ''x'')"
  "storage_safe (CHR ''y'')" "storage_safe (CHR ''z'')"
  by (simp_all add: storage_safe_def char_code_def)

lemma segment_file: "segment_ok (parquet_file_name (storage_key_for a) ts h n)"
proof -
  have "list_all (\<lambda>c. storage_safe c \<or> c = CHR ''%'') (parquet_file_name (storage_key_for a) ts h n)"
    unfolding parquet_file_name_def list_all_append
    using key_chars all_safe [OF dec_digits safe_digit] all_safe [OF hex_lower_digits safe_hex] by simp
  moreover have "3 \<le> length (parquet_file_name (storage_key_for a) ts h n)" by (simp add: parquet_file_name_def)
  ultimately show ?thesis by (auto simp: segment_ok_def)
qed

lemma segment_json: "segment_ok (storage_key_for a @ ''.json'')"
proof -
  have "list_all (\<lambda>c. storage_safe c \<or> c = CHR ''%'') (storage_key_for a @ ''.json'')"
    unfolding list_all_append using key_chars by simp
  moreover have "3 \<le> length (storage_key_for a @ ''.json'')" by simp
  ultimately show ?thesis unfolding segment_ok_def by (auto simp: numeral_3_eq_3 Suc_le_length_iff)
qed

lemma plain_prefixes [simp]: "plain PARQUET_RECOVERY_MANIFEST_PREFIX" "plain PARQUET_RECOVERY_OBJECT_PREFIX"
  by (simp_all add: plain_def segment_ok_def PARQUET_RECOVERY_MANIFEST_PREFIX_def PARQUET_RECOVERY_OBJECT_PREFIX_def
      storage_safe_def char_code_def is_ascii_digit_def)

lemma plain_dataset [simp]: "plain (dataset_name r)" and dataset_hd [simp]: "hd (dataset_name r) \<noteq> CHR ''_''"
  by (cases r; simp add: plain_def segment_ok_def storage_safe_def char_code_def is_ascii_digit_def)+

lemma plain_file [simp]: "plain (parquet_file_name (storage_key_for a) ts h n)"
  by (rule plain_segment [OF segment_file])

lemma plain_json [simp]: "plain (storage_key_for a @ ''.json'')"
  by (rule plain_segment [OF segment_json])

text \<open>The hour of a plausible time is four plain segments.\<close>

lemma plain_digits: "list_all is_ascii_digit s \<Longrightarrow> s \<noteq> [] \<Longrightarrow> plain s"
proof -
  assume d: "list_all is_ascii_digit s" "s \<noteq> []"
  then have "s \<noteq> ''.''" "s \<noteq> ''..''" by auto
  with d show "plain s" by (intro plain_segment) (simp add: segment_ok_def all_safe [OF _ safe_digit])
qed

lemma plain_hour_text:
  assumes "calendar_ok C" "0 \<le> s" "s \<le> 10000000000"
  shows "plain (hour_text C s)"
proof -
  have "plain (zero_pad w (dec n))" for w n by (rule plain_digits) (rule zero_pad_digits, simp add: zero_pad_def)
  then show ?thesis unfolding hour_text_fields(1) [OF assms] two_digits_def by simp
qed

lemma plain_partition: "calendar_ok C \<Longrightarrow> plain (partition_hour_key C ts)"
proof (cases "MIN_PLAUSIBLE_PARTITION_US \<le> ts \<and> ts \<le> MAX_PLAUSIBLE_PARTITION_US")
  case True
  assume C: "calendar_ok C"
  from True have "unat ts \<le> 10000000000000000" by (simp add: MAX_PLAUSIBLE_PARTITION_US_def word_le_nat_alt)
  then show ?thesis unfolding partition_text [OF C True [THEN conjunct1] True [THEN conjunct2]] by (intro plain_hour_text C) simp_all
next
  case False
  then show ?thesis
    by (simp add: partition_hour_key_def invalid_partition_def plain_def segment_ok_def storage_safe_def char_code_def is_ascii_digit_def)
qed

section \<open>Directories\<close>

definition normal_dir :: "string \<Rightarrow> string \<Rightarrow> string \<Rightarrow> string" where
  "normal_dir base dataset hour_key = child base (dataset @ ''/'' @ hour_key)"

definition hidden_dir :: "string \<Rightarrow> string \<Rightarrow> string \<Rightarrow> string" where
  "hidden_dir base dataset hour_key = child base (PARQUET_RECOVERY_OBJECT_PREFIX @ ''/'' @ dataset @ ''/'' @ hour_key)"

definition manifest_at :: "string \<Rightarrow> string \<Rightarrow> string \<Rightarrow> string \<Rightarrow> string" where
  "manifest_at base dataset asset hour_key =
     child base (PARQUET_RECOVERY_MANIFEST_PREFIX @ ''/'' @ dataset @ ''/'' @ hour_key @ ''/'' @ asset @ ''.json'')"

lemma child_append: "child base (a @ ''/'' @ b) = child base a @ CHR ''/'' # b"
  by (simp add: child_def)

lemma under_child: "rest \<noteq> [] \<Longrightarrow> under d (d @ CHR ''/'' # rest)"
proof -
  have "d @ CHR ''/'' # rest = (d @ ''/'') @ rest" by simp
  then have "strip_prefix (d @ ''/'') (d @ CHR ''/'' # rest) = Some rest" by (metis strip_prefix_append)
  then show "rest \<noteq> [] \<Longrightarrow> ?thesis" by (simp add: under_def)
qed

lemma under_iff: "under d p \<longleftrightarrow> (\<exists>rest. rest \<noteq> [] \<and> p = d @ CHR ''/'' # rest)"
proof
  assume "under d p"
  then obtain rest where "strip_prefix (d @ ''/'') p = Some rest" "rest \<noteq> []" by (auto simp: under_def split: option.splits)
  then show "\<exists>rest. rest \<noteq> [] \<and> p = d @ CHR ''/'' # rest" by (auto simp: strip_prefix_Some)
qed (auto intro: under_child)

text \<open>The three trees of a dataset are apart: their first segments differ in the first letter, or
  in the name.\<close>

definition site :: "string \<Rightarrow> string \<Rightarrow> bool" where
  "site dataset hour_key \<longleftrightarrow> plain dataset \<and> plain hour_key \<and> hd dataset \<noteq> CHR ''_''"

lemma child_inject: "child base a = child base b \<longleftrightarrow> a = b"
  by (simp add: child_def)

lemma normal_not_hidden:
  assumes "site dataset hour_key"
  shows "normal_dir base dataset hour_key @ CHR ''/'' # x \<noteq> hidden_dir base dataset hour_key @ CHR ''/'' # y"
proof
  assume "normal_dir base dataset hour_key @ CHR ''/'' # x = hidden_dir base dataset hour_key @ CHR ''/'' # y"
  then have "dataset @ ''/'' @ hour_key @ CHR ''/'' # x = PARQUET_RECOVERY_OBJECT_PREFIX @ ''/'' @ dataset @ ''/'' @ hour_key @ CHR ''/'' # y"
    by (simp add: normal_dir_def hidden_dir_def child_def split: if_splits)
  then have "hd dataset = CHR ''_''"
    using assms plain_hd [of dataset] by (cases dataset) (auto simp: site_def PARQUET_RECOVERY_OBJECT_PREFIX_def)
  with assms show False by (simp add: site_def)
qed

lemma manifest_apart:
  assumes "site dataset hour_key"
  shows "manifest_at base dataset asset hour_key \<noteq> normal_dir base dataset hour_key @ CHR ''/'' # x"
    and "manifest_at base dataset asset hour_key \<noteq> hidden_dir base dataset hour_key @ CHR ''/'' # x"
proof -
  show "manifest_at base dataset asset hour_key \<noteq> normal_dir base dataset hour_key @ CHR ''/'' # x"
  proof
    assume "manifest_at base dataset asset hour_key = normal_dir base dataset hour_key @ CHR ''/'' # x"
    then have "PARQUET_RECOVERY_MANIFEST_PREFIX @ ''/'' @ dataset @ ''/'' @ hour_key @ ''/'' @ asset @ ''.json'' =
        dataset @ ''/'' @ hour_key @ CHR ''/'' # x"
      by (simp add: manifest_at_def normal_dir_def child_def split: if_splits)
    then have "hd dataset = CHR ''_''"
      using assms plain_hd [of dataset] by (cases dataset) (auto simp: site_def PARQUET_RECOVERY_MANIFEST_PREFIX_def)
    with assms show False by (simp add: site_def)
  qed
  show "manifest_at base dataset asset hour_key \<noteq> hidden_dir base dataset hour_key @ CHR ''/'' # x"
    by (auto simp: manifest_at_def hidden_dir_def child_def PARQUET_RECOVERY_MANIFEST_PREFIX_def PARQUET_RECOVERY_OBJECT_PREFIX_def)
qed

section \<open>A concrete library\<close>

text \<open>Objects that hold what was encoded; a file's size is its number of rows.\<close>

datatype demo_object = Stored "string option" record_batch | Meta manifest

definition demo_lib :: "demo_object parquet_lib" where
  "demo_lib =
     \<lparr> pq_arrow = sample_lib, pq_calendar = sample_calendar,
       pq_write = (\<lambda>s b. if rb_rows b = 0 then Inl ''no rows'' else Inr (Stored (sch_version s) b)), pq_hash = (\<lambda>_. 7),
       pq_len = (\<lambda>x. case x of Stored _ b \<Rightarrow> rb_rows b | Meta _ \<Rightarrow> 1),
       pq_version = (\<lambda>x. case x of Stored v _ \<Rightarrow> Inr v | Meta _ \<Rightarrow> Inl ''not a file''),
       pq_batches = (\<lambda>x. case x of Stored _ b \<Rightarrow> [Inr (batch_take (rb_rows b) b)] | Meta _ \<Rightarrow> []),
       manifest_to_json = (\<lambda>m. Inr (Meta m)),
       manifest_from_json = (\<lambda>x. case x of Meta m \<Rightarrow> Inr m | Stored _ _ \<Rightarrow> Inl ''not a manifest''),
       path_parse = Inr \<rparr>"

definition demo_reader :: "demo_object reader_env" where
  "demo_reader = \<lparr> re_lib = demo_lib, re_base = ''data'', re_order = id \<rparr>"

lemma demo_path_laws [simp]: "path_laws demo_lib ''data''"
  by (simp add: path_laws_def demo_lib_def)

lemma demo_calendar_ok [simp]: "calendar_ok (pq_calendar demo_lib)"
  by (simp add: demo_lib_def)

definition demo_records :: "persisted_record list" where
  "demo_records = [Book (sample_event Snapshot Bid 4000 5 20 0 0 3)]"

lemma demo_encode: "\<exists>b. encode_group demo_lib demo_records = ret (Stored (Some ''2'') b, ''a_20_0000000000000007_1.parquet'')"
proof -
  have "case records_to_record_batch sample_lib demo_records of Inl _ \<Rightarrow> False | Inr b \<Rightarrow> rb_rows b = 1" by code_simp
  then obtain b where b: "records_to_record_batch sample_lib demo_records = Inr b" "rb_rows b = 1" by (auto split: sum.splits)
  have "parquet_file_name (storage_key_for ''a'') 20 7 1 = ''a_20_0000000000000007_1.parquet''" by code_simp
  then have "encode_group demo_lib demo_records = ret (Stored (Some ''2'') b, ''a_20_0000000000000007_1.parquet'')"
    using b unfolding encode_group_def by (simp add: demo_lib_def of_result_def demo_records_def sample_event_def schema_defs PB_SCHEMA_VERSION_def)
  then show ?thesis by blast
qed

end
