(* ===== verification/Recovery.thy ===== *)
theory Recovery
  imports StorePaths
begin

text \<open>
  Crash consistency of a recovery: at every moment of \<open>replace_group\<close>, whatever calls fail, the
  reader sees the old content of the partition or the new one, never a mixture.
\<close>

section \<open>What the reader sees\<close>

definition calm :: "'o store \<Rightarrow> 'o store" where
  "calm st = st\<lparr> st_fates := [] \<rparr>"

text \<open>The objects the reader reads for an asset and an hour, when its own calls succeed.\<close>

definition hour_view :: "'o reader_env \<Rightarrow> string \<Rightarrow> asset_id \<Rightarrow> string \<Rightarrow> 'o store \<Rightarrow> replay_error stop + 'o list" where
  "hour_view R dataset a hour_key st =
     snd (andthen (add_hour_files R dataset (Some a) (normal_dir (re_base R) dataset hour_key) [])
            (\<lambda>files. for_each (remdups_adj (sort files)) (\<lambda>p. call ReplayObjectStore (store_get p)))
          (calm st))"

definition listed :: "string \<Rightarrow> string \<Rightarrow> (string, 'o) hmap \<Rightarrow> string list" where
  "listed dir key m = filter (file_of_asset key) (filter (under dir) (hm_keys m))"

definition scope_ok :: "string \<Rightarrow> string \<Rightarrow> string \<Rightarrow> manifest \<Rightarrow> string \<Rightarrow> string \<Rightarrow> string \<Rightarrow> bool" where
  "scope_ok normal hidden path m dataset asset hour_key \<longleftrightarrow>
     pm_dataset m = dataset \<and> pm_asset_key m = asset \<and> pm_hour_key m = hour_key \<and>
     (case Option.bind (path_filename path) (strip_suffix ''.json'') of
        None \<Rightarrow> False | Some stem \<Rightarrow> storage_object_component_matches_key stem asset) \<and>
     list_all (object_scoped normal hidden asset) (pm_active_objects m) \<and>
     list_all (object_scoped normal hidden asset) (pm_superseded_objects m)"

definition fetch :: "(string, 'o) hmap \<Rightarrow> string \<Rightarrow> replay_error + 'o" where
  "fetch m p = (case hm_get m p of None \<Rightarrow> Inl (ReplayObjectStore (NotFound p)) | Some x \<Rightarrow> Inr x)"

definition view_files :: "'o parquet_lib \<Rightarrow> string \<Rightarrow> string \<Rightarrow> string \<Rightarrow> string \<Rightarrow> (string, 'o) hmap \<Rightarrow> replay_error + string list" where
  "view_files L base dataset key hour_key m =
     (let normal = normal_dir base dataset hour_key; path = manifest_at base dataset key hour_key
      in case hm_get m path of
           None \<Rightarrow> Inr (listed normal key m)
         | Some bytes \<Rightarrow>
             (case decode_manifest L path bytes of
                Inl e \<Rightarrow> Inl e
              | Inr man \<Rightarrow>
                  if scope_ok normal (hidden_dir base dataset hour_key) path man dataset key hour_key then
                    map_sum id (\<lambda>active. filter (\<lambda>p. p \<notin> set (pm_superseded_objects man)) (listed normal key m) @ active)
                      (collect (map (parse_active L) (pm_active_objects man)))
                  else Inl (ReplayOther (unscoped_manifest path))))"

definition view_objects :: "'o parquet_lib \<Rightarrow> string \<Rightarrow> string \<Rightarrow> string \<Rightarrow> string \<Rightarrow> (string, 'o) hmap \<Rightarrow> replay_error + 'o list" where
  "view_objects L base dataset key hour_key m =
     (case view_files L base dataset key hour_key m of
        Inl e \<Rightarrow> Inl e
      | Inr files \<Rightarrow> collect (map (fetch m) (remdups_adj (sort files))))"

lemma calm_fate [simp]: "next_fate (calm st) = (Done, calm st)"
  by (simp add: next_fate_def calm_def)

lemma calm_objects [simp]: "st_objects (calm st) = st_objects st"
  by (simp add: calm_def)

lemma calm_get: "store_get p (calm st) =
    (calm st, case hm_get (st_objects st) p of None \<Rightarrow> Inl (NotFound p) | Some x \<Rightarrow> Inr x)"
  by (simp add: store_get_def read_call_def)

lemma calm_list: "store_list d (calm st) = (calm st, Inr (filter (under d) (hm_keys (st_objects st))))"
  by (simp add: store_list_def read_call_def)

lemma calm_fetch1: "call ReplayObjectStore (store_get p) (calm st) = (calm st, map_sum Failed id (fetch (st_objects st) p))"
  by (simp add: call_def calm_get fetch_def split: option.splits)

lemma calm_fetch: "for_each ps (\<lambda>p. call ReplayObjectStore (store_get p)) (calm st) =
    (calm st, map_sum Failed id (collect (map (fetch (st_objects st)) ps)))"
proof (induction ps)
  case (Cons p ps)
  then show ?case
    by (cases "fetch (st_objects st) p"; cases "collect (map (fetch (st_objects st)) ps)")
      (simp_all add: andthen_def calm_fetch1 ret_def)
qed (simp add: ret_def)

lemma path_parse_plain: "path_laws L base \<Longrightarrow> plain s \<Longrightarrow> path_parse L (child base s) = Inr (child base s)"
  by (simp add: path_laws_def)

lemma file_of_asset_wanted: "listed_file_wanted (Some a) p = file_of_asset (storage_key_for a) p"
  by (auto simp: listed_file_wanted_def file_of_asset_def storage_object_file_matches_asset_def
      storage_file_asset_key_def ends_with_def split: option.splits)

text \<open>Under the path laws every path of the site is what it looks like.\<close>

lemma site_paths:
  assumes "path_laws L base" "site dataset hour_key"
  shows "child_path L base (dataset @ ''/'' @ hour_key) = ret (normal_dir base dataset hour_key)"
    and "child_path L base (PARQUET_RECOVERY_OBJECT_PREFIX @ ''/'' @ dataset @ ''/'' @ hour_key) = ret (hidden_dir base dataset hour_key)"
    and "recovery_manifest_path L base dataset (storage_key_for a) hour_key = ret (manifest_at base dataset (storage_key_for a) hour_key)"
    and "path_parse L (child base (PARQUET_RECOVERY_MANIFEST_PREFIX @ ''/'' @ dataset @ ''/'' @ hour_key) @ ''/'' @ storage_key_for a @ ''.json'') =
      Inr (manifest_at base dataset (storage_key_for a) hour_key)"
    and "child_path L base (PARQUET_RECOVERY_MANIFEST_PREFIX @ ''/'' @ dataset @ ''/'' @ hour_key) =
      ret (child base (PARQUET_RECOVERY_MANIFEST_PREFIX @ ''/'' @ dataset @ ''/'' @ hour_key))"
proof -
  have pl: "plain dataset" "plain hour_key" using assms(2) by (simp_all add: site_def)
  show "child_path L base (dataset @ ''/'' @ hour_key) = ret (normal_dir base dataset hour_key)"
    using assms(1) pl by (simp add: normal_dir_def)
  show "child_path L base (PARQUET_RECOVERY_OBJECT_PREFIX @ ''/'' @ dataset @ ''/'' @ hour_key) = ret (hidden_dir base dataset hour_key)"
    using assms(1) pl by (simp add: hidden_dir_def)
  show "recovery_manifest_path L base dataset (storage_key_for a) hour_key = ret (manifest_at base dataset (storage_key_for a) hour_key)"
    using assms(1) pl by (simp add: recovery_manifest_path_def manifest_at_def)
  show "child_path L base (PARQUET_RECOVERY_MANIFEST_PREFIX @ ''/'' @ dataset @ ''/'' @ hour_key) =
      ret (child base (PARQUET_RECOVERY_MANIFEST_PREFIX @ ''/'' @ dataset @ ''/'' @ hour_key))"
    using assms(1) pl by simp
  have "path_parse L (manifest_at base dataset (storage_key_for a) hour_key) = Inr (manifest_at base dataset (storage_key_for a) hour_key)"
    unfolding manifest_at_def using pl by (intro path_parse_plain assms(1)) simp
  then show "path_parse L (child base (PARQUET_RECOVERY_MANIFEST_PREFIX @ ''/'' @ dataset @ ''/'' @ hour_key) @ ''/'' @ storage_key_for a @ ''.json'') =
      Inr (manifest_at base dataset (storage_key_for a) hour_key)"
    unfolding manifest_at_def child_def by (cases "base = []") simp_all
qed

lemma trim_plain: "plain s \<Longrightarrow> trim_slashes (s @ x) = s @ x"
  using plain_hd [of s] by (cases s) (auto simp: trim_slashes_def)

lemma hour_key_of_dir: "site dataset hour_key \<Longrightarrow> hour_key_of base dataset (normal_dir base dataset hour_key) = hour_key"
proof -
  assume s: "site dataset hour_key"
  then have p: "plain dataset" "plain hour_key" by (simp_all add: site_def)
  have "strip_or_same base (normal_dir base dataset hour_key) = (if base = [] then [] else ''/'') @ dataset @ ''/'' @ hour_key"
    by (simp add: strip_or_same_def normal_dir_def child_def strip_prefix_def)
  then have "trim_slashes (strip_or_same base (normal_dir base dataset hour_key)) = dataset @ ''/'' @ hour_key"
    using trim_plain [OF p(1), of "''/'' @ hour_key"] by (simp add: trim_slashes_def)
  then show ?thesis
    using trim_plain [OF p(2), of "[]"] unfolding hour_key_of_def by (simp add: strip_or_same_def) (simp add: trim_slashes_def)
qed

lemma reader_scope:
  assumes "path_laws (re_lib R) (re_base R)" "site dataset hour_key"
  shows "validate_manifest_scope R path m dataset hour_key (Some key) =
    (if scope_ok (normal_dir (re_base R) dataset hour_key) (hidden_dir (re_base R) dataset hour_key) path m dataset key hour_key
     then ret () else stop (ReplayOther (unscoped_manifest path)))"
  unfolding validate_manifest_scope_def site_paths [OF assms] andthen_ret Let_def scope_ok_def
  by (cases "pm_asset_key m = key") auto

lemma writer_scope:
  assumes "path_laws L base" "site dataset hour_key"
  shows "validate_recovery_manifest_scope L base path m dataset key hour_key =
    (if scope_ok (normal_dir base dataset hour_key) (hidden_dir base dataset hour_key) path m dataset key hour_key
     then ret () else stop (UnsafeRecovery (unscoped_manifest path)))"
  unfolding validate_recovery_manifest_scope_def site_paths [OF assms] andthen_ret Let_def scope_ok_def by auto

lemma manifests_seen:
  assumes "path_laws (re_lib R) (re_base R)" "site dataset hour_key"
    and "L = re_lib R" "base = re_base R" "key = storage_key_for a"
  shows "recovery_manifests R dataset (normal_dir base dataset hour_key) (Some a) (calm st) = (calm st,
    case hm_get (st_objects st) (manifest_at base dataset key hour_key) of
      None \<Rightarrow> Inr []
    | Some bytes \<Rightarrow>
        (case decode_manifest L (manifest_at base dataset key hour_key) bytes of
           Inl e \<Rightarrow> Inl (Failed e)
         | Inr m \<Rightarrow> if scope_ok (normal_dir base dataset hour_key) (hidden_dir base dataset hour_key)
               (manifest_at base dataset key hour_key) m dataset key hour_key then Inr [m]
             else Inl (Failed (ReplayOther (unscoped_manifest (manifest_at base dataset key hour_key))))))"
  unfolding recovery_manifests_def Let_def assms(3-5) hour_key_of_dir [OF assms(2)] site_paths [OF assms(1,2)]
    andthen_ret option.case sum.case calm_get reader_scope [OF assms(1,2)]
  by (auto simp: andthen_def of_result_def ret_def stop_def split: option.splits sum.splits)

lemma hour_view_objects:
  assumes "path_laws (re_lib R) (re_base R)" "site dataset hour_key"
  shows "hour_view R dataset a hour_key st =
    map_sum Failed id (view_objects (re_lib R) (re_base R) dataset (storage_key_for a) hour_key (st_objects st))"
proof -
  let ?L = "re_lib R" and ?b = "re_base R" and ?k = "storage_key_for a"
  let ?N = "normal_dir ?b dataset hour_key" and ?M = "manifest_at ?b dataset ?k hour_key"
  have "add_hour_files R dataset (Some a) ?N [] (calm st) =
      (calm st, map_sum Failed id (view_files ?L ?b dataset ?k hour_key (st_objects st)))"
    unfolding add_hour_files_def andthen_def [of "call _ _"] call_def calm_list Let_def
    by (auto simp: andthen_def manifests_seen [OF assms refl refl refl] file_of_asset_wanted [abs_def] view_files_def
        listed_def Let_def ret_def of_result_def stop_def split: option.splits sum.splits)
  then show ?thesis
    unfolding hour_view_def view_objects_def
    by (auto simp: andthen_def calm_fetch split: sum.splits)
qed

section \<open>What the view depends on\<close>

lemma hm_key_iff: "p \<in> set (hm_keys m) \<longleftrightarrow> hm_get m p \<noteq> None"
  by (simp add: hm_keys_get)

lemma listed_mem: "p \<in> set (listed dir key m) \<longleftrightarrow> under dir p \<and> file_of_asset key p \<and> hm_get m p \<noteq> None"
  by (auto simp: listed_def hm_key_iff)

lemma map_sum_id_Inr: "map_sum id f r = Inr y \<longleftrightarrow> (\<exists>x. r = Inr x \<and> y = f x)"
  by (cases r) auto

lemma distinct_dedup: "sorted xs \<Longrightarrow> distinct (remdups_adj xs)"
  by (induction xs rule: remdups_adj.induct) auto

lemma dedup_sorted: "remdups_adj (sort xs) = sorted_list_of_set (set xs)"
proof (rule sorted_distinct_set_unique)
  show "distinct (remdups_adj (sort xs))" by (rule distinct_dedup) simp
qed (simp_all add: remdups_adj_set)

lemma collect_cong: "(\<And>x. x \<in> set xs \<Longrightarrow> f x = g x) \<Longrightarrow> collect (map f xs) = collect (map g xs)"
  by (induction xs) (auto simp: map_eq_conv cong: map_cong)

lemma collect_Inr_all: "collect rs = Inr ys \<Longrightarrow> r \<in> set rs \<Longrightarrow> \<exists>y. r = Inr y"
  by (induction rs arbitrary: ys rule: collect.induct) (auto split: sum.splits, metis map_sum.simps(1) sumE sum.distinct(1))

text \<open>The view is unchanged when the manifest and the listing are, and no present object changes.\<close>

lemma view_same:
  assumes "view_objects L base dataset key hour_key m = Inr old"
    and "hm_get m' (manifest_at base dataset key hour_key) = hm_get m (manifest_at base dataset key hour_key)"
    and "set (listed (normal_dir base dataset hour_key) key m') = set (listed (normal_dir base dataset hour_key) key m)"
    and "\<And>p x. hm_get m p = Some x \<Longrightarrow> hm_get m' p = Some x"
  shows "view_objects L base dataset key hour_key m' = Inr old"
proof -
  obtain fs where fs: "view_files L base dataset key hour_key m = Inr fs"
    and old: "collect (map (fetch m) (remdups_adj (sort fs))) = Inr old"
    using assms(1) by (auto simp: view_objects_def split: sum.splits)
  have "\<exists>fs'. view_files L base dataset key hour_key m' = Inr fs' \<and> set fs' = set fs"
    using fs assms(2,3) by (auto simp: view_files_def Let_def map_sum_id_Inr split: option.splits sum.splits if_splits)
  then obtain fs' where fs': "view_files L base dataset key hour_key m' = Inr fs'" "set fs' = set fs" by blast
  have "fetch m' p = fetch m p" if "p \<in> set (remdups_adj (sort fs))" for p
  proof -
    from collect_Inr_all [OF old, of "fetch m p"] that obtain x where "fetch m p = Inr x" by auto
    then have "hm_get m p = Some x" by (simp add: fetch_def split: option.splits)
    with assms(4) show ?thesis by (simp add: fetch_def)
  qed
  then have "collect (map (fetch m') (remdups_adj (sort fs'))) = collect (map (fetch m) (remdups_adj (sort fs)))"
    unfolding dedup_sorted fs'(2) by (intro collect_cong) simp
  then show ?thesis using fs' old by (simp add: view_objects_def)
qed

text \<open>A published manifest with one active object that supersedes every other listed file shows
  exactly that object.\<close>

lemma view_published:
  assumes "hm_get m (manifest_at base dataset key hour_key) = Some j"
    and "manifest_from_json L j = Inr (recovery_manifest dataset key hour_key cov active stale)"
    and "manifest_validate (recovery_manifest dataset key hour_key cov active stale) = Inr ()"
    and "scope_ok (normal_dir base dataset hour_key) (hidden_dir base dataset hour_key) (manifest_at base dataset key hour_key)
      (recovery_manifest dataset key hour_key cov active stale) dataset key hour_key"
    and "path_parse L active = Inr active" "hm_get m active = Some buf"
    and "\<And>p. p \<in> set (listed (normal_dir base dataset hour_key) key m) \<Longrightarrow> p \<in> set stale \<or> p = active"
  shows "view_objects L base dataset key hour_key m = Inr [buf]"
proof -
  let ?fs = "filter (\<lambda>p. p \<notin> set stale) (listed (normal_dir base dataset hour_key) key m) @ [active]"
  have "view_files L base dataset key hour_key m = Inr ?fs"
    using assms(1-5) by (simp add: view_files_def Let_def decode_manifest_def parse_active_def)
      (simp add: recovery_manifest_def parse_active_def assms(5))
  moreover have "set ?fs = {active}" using assms(7) by auto
  then have "remdups_adj (sort ?fs) = sorted_list_of_set {active}" unfolding dedup_sorted by (rule arg_cong)
  then have "remdups_adj (sort ?fs) = [active]" by simp
  ultimately show ?thesis using assms(6) by (simp add: view_objects_def fetch_def)
qed

section \<open>The steps of a replacement\<close>

text \<open>The manifest's JSON text reads back.\<close>

definition manifest_json_ok :: "'o parquet_lib \<Rightarrow> bool" where
  "manifest_json_ok L \<longleftrightarrow> (\<forall>m j. manifest_to_json L m = Inr j \<longrightarrow> manifest_from_json L j = Inr m)"

lemma read_manifest_keeps:
  assumes "path_laws L base" "site dataset hour_key"
  shows "triple (on_objects I) (read_recovery_manifest L base path dataset key hour_key) (\<lambda>_. on_objects I) (on_objects I)"
proof (rule tripleI)
  fix st st' r
  assume I: "on_objects I st" and eq: "read_recovery_manifest L base path dataset key hour_key st = (st', r)"
  obtain st1 r1 where get: "store_get path st = (st1, r1)" by (cases "store_get path st")
  have "st_objects st1 = st_objects st"
    using get by (auto simp: store_get_def read_call_def split: prod.splits fate.splits dest: next_fate_objects)
  then have "on_objects I st1" using I by (simp add: on_objects_def)
  moreover have "st' = st1"
    using eq get unfolding read_recovery_manifest_def writer_scope [OF assms]
    by (auto simp: andthen_def of_result_def ret_def stop_def split: sum.splits object_error.splits prod.splits if_splits)
  ultimately show "case r of Inl _ \<Rightarrow> on_objects I st' | Inr x \<Rightarrow> on_objects I st'" by (simp split: sum.split)
qed

text \<open>Publishing puts the manifest only when it is valid and in scope.\<close>

lemma publish_step:
  assumes "path_laws L base" "site dataset hour_key"
    and "\<And>m. I m \<Longrightarrow> K m" "\<And>m. J m \<Longrightarrow> K m"
    and "\<And>m j. I m \<Longrightarrow> manifest_to_json L man = Inr j \<Longrightarrow> manifest_validate man = Inr () \<Longrightarrow>
      scope_ok (normal_dir base dataset hour_key) (hidden_dir base dataset hour_key) path man dataset key hour_key \<Longrightarrow>
      J (hm_insert path j m)"
  shows "triple (on_objects I) (publish_recovery_manifest L base path man dataset key hour_key) (\<lambda>_. on_objects J) (on_objects K)"
proof -
  have stop: "triple (on_objects J) (stop e) Q (on_objects K)" for e and Q :: "unit \<Rightarrow> 'a store \<Rightarrow> bool"
    using assms(4) by (auto intro!: triple_stop simp: on_objects_def)
  have readback: "triple (on_objects J) (andthen (read_recovery_manifest L base path dataset key hour_key) (\<lambda>published.
       case published of
         None \<Rightarrow> stop e1
       | Some p \<Rightarrow> if p = man then ret () else stop e2)) (\<lambda>_. on_objects J) (on_objects K)" for e1 e2
  proof (rule triple_andthen)
    show "triple (on_objects J) (read_recovery_manifest L base path dataset key hour_key) (\<lambda>_. on_objects J) (on_objects K)"
      by (rule triple_post [OF read_manifest_keeps [OF assms(1,2)]]) (simp_all add: on_objects_def assms(4))
    show "triple (on_objects J) (case x of None \<Rightarrow> stop e1 | Some p \<Rightarrow> if p = man then ret () else stop e2)
        (\<lambda>_. on_objects J) (on_objects K)" for x
      using stop by (auto intro: triple_ret split: option.split)
  qed
  show ?thesis
  proof (cases "manifest_validate man = Inr () \<and> (\<exists>j. manifest_to_json L man = Inr j) \<and>
      scope_ok (normal_dir base dataset hour_key) (hidden_dir base dataset hour_key) path man dataset key hour_key")
    case True
    then obtain j where j: "manifest_to_json L man = Inr j" by blast
    with True have "publish_recovery_manifest L base path man dataset key hour_key =
        andthen (call StoreObject (store_put path j)) (\<lambda>_. andthen (read_recovery_manifest L base path dataset key hour_key) (\<lambda>published.
         case published of
           None \<Rightarrow> stop (UnsafeRecovery (disappeared path))
         | Some p \<Rightarrow> if p = man then ret ()
             else stop (UnsafeRecovery (unverified path))))"
      unfolding publish_recovery_manifest_def writer_scope [OF assms(1,2)] by (simp add: of_result_def)
    moreover have "triple (on_objects I) (call StoreObject (store_put path j)) (\<lambda>_. on_objects J) (on_objects K)"
      by (rule triple_put [where I = I and J = J and K = K]) (use True j assms(3-5) in blast)+
    ultimately show ?thesis by (simp only: triple_andthen [OF _ readback])
  next
    case False
    then have "\<exists>e. publish_recovery_manifest L base path man dataset key hour_key = stop e"
      unfolding publish_recovery_manifest_def writer_scope [OF assms(1,2)]
      by (cases "manifest_validate man"; cases "manifest_to_json L man")
        (auto simp: of_result_def andthen_def stop_def ret_def fun_eq_iff)
    then show ?thesis using assms(3) by (auto intro!: triple_stop simp: on_objects_def)
  qed
qed

lemma put_checked_step:
  assumes "\<And>m. I m \<Longrightarrow> J (hm_insert path x m)" "\<And>m. I m \<Longrightarrow> K m" "\<And>m. J m \<Longrightarrow> K m"
  shows "triple (on_objects I) (put_checked L what path x) (\<lambda>_. on_objects J) (on_objects K)"
proof -
  have "triple (on_objects J) (andthen (call StoreObject (store_get path)) (\<lambda>written.
      if pq_len L written = pq_len L x then ret () else stop (e written))) (\<lambda>_. on_objects J) (on_objects K)" for e
  proof (rule triple_andthen)
    show "triple (on_objects J) (call StoreObject (store_get path)) (\<lambda>y. on_objects (\<lambda>m. J m \<and> hm_get m path = Some y)) (on_objects K)"
      by (rule triple_get) (rule assms(3))
    show "triple (on_objects (\<lambda>m. J m \<and> hm_get m path = Some y))
        (if pq_len L y = pq_len L x then ret () else stop (e y)) (\<lambda>_. on_objects J) (on_objects K)" for y
      using assms(3) by (auto intro!: triple_ret triple_stop simp: on_objects_def)
  qed
  then show ?thesis
    unfolding put_checked_def
    by (rule triple_andthen [rotated]) (rule triple_put [where I = I and J = J and K = K, OF assms])
qed

text \<open>Deleting: objects only disappear, only stale ones, and all of them when no deletion fails.\<close>

definition shrunk :: "string set \<Rightarrow> (string, 'o) hmap \<Rightarrow> (string, 'o) hmap \<Rightarrow> bool" where
  "shrunk stale m m' \<longleftrightarrow> hm_ok m' \<and>
     (\<forall>p. hm_get m' p = hm_get m p \<or> p \<in> stale \<and> hm_get m' p = None)"

lemma shrunk_refl: "hm_ok m \<Longrightarrow> shrunk stale m m"
  by (simp add: shrunk_def)

lemma delete_step:
  assumes "\<And>q. path_parse L p = Inr q \<Longrightarrow> q = p" "p \<in> stale"
    and "\<And>m'. shrunk stale m m' \<Longrightarrow> K m'"
  shows "triple (on_objects (\<lambda>m'. shrunk stale m m' \<and> (\<forall>q\<in>gone. hm_get m' q = None)))
    (delete_stale L p)
    (\<lambda>n. on_objects (\<lambda>m'. shrunk stale m m' \<and> (\<forall>q\<in>gone. hm_get m' q = None) \<and> (n = 0 \<longrightarrow> hm_get m' p = None)))
    (on_objects K)"
proof (rule tripleI)
  fix st st' r
  assume I: "on_objects (\<lambda>m'. shrunk stale m m' \<and> (\<forall>q\<in>gone. hm_get m' q = None)) st"
    and eq: "delete_stale L p st = (st', r)"
  show "case r of Inl _ \<Rightarrow> on_objects K st'
    | Inr n \<Rightarrow> on_objects (\<lambda>m'. shrunk stale m m' \<and> (\<forall>q\<in>gone. hm_get m' q = None) \<and> (n = 0 \<longrightarrow> hm_get m' p = None)) st'"
  proof (cases "path_parse L p")
    case (Inl e)
    with eq I show ?thesis using assms(3) by (auto simp: delete_stale_def stop_def on_objects_def)
  next
    case (Inr q)
    with assms(1) have q: "q = p" by simp
    have removed: "shrunk stale m (hm_remove p m')" if "shrunk stale m m'" for m'
      using that assms(2) by (auto simp: shrunk_def hm.get_del hm.ok_del)
    have ok: "hm_ok m'" if "shrunk stale m m'" for m' using that by (simp add: shrunk_def)
    show ?thesis
      using eq I removed ok unfolding Inr q
      by (auto simp: delete_stale_def Inr q store_delete_def write_call_def on_objects_def hm.get_del
          dest!: next_fate_objects split: prod.splits fate.splits option.splits object_error.splits sum.splits)
  qed
qed

lemma delete_loop:
  assumes "\<And>p q. p \<in> set ps \<Longrightarrow> path_parse L p = Inr q \<Longrightarrow> q = p" "set ps \<subseteq> stale"
    and "\<And>m'. shrunk stale m m' \<Longrightarrow> K m'"
  shows "triple (on_objects (\<lambda>m'. shrunk stale m m' \<and> (\<forall>q\<in>gone. hm_get m' q = None)))
    (for_each ps (delete_stale L))
    (\<lambda>ns. on_objects (\<lambda>m'. shrunk stale m m' \<and> (sum_list ns = 0 \<longrightarrow> (\<forall>q\<in>gone \<union> set ps. hm_get m' q = None))))
    (on_objects K)"
  using assms(1,2)
proof (induction ps arbitrary: gone)
  case Nil
  show ?case by (auto intro!: triple_ret simp: on_objects_def)
next
  case (Cons p ps)
  show ?case
    unfolding for_each.simps
  proof (rule triple_andthen)
    show "triple (on_objects (\<lambda>m'. shrunk stale m m' \<and> (\<forall>q\<in>gone. hm_get m' q = None)))
      (delete_stale L p)
      (\<lambda>n. on_objects (\<lambda>m'. shrunk stale m m' \<and> (\<forall>q\<in>gone. hm_get m' q = None) \<and> (n = 0 \<longrightarrow> hm_get m' p = None)))
      (on_objects K)"
      using Cons.prems by (intro delete_step assms(3)) auto
    fix n
    show "triple (on_objects (\<lambda>m'. shrunk stale m m' \<and> (\<forall>q\<in>gone. hm_get m' q = None) \<and> (n = 0 \<longrightarrow> hm_get m' p = None)))
      (andthen (for_each ps (delete_stale L)) (\<lambda>ys. ret (n # ys)))
      (\<lambda>ns. on_objects (\<lambda>m'. shrunk stale m m' \<and> (sum_list ns = 0 \<longrightarrow> (\<forall>q\<in>gone \<union> set (p # ps). hm_get m' q = None))))
      (on_objects K)"
    proof (rule triple_andthen)
      let ?gone = "if n = 0 then insert p gone else gone"
      show "triple (on_objects (\<lambda>m'. shrunk stale m m' \<and> (\<forall>q\<in>gone. hm_get m' q = None) \<and> (n = 0 \<longrightarrow> hm_get m' p = None)))
        (for_each ps (delete_stale L))
        (\<lambda>ns. on_objects (\<lambda>m'. shrunk stale m m' \<and> (sum_list ns = 0 \<longrightarrow> (\<forall>q\<in>?gone \<union> set ps. hm_get m' q = None)))) (on_objects K)"
        by (rule triple_pre [OF Cons.IH]) (use Cons.prems in \<open>auto simp: on_objects_def\<close>)
    qed (auto intro!: triple_ret simp: on_objects_def)
  qed
qed

lemma triple_ex: "(\<And>x. triple (on_objects (I x)) f Q E) \<Longrightarrow> triple (on_objects (\<lambda>m. \<exists>x. I x m)) f Q E"
  unfolding triple_def on_objects_def by metis

lemma triple_fact: "(F \<Longrightarrow> triple (on_objects I) f Q E) \<Longrightarrow> triple (on_objects (\<lambda>m. I m \<and> F)) f Q E"
  by (auto simp: triple_def on_objects_def)

text \<open>A published manifest, and the objects around it.\<close>

definition published :: "'o parquet_lib \<Rightarrow> string \<Rightarrow> string \<Rightarrow> string \<Rightarrow> string \<Rightarrow> recovery_coverage \<Rightarrow> string \<Rightarrow> string list \<Rightarrow>
    (string, 'o) hmap \<Rightarrow> bool" where
  "published L base dataset key hour_key cov active stale m \<longleftrightarrow>
     (let man = recovery_manifest dataset key hour_key cov active stale; path = manifest_at base dataset key hour_key
      in (\<exists>j. hm_get m path = Some j \<and> manifest_from_json L j = Inr man) \<and> manifest_validate man = Inr () \<and>
         scope_ok (normal_dir base dataset hour_key) (hidden_dir base dataset hour_key) path man dataset key hour_key)"

definition same_but :: "string set \<Rightarrow> (string, 'o) hmap \<Rightarrow> (string, 'o) hmap \<Rightarrow> bool" where
  "same_but X m m' \<longleftrightarrow> hm_ok m' \<and> (\<forall>p. p \<notin> X \<longrightarrow> hm_get m' p = hm_get m p)"

lemma same_but_insert: "same_but X m m' \<Longrightarrow> same_but (insert p X) m (hm_insert p x m')"
  by (auto simp: same_but_def hm.get_put hm.ok_put)

lemma same_but_get: "same_but X m m' \<Longrightarrow> p \<notin> X \<Longrightarrow> hm_get m' p = hm_get m p"
  by (simp add: same_but_def)

lemma published_view:
  assumes "published L base dataset key hour_key cov active stale m"
    "path_parse L active = Inr active" "hm_get m active = Some buf"
    "\<And>p. p \<in> set (listed (normal_dir base dataset hour_key) key m) \<Longrightarrow> p \<in> set stale \<or> p = active"
  shows "view_objects L base dataset key hour_key m = Inr [buf]"
  using assms view_published by (metis published_def)

lemma published_cong:
  assumes "published L base dataset key hour_key cov active stale m"
    "hm_get m' (manifest_at base dataset key hour_key) = hm_get m (manifest_at base dataset key hour_key)"
  shows "published L base dataset key hour_key cov active stale m'"
  using assms by (simp add: published_def)

lemma object_scoped_shape:
  assumes "object_scoped (normal_dir base dataset hour_key) (hidden_dir base dataset hour_key) key p"
  obtains d x where "d = normal_dir base dataset hour_key \<or> d = hidden_dir base dataset hour_key"
    "p = d @ CHR ''/'' # x" "x \<noteq> []" "last p = CHR ''t''" "file_of_asset key p"
proof -
  obtain d where d: "d = normal_dir base dataset hour_key \<or> d = hidden_dir base dataset hour_key" "under_prefix p d"
    and named: "storage_object_file_matches_asset (last_segment p) key"
    using assms by (auto simp: object_scoped_def)
  from d(2) obtain c x where p: "p = d @ c # x" "c = CHR ''/''" "ends_with ''.parquet'' (c # x)"
    by (auto simp: under_prefix_def strip_prefix_Some split: option.splits list.splits)
  obtain y where y: "c # x = y @ ''.parquet''" using p(3) by (auto simp: ends_with_def strip_suffix_Some)
  have "x \<noteq> []" using y p(2) by (cases y) auto
  moreover have "last p = CHR ''t''" unfolding p(1) y by simp
  moreover have "file_of_asset key p" using named p by (simp add: file_of_asset_def path_filename_def)
  ultimately show thesis using d(1) p(1,2) that by blast
qed

lemma child_hd:
  assumes "hd base \<noteq> CHR ''/'' \<or> base = []" "plain d"
  shows "hd (child base (d @ x)) \<noteq> CHR ''/''" and "child base (d @ x) \<noteq> []"
  using assms plain_hd [OF assms(2)] by (auto simp: child_def hd_append)

lemma scoped_parse:
  assumes "path_laws L base" "site dataset hour_key"
    "object_scoped (normal_dir base dataset hour_key) (hidden_dir base dataset hour_key) key p" "path_parse L p = Inr q"
  shows "q = p"
proof -
  from object_scoped_shape [OF assms(3)] obtain d x where
    x: "d = normal_dir base dataset hour_key \<or> d = hidden_dir base dataset hour_key" "p = d @ CHR ''/'' # x" "last p = CHR ''t''"
    by metis
  have "hd base \<noteq> CHR ''/'' \<or> base = []" using assms(1) by (auto simp: path_laws_def)
  moreover have "plain dataset" using assms(2) by (simp add: site_def)
  ultimately have "hd d \<noteq> CHR ''/'' \<and> d \<noteq> []"
    using x(1) child_hd plain_hd plain_prefixes(2) unfolding normal_dir_def hidden_dir_def by auto
  then have "p \<noteq> [] \<and> hd p \<noteq> CHR ''/''" using x(2) by auto
  moreover have "last p \<noteq> CHR ''/''" unfolding x(3) by simp
  ultimately show ?thesis using assms(1,4) unfolding path_laws_def by blast
qed

lemma published_scoped:
  assumes "published L base dataset key hour_key cov active stale m" "p \<in> set (active # stale)"
  shows "object_scoped (normal_dir base dataset hour_key) (hidden_dir base dataset hour_key) key p"
  using assms by (auto simp: published_def Let_def scope_ok_def recovery_manifest_def list_all_iff)

lemma scoped_path:
  assumes "published L base dataset key hour_key cov active stale m" "p \<in> set (active # stale)" "site dataset hour_key"
  shows "p \<noteq> manifest_at base dataset key hour_key" and "file_of_asset key p"
  using object_scoped_shape [OF published_scoped [OF assms(1,2)]] manifest_apart [OF assms(3)] by metis+

lemma set_path_set [simp]: "set (path_set ps) = set ps"
  by (simp add: path_set_def)

lemma published_insert:
  assumes "manifest_json_ok L" "hm_ok m"
    "manifest_to_json L (recovery_manifest dataset key hour_key cov active stale) = Inr j"
    "manifest_validate (recovery_manifest dataset key hour_key cov active stale) = Inr ()"
    "scope_ok (normal_dir base dataset hour_key) (hidden_dir base dataset hour_key) (manifest_at base dataset key hour_key)
      (recovery_manifest dataset key hour_key cov active stale) dataset key hour_key"
  shows "published L base dataset key hour_key cov active stale (hm_insert (manifest_at base dataset key hour_key) j m)"
  using assms by (auto simp: published_def Let_def hm.get_put manifest_json_ok_def)

section \<open>All or nothing\<close>

text \<open>The outcome of a recovery: the new bytes are the view; when every deletion succeeded the new
  file is also the only file of the asset in the partition and nothing is left behind.\<close>

definition cleaned :: "string \<Rightarrow> string \<Rightarrow> string \<Rightarrow> string \<Rightarrow> string \<Rightarrow> (string, 'o) hmap \<Rightarrow> bool" where
  "cleaned base dataset key hour_key recovered m \<longleftrightarrow>
     listed (normal_dir base dataset hour_key) key m = [recovered] \<and>
     listed (hidden_dir base dataset hour_key) key m = []"

lemma distinct_listed: "hm_ok m \<Longrightarrow> distinct (listed dir key m)"
  by (simp add: listed_def hm_keys_def hm_ok_def)

lemma list_singleton: "distinct xs \<Longrightarrow> set xs = {x} \<Longrightarrow> xs = [x]"
  by (metis distinct.simps(2) distinct_singleton empty_set list.simps(15) sorted_list_of_set.idem_if_sorted_distinct
      card_distinct distinct_card is_singleton_altdef length_Suc_conv length_0_conv One_nat_def card.empty card.insert
      insert_absorb finite.emptyI empty_iff set_ConsD list.set_intros(1) singletonD singletonI)

lemma triple_point: "(\<And>m. I m \<Longrightarrow> triple (on_objects (\<lambda>m'. m' = m)) f Q E) \<Longrightarrow> triple (on_objects I) f Q E"
  unfolding triple_def on_objects_def by metis

lemma apart_under:
  assumes "site dataset hour_key"
  shows "\<not> under (normal_dir base dataset hour_key) (manifest_at base dataset key hour_key)"
    and "\<not> under (hidden_dir base dataset hour_key) (manifest_at base dataset key hour_key)"
    and "\<not> under (normal_dir base dataset hour_key) (hidden_dir base dataset hour_key @ CHR ''/'' # x)"
    and "\<not> under (hidden_dir base dataset hour_key) (normal_dir base dataset hour_key @ CHR ''/'' # x)"
  using manifest_apart [OF assms] normal_not_hidden [OF assms] unfolding under_iff by metis+

lemma group_step:
  assumes "path_laws L base" "site dataset hour_key" "K m0"
  shows "triple (on_objects (\<lambda>m. m = m0)) (group_objects L base dataset key hour_key)
      (\<lambda>xs. on_objects (\<lambda>m. m = m0 \<and> xs = listed (normal_dir base dataset hour_key) key m0)) (on_objects K)"
    and "triple (on_objects (\<lambda>m. m = m0)) (recovery_group_objects L base dataset key hour_key)
      (\<lambda>xs. on_objects (\<lambda>m. m = m0 \<and> xs = listed (hidden_dir base dataset hour_key) key m0)) (on_objects K)"
proof -
  have *: "triple (on_objects (\<lambda>m. m = m0)) (andthen (call StoreObject (store_list d)) (\<lambda>xs. ret (filter (file_of_asset key) xs)))
      (\<lambda>xs. on_objects (\<lambda>m. m = m0 \<and> xs = listed d key m0)) (on_objects K)" for d
    by (rule triple_andthen, rule triple_list [where I = "\<lambda>m. m = m0" and K = K])
      (use assms(3) in \<open>auto intro!: triple_ret simp: on_objects_def listed_def\<close>)
  show "triple (on_objects (\<lambda>m. m = m0)) (group_objects L base dataset key hour_key)
      (\<lambda>xs. on_objects (\<lambda>m. m = m0 \<and> xs = listed (normal_dir base dataset hour_key) key m0)) (on_objects K)"
    unfolding group_objects_def site_paths [OF assms(1,2)] andthen_ret by (rule *)
  show "triple (on_objects (\<lambda>m. m = m0)) (recovery_group_objects L base dataset key hour_key)
      (\<lambda>xs. on_objects (\<lambda>m. m = m0 \<and> xs = listed (hidden_dir base dataset hour_key) key m0)) (on_objects K)"
    unfolding recovery_group_objects_def site_paths [OF assms(1,2)] andthen_ret by (rule *)
qed

lemma file_paths:
  assumes "path_laws L base" "site dataset hour_key" "segment_ok named"
  shows "child_path L base (PARQUET_RECOVERY_OBJECT_PREFIX @ ''/'' @ dataset @ ''/'' @ hour_key @ ''/'' @ named) =
      ret (hidden_dir base dataset hour_key @ CHR ''/'' # named)"
    and "child_path L base (dataset @ ''/'' @ hour_key @ ''/'' @ named) = ret (normal_dir base dataset hour_key @ CHR ''/'' # named)"
    and "path_parse L (hidden_dir base dataset hour_key @ CHR ''/'' # named) = Inr (hidden_dir base dataset hour_key @ CHR ''/'' # named)"
    and "path_parse L (normal_dir base dataset hour_key @ CHR ''/'' # named) = Inr (normal_dir base dataset hour_key @ CHR ''/'' # named)"
proof -
  have pl: "plain dataset" "plain hour_key" "plain named" using assms(2) plain_segment [OF assms(3)] by (simp_all add: site_def)
  show "child_path L base (PARQUET_RECOVERY_OBJECT_PREFIX @ ''/'' @ dataset @ ''/'' @ hour_key @ ''/'' @ named) =
      ret (hidden_dir base dataset hour_key @ CHR ''/'' # named)"
    and "child_path L base (dataset @ ''/'' @ hour_key @ ''/'' @ named) = ret (normal_dir base dataset hour_key @ CHR ''/'' # named)"
    using assms(1) pl by (simp_all add: hidden_dir_def normal_dir_def child_append [symmetric])
  show "path_parse L (hidden_dir base dataset hour_key @ CHR ''/'' # named) = Inr (hidden_dir base dataset hour_key @ CHR ''/'' # named)"
    and "path_parse L (normal_dir base dataset hour_key @ CHR ''/'' # named) = Inr (normal_dir base dataset hour_key @ CHR ''/'' # named)"
    unfolding hidden_dir_def normal_dir_def child_append [symmetric] using pl by (auto intro!: path_parse_plain assms(1))
qed

lemma replace_group_step:
  fixes L :: "'o parquet_lib"
  assumes laws: "path_laws L base" "manifest_json_ok L" and site: "site dataset hour_key" and key: "key = storage_key_for a"
    and enc: "encode_group L rs = ret (buf, named)" and named: "segment_ok named"
    and ok: "hm_ok m0" and old: "view_objects L base dataset key hour_key m0 = Inr old"
    and fresh: "\<And>x. hm_get m0 (hidden_dir base dataset hour_key @ CHR ''/'' # named) = Some x \<Longrightarrow> x = buf"
  defines "view \<equiv> view_objects L base dataset key hour_key"
  shows "triple (on_objects (\<lambda>m. m = m0)) (replace_group L base dataset key hour_key rs cov)
    (\<lambda>n. on_objects (\<lambda>m. view m = Inr [buf] \<and>
      (n = 0 \<longrightarrow> cleaned base dataset key hour_key (normal_dir base dataset hour_key @ CHR ''/'' # named) m)))
    (on_objects (\<lambda>m. view m = Inr old \<or> view m = Inr [buf]))"
proof -
  let ?N = "normal_dir base dataset hour_key" and ?H = "hidden_dir base dataset hour_key" and ?M = "manifest_at base dataset key hour_key"
  let ?staged = "?H @ CHR ''/'' # named" and ?rec = "?N @ CHR ''/'' # named"
  let ?K = "\<lambda>m. view m = Inr old \<or> view m = Inr [buf]"
  note paths = file_paths(1,2) [OF laws(1) site named] and parse = file_paths(3,4) [OF laws(1) site named]
  have apart: "?M \<noteq> ?staged" "?M \<noteq> ?rec" "?rec \<noteq> ?staged"
    using manifest_apart [OF site] normal_not_hidden [OF site] by metis+
  have K0: "?K m0" using old by (simp add: view_def)
  define existing where "existing = listed ?N key m0"
  define abandoned where "abandoned = listed ?H key m0"
  define J1 where "J1 = (\<lambda>m. same_but {?staged} m0 m \<and> hm_get m ?staged = Some buf)"
  define J2 where "J2 = (\<lambda>stale m. same_but {?staged, ?M} m0 m \<and> hm_get m ?staged = Some buf \<and>
      published L base dataset key hour_key cov ?staged stale m)"
  define J3 where "J3 = (\<lambda>stale m. same_but {?staged, ?rec, ?M} m0 m \<and> hm_get m ?staged = Some buf \<and> hm_get m ?rec = Some buf \<and>
      published L base dataset key hour_key cov ?staged stale m)"
  define J4 where "J4 = (\<lambda>stale m. same_but {?staged, ?rec, ?M} m0 m \<and> hm_get m ?rec = Some buf \<and>
      published L base dataset key hour_key cov ?rec stale m)"
  have listed_N: "p \<in> set existing \<or> p = ?rec" if "same_but {?staged, ?rec, ?M} m0 m" "p \<in> set (listed ?N key m)" for m p
  proof -
    have "p \<noteq> ?staged" "p \<noteq> ?M"
      using that(2) normal_not_hidden [OF site] manifest_apart(1) [OF site] by (auto simp: listed_mem under_iff) metis+
    with that show ?thesis by (auto simp: listed_mem existing_def same_but_def)
  qed
  have weaken: "same_but X m0 m \<Longrightarrow> X \<subseteq> Y \<Longrightarrow> same_but Y m0 m" for X Y m
    by (auto simp: same_but_def)
  have K1: "?K m" if "J1 m" for m
  proof -
    have "view m = Inr old"
      unfolding view_def
    proof (rule view_same [OF old])
      show "hm_get m ?M = hm_get m0 ?M" using that apart(1) by (auto simp: J1_def same_but_def)
      have "hm_get m p = hm_get m0 p" if "under ?N p" for p
        using that \<open>J1 m\<close> normal_not_hidden [OF site] by (auto simp: J1_def same_but_def under_iff)
      then show "set (listed ?N key m) = set (listed ?N key m0)" by (auto simp: listed_mem)
      show "hm_get m p = Some x" if "hm_get m0 p = Some x" for p x
        using that \<open>J1 m\<close> fresh by (cases "p = ?staged") (auto simp: J1_def same_but_def)
    qed
    then show ?thesis ..
  qed
  define J5 where "J5 = (\<lambda>stale m. \<exists>m4. J4 stale m4 \<and> shrunk (set stale) m4 m)"
  have ok1: "hm_ok m" if "J1 m" for m using that by (simp add: J1_def same_but_def)
  have view_new: "view m = Inr [buf]"
    if "same_but {?staged, ?rec, ?M} m0 m" "published L base dataset key hour_key cov act stale m"
      "path_parse L act = Inr act" "hm_get m act = Some buf" "set existing \<subseteq> set stale \<union> {act}" "?rec \<in> set stale \<union> {act}"
    for m act stale
    unfolding view_def by (rule published_view [OF that(2-4)]) (use listed_N [OF that(1)] that(5,6) in blast)
  let ?st1 = "\<lambda>sup. path_set (removeAll ?staged (?rec # existing @ abandoned @ sup))"
  let ?st2 = "\<lambda>sup. path_set (removeAll ?rec (?staged # existing @ abandoned @ sup))"
  have staged_new: "p \<noteq> ?staged" if "p \<in> set existing" for p
    using that normal_not_hidden [OF site] by (auto simp: existing_def listed_mem under_iff)
  have K2: "?K m" if "J2 (?st1 sup) m" for m sup
    using that view_new [of m ?staged "?st1 sup"] weaken [of "{?staged, ?M}" m "{?staged, ?rec, ?M}"] parse staged_new apart
    by (auto simp: J2_def)
  have K3: "?K m" if "J3 (?st1 sup) m" for m sup
    using that view_new [of m ?staged "?st1 sup"] parse staged_new apart by (auto simp: J3_def)
  have rec_kept: "?rec \<notin> set (?st2 sup)" for sup by (simp del: removeAll.simps)
  have view5: "view m = Inr [buf]" if J5: "J5 (?st2 sup) m" for m sup
  proof -
    obtain m4 where m4: "J4 (?st2 sup) m4" "shrunk (set (?st2 sup)) m4 m" using J5 by (auto simp: J5_def)
    let ?stale = "?st2 sup"
    have pubd: "published L base dataset key hour_key cov ?rec ?stale m4" and at: "hm_get m4 ?rec = Some buf"
      and sb: "same_but {?staged, ?rec, ?M} m0 m4" using m4(1) by (auto simp: J4_def)
    have "?M \<notin> set ?stale" using scoped_path(1) [OF pubd _ site] by (metis list.set_intros(2))
    then have "hm_get m ?M = hm_get m4 ?M" using m4(2) unfolding shrunk_def by blast
    from published_cong [OF pubd this] have pub: "published L base dataset key hour_key cov ?rec ?stale m" .
    have "hm_get m ?rec = Some buf" using m4(2) at rec_kept [of sup] unfolding shrunk_def by metis
    moreover have "p \<in> set ?stale \<or> p = ?rec" if "p \<in> set (listed ?N key m)" for p
    proof -
      have "p \<in> set (listed ?N key m4)" using that m4(2) unfolding listed_mem shrunk_def by metis
      from listed_N [OF sb this] show ?thesis by auto
    qed
    ultimately show ?thesis unfolding view_def by (intro published_view [OF pub parse(2)])
  qed
  have view4: "view m = Inr [buf]" if "J4 (?st2 sup) m" for m sup
    using view5 [of sup m] that shrunk_refl [of m "set (?st2 sup)"] by (auto simp: J5_def J4_def same_but_def)
  have put1: "triple (on_objects (\<lambda>m. m = m0)) (put_checked L w ?staged buf) (\<lambda>_. on_objects J1) (on_objects ?K)" for w
    by (rule put_checked_step) (use K0 K1 ok in \<open>auto simp: J1_def same_but_def hm.get_put hm.ok_put\<close>)
  have pub1: "triple (on_objects J1)
      (publish_recovery_manifest L base ?M (recovery_manifest dataset key hour_key cov ?staged stale) dataset key hour_key)
      (\<lambda>_. on_objects (J2 stale)) (on_objects ?K)" if "stale = ?st1 sup" for stale sup
    unfolding that
  proof (rule publish_step [OF laws(1) site K1])
    show "?K m" if "J2 (?st1 sup) m" for m using that by (rule K2)
    show "J2 (?st1 sup) (hm_insert ?M j m)" if "J1 m" 
      "manifest_to_json L (recovery_manifest dataset key hour_key cov ?staged (?st1 sup)) = Inr j"
      "manifest_validate (recovery_manifest dataset key hour_key cov ?staged (?st1 sup)) = Inr ()"
      "scope_ok ?N ?H ?M (recovery_manifest dataset key hour_key cov ?staged (?st1 sup)) dataset key hour_key" for m j
      using that published_insert [OF laws(2) ok1 [OF that(1)] that(2-4)] apart unfolding J2_def J1_def
      by (auto simp: same_but_def hm.get_put hm.ok_put)
  qed simp
  have put2: "triple (on_objects (J2 stale)) (put_checked L w ?rec buf) (\<lambda>_. on_objects (J3 stale)) (on_objects ?K)"
    if "stale = ?st1 sup" for w stale sup
    unfolding that
  proof (rule put_checked_step)
    show "?K m" if "J2 (?st1 sup) m" for m using that by (rule K2)
    show "?K m" if "J3 (?st1 sup) m" for m using that by (rule K3)
    show "J3 (?st1 sup) (hm_insert ?rec buf m)" if J2: "J2 (?st1 sup) m" for m
    proof -
      have ok2: "hm_ok m" using J2 by (simp add: J2_def same_but_def)
      have "hm_get (hm_insert ?rec buf m) ?M = hm_get m ?M" using ok2 apart by (simp add: hm.get_put)
      from published_cong [OF _ this] J2 show ?thesis
        using ok2 apart unfolding J2_def J3_def by (auto simp: same_but_def hm.get_put hm.ok_put)
    qed
  qed
  have pub2: "triple (on_objects (J3 (?st1 sup)))
      (publish_recovery_manifest L base ?M (recovery_manifest dataset key hour_key cov ?rec stale) dataset key hour_key)
      (\<lambda>_. on_objects (J4 stale)) (on_objects ?K)" if "stale = ?st2 sup" for stale sup
    unfolding that
  proof (rule publish_step [OF laws(1) site])
    show "?K m" if "J3 (?st1 sup) m" for m using that by (rule K3)
    show "?K m" if "J4 (?st2 sup) m" for m using view4 [OF that] by simp
    show "J4 (?st2 sup) (hm_insert ?M j m)" if J3: "J3 (?st1 sup) m" and man:
      "manifest_to_json L (recovery_manifest dataset key hour_key cov ?rec (?st2 sup)) = Inr j"
      "manifest_validate (recovery_manifest dataset key hour_key cov ?rec (?st2 sup)) = Inr ()"
      "scope_ok ?N ?H ?M (recovery_manifest dataset key hour_key cov ?rec (?st2 sup)) dataset key hour_key" for m j
    proof -
      have ok3: "hm_ok m" using J3 by (simp add: J3_def same_but_def)
      from published_insert [OF laws(2) this man] show ?thesis
        using J3 ok3 apart unfolding J3_def J4_def by (auto simp: same_but_def hm.get_put hm.ok_put)
    qed
  qed
  have del: "triple (on_objects (J4 stale)) (for_each stale (delete_stale L))
      (\<lambda>ns. on_objects (\<lambda>m. view m = Inr [buf] \<and> (sum_list ns = 0 \<longrightarrow> cleaned base dataset key hour_key ?rec m)))
      (on_objects ?K)" if "stale = ?st2 sup" for stale sup
    unfolding that
  proof (rule triple_point)
    fix m4 assume J4: "J4 (?st2 sup) m4"
    let ?stale = "?st2 sup"
    have ok4: "hm_ok m4" and pubd: "published L base dataset key hour_key cov ?rec ?stale m4"
      and sb: "same_but {?staged, ?rec, ?M} m0 m4" and at: "hm_get m4 ?rec = Some buf"
      using J4 by (auto simp: J4_def same_but_def)
    have "triple (on_objects (\<lambda>m'. shrunk (set ?stale) m4 m' \<and> (\<forall>q\<in>{}. hm_get m' q = None)))
      (for_each ?stale (delete_stale L))
      (\<lambda>ns. on_objects (\<lambda>m'. shrunk (set ?stale) m4 m' \<and> (sum_list ns = 0 \<longrightarrow> (\<forall>q\<in>{} \<union> set ?stale. hm_get m' q = None))))
      (on_objects ?K)"
    proof (rule delete_loop)
      show "q = p" if "p \<in> set ?stale" "path_parse L p = Inr q" for p q
        by (rule scoped_parse [OF laws(1) site published_scoped [OF pubd] that(2)]) (use that(1) in simp)
      show "?K m'" if "shrunk (set ?stale) m4 m'" for m' using view5 [of sup m'] J4 that by (auto simp: J5_def)
    qed simp
    moreover have "cleaned base dataset key hour_key ?rec m'"
      if sh: "shrunk (set ?stale) m4 m'" and gone: "\<forall>q\<in>set ?stale. hm_get m' q = None" for m'
      unfolding cleaned_def
    proof
      have left: "p = ?rec \<or> p = ?M" if "hm_get m' p \<noteq> None" "p \<in> set existing \<union> set abandoned \<union> {?staged}" for p
      proof (rule ccontr)
        assume "\<not> (p = ?rec \<or> p = ?M)"
        with that(2) have "p \<in> set ?stale" unfolding set_path_set set_removeAll by auto
        with gone have "hm_get m' p = None" by (rule bspec)
        with that(1) show False by simp
      qed
      have kept: "hm_get m' ?rec = Some buf" using sh at rec_kept [of sup] unfolding shrunk_def by metis
      have came: "hm_get m4 p \<noteq> None" if "hm_get m' p \<noteq> None" for p using that sh unfolding shrunk_def by metis
      have "set (listed ?N key m') = {?rec}"
      proof
        have "p = ?rec" if p: "p \<in> set (listed ?N key m')" for p
        proof -
          have "p \<in> set (listed ?N key m4)" using p came by (auto simp: listed_mem)
          from listed_N [OF sb this] show ?thesis
            using left [of p] p apart_under(1) [OF site] by (auto simp: listed_mem)
        qed
        then show "set (listed ?N key m') \<subseteq> {?rec}" by auto
        have "file_of_asset key ?rec" using scoped_path(2) [OF pubd _ site] by simp
        moreover have "under ?N ?rec" using named by (simp add: under_iff segment_ok_def)
        ultimately show "{?rec} \<subseteq> set (listed ?N key m')" using kept by (simp add: listed_mem)
      qed
      moreover have "distinct (listed ?N key m')" using sh by (simp add: shrunk_def distinct_listed)
      ultimately show "listed ?N key m' = [?rec]" by (rule list_singleton [rotated])
      have "p \<notin> set (listed ?H key m')" for p
      proof
        assume p: "p \<in> set (listed ?H key m')"
        then have "p \<noteq> ?rec" "p \<noteq> ?M"
          using apart_under [OF site] by (auto simp: listed_mem)
        moreover have "p \<in> set abandoned \<union> {?staged}"
          using p came [of p] sb \<open>p \<noteq> ?rec\<close> \<open>p \<noteq> ?M\<close> by (auto simp: listed_mem abandoned_def same_but_def)
        ultimately show False using left [of p] p by (auto simp: listed_mem)
      qed
      then show "listed ?H key m' = []" by (cases "listed ?H key m'") auto
    qed
    moreover have "view m' = Inr [buf]" if "shrunk (set ?stale) m4 m'" for m'
      using view5 [of sup m'] J4 that by (auto simp: J5_def)
    ultimately show "triple (on_objects (\<lambda>m'. m' = m4)) (for_each ?stale (delete_stale L))
      (\<lambda>ns. on_objects (\<lambda>m. view m = Inr [buf] \<and> (sum_list ns = 0 \<longrightarrow> cleaned base dataset key hour_key ?rec m))) (on_objects ?K)"
      using shrunk_refl [OF ok4] by (elim triple_pre [OF triple_post]) (auto simp: on_objects_def)
  qed
  have publish_rest: "triple (on_objects (\<lambda>m. m = m0))
      (andthen (put_checked L ''staged'' ?staged buf) (\<lambda>_.
       andthen (publish_recovery_manifest L base ?M (recovery_manifest dataset key hour_key cov ?staged (?st1 sup)) dataset key hour_key) (\<lambda>_.
       andthen (put_checked L ''promoted'' ?rec buf) (\<lambda>_.
       andthen (publish_recovery_manifest L base ?M (recovery_manifest dataset key hour_key cov ?rec (?st2 sup)) dataset key hour_key) (\<lambda>_.
       andthen (for_each (?st2 sup) (delete_stale L)) (\<lambda>failures. ret (sum_list failures)))))))
      (\<lambda>n. on_objects (\<lambda>m. view m = Inr [buf] \<and> (n = 0 \<longrightarrow> cleaned base dataset key hour_key ?rec m))) (on_objects ?K)" for sup
    by (rule triple_andthen [OF put1 triple_andthen [OF pub1 [OF refl] triple_andthen [OF put2 [OF refl]
          triple_andthen [OF pub2 [OF refl] triple_andthen [OF del [OF refl] triple_ret]]]]])
  show ?thesis
    unfolding replace_group_def key site_paths [OF laws(1) site] andthen_ret enc prod.case paths Let_def
    unfolding key [symmetric]
    apply (rule triple_andthen [OF group_step(1) [OF laws(1) site, where K = ?K, OF K0]])
    apply (rule triple_fact)
    apply (rule triple_andthen [OF group_step(2) [OF laws(1) site, where K = ?K, OF K0]])
    apply (rule triple_fact)
    apply (rule triple_andthen)
     apply (rule triple_post [where Q' = "\<lambda>_. on_objects (\<lambda>m. m = m0)",
          OF read_manifest_keeps [OF laws(1) site, where I = "\<lambda>m. m = m0"]])
      apply (use K0 in \<open>simp_all add: on_objects_def\<close>)[2]
    by (hypsubst, unfold existing_def [symmetric] abandoned_def [symmetric], rule publish_rest)
qed

section \<open>The recovery of a partition\<close>

text \<open>Paths a replacement may touch: the manifest of the partition, and the files of the asset in
  the partition and its hidden twin.\<close>

definition in_scope :: "string \<Rightarrow> string \<Rightarrow> string \<Rightarrow> string \<Rightarrow> string \<Rightarrow> bool" where
  "in_scope base dataset key hour_key p \<longleftrightarrow>
     p = manifest_at base dataset key hour_key \<or>
     (under (normal_dir base dataset hour_key) p \<or> under (hidden_dir base dataset hour_key) p) \<and> file_of_asset key p"

definition outside_same :: "(string \<Rightarrow> bool) \<Rightarrow> (string, 'o) hmap \<Rightarrow> (string, 'o) hmap \<Rightarrow> bool" where
  "outside_same X m m' \<longleftrightarrow> hm_ok m' \<and> (\<forall>p. X p \<or> hm_get m' p = hm_get m p)"

lemma outside_insert: "outside_same X m m' \<Longrightarrow> X p \<Longrightarrow> outside_same X m (hm_insert p x m')"
  by (auto simp: outside_same_def hm.get_put hm.ok_put)

lemma outside_remove: "outside_same X m m' \<Longrightarrow> X p \<Longrightarrow> outside_same X m (hm_remove p m')"
  by (auto simp: outside_same_def hm.get_del hm.ok_del)

lemma object_scoped_in_scope:
  "object_scoped (normal_dir base dataset hour_key) (hidden_dir base dataset hour_key) key p \<Longrightarrow> in_scope base dataset key hour_key p"
  by (erule object_scoped_shape) (auto simp: in_scope_def under_iff)

lemma encode_named:
  assumes "encode_group L rs = ret (buf, named)"
  obtains r ts h n where "rs = r # tl rs" "named = parquet_file_name (storage_key_for (asset_partition r)) ts h n"
proof -
  obtain r rs' where rs: "rs = r # rs'" using fun_cong [OF assms, of undefined]
    by (cases rs) (auto simp: encode_group_def panic_def ret_def)
  moreover have "\<exists>ts h n. named = parquet_file_name (storage_key_for (asset_partition r)) ts h n"
    using fun_cong [OF assms, of undefined] unfolding rs encode_group_def
    by (auto simp: andthen_def of_result_def ret_def stop_def split: sum.splits)
  ultimately show thesis using that by auto
qed

lemma named_in_scope:
  assumes "encode_group L rs = ret (buf, named)" "asset_partition (hd rs) = a" "a \<noteq> []"
    "d = normal_dir base dataset hour_key \<or> d = hidden_dir base dataset hour_key"
  shows "in_scope base dataset (storage_key_for a) hour_key (d @ CHR ''/'' # named)"
proof -
  obtain ts h n where n: "named = parquet_file_name (storage_key_for a) ts h n"
    using encode_named [OF assms(1)] assms(2) by (metis list.sel(1))
  then have seg: "segment_ok named" using segment_file by simp
  have "last_segment (d @ CHR ''/'' # named) = named"
    by (rule last_segment_append) (rule segment_no_slash [OF seg])
  moreover have "storage_object_file_matches_asset named (storage_key_for a)"
    using parquet_file_name_key [of "storage_key_for a"] component_matches_key assms(3) n
    by (simp add: storage_object_file_matches_asset_def)
  ultimately have "file_of_asset (storage_key_for a) (d @ CHR ''/'' # named)"
    by (simp add: file_of_asset_def path_filename_def)
  with assms(4) seg show ?thesis
    by (auto simp: in_scope_def under_iff segment_ok_def)
qed

lemma replace_group_frame:
  fixes L :: "'o parquet_lib"
  assumes laws: "path_laws L base" and site: "site dataset hour_key" and key: "key = storage_key_for a"
    and enc: "encode_group L rs = ret (buf, named)" and asset: "asset_partition (hd rs) = a" "a \<noteq> []" and ok: "hm_ok m0"
  defines "I \<equiv> outside_same (in_scope base dataset key hour_key) m0"
  shows "triple (on_objects (\<lambda>m. m = m0)) (replace_group L base dataset key hour_key rs cov) (\<lambda>_. on_objects I) (on_objects I)"
proof -
  let ?N = "normal_dir base dataset hour_key" and ?H = "hidden_dir base dataset hour_key" and ?M = "manifest_at base dataset key hour_key"
  let ?staged = "?H @ CHR ''/'' # named" and ?rec = "?N @ CHR ''/'' # named"
  have named: "segment_ok named" using encode_named [OF enc] segment_file by metis
  have here: "in_scope base dataset key hour_key ?staged" "in_scope base dataset key hour_key ?rec"
    "in_scope base dataset key hour_key ?M"
    using named_in_scope [OF enc asset] by (simp_all add: key in_scope_def)
  have put: "triple (on_objects I) (put_checked L w p buf) (\<lambda>_. on_objects I) (on_objects I)"
    if "p = ?staged \<or> p = ?rec" for w p
    by (rule put_checked_step) (use that here in \<open>auto simp: I_def outside_insert\<close>)
  have publish: "triple (on_objects I) (publish_recovery_manifest L base ?M man dataset key hour_key)
      (\<lambda>_. on_objects (\<lambda>m. I m \<and> scope_ok ?N ?H ?M man dataset key hour_key)) (on_objects I)" for man
    by (rule publish_step [OF laws site]) (use here in \<open>auto simp: I_def outside_insert\<close>)
  have del: "triple (on_objects (\<lambda>m. I m \<and> scope_ok ?N ?H ?M (recovery_manifest dataset key hour_key cov act stale) dataset key hour_key))
      (for_each stale (delete_stale L)) (\<lambda>_. on_objects I) (on_objects I)" for act stale
  proof (rule triple_fact, rule triple_point)
    fix m assume I: "I m" and sc: "scope_ok ?N ?H ?M (recovery_manifest dataset key hour_key cov act stale) dataset key hour_key"
    have scoped: "object_scoped ?N ?H key p" if "p \<in> set stale" for p
      using sc that by (auto simp: scope_ok_def recovery_manifest_def list_all_iff)
    have kept: "I m'" if "shrunk (set stale) m m'" for m'
      using that I object_scoped_in_scope [OF scoped] unfolding I_def outside_same_def shrunk_def by metis
    have "triple (on_objects (\<lambda>m'. shrunk (set stale) m m' \<and> (\<forall>q\<in>{}. hm_get m' q = None))) (for_each stale (delete_stale L))
      (\<lambda>ns. on_objects (\<lambda>m'. shrunk (set stale) m m' \<and> (sum_list ns = 0 \<longrightarrow> (\<forall>q\<in>{} \<union> set stale. hm_get m' q = None)))) (on_objects I)"
      by (rule delete_loop) (use scoped_parse [OF laws site scoped] kept in auto)
    then show "triple (on_objects (\<lambda>m'. m' = m)) (for_each stale (delete_stale L)) (\<lambda>_. on_objects I) (on_objects I)"
      using shrunk_refl I kept
      by (elim triple_pre [OF triple_post]) (auto simp: on_objects_def I_def outside_same_def)
  qed
  have I0: "I m0" using ok by (simp add: I_def outside_same_def)
  have unscoped: "triple (on_objects (\<lambda>m. I m \<and> F)) f Q E" if "triple (on_objects I) f Q E" for F and f :: "('o, store_error, 'x) prog" and Q E
    by (rule triple_pre [OF that]) (simp add: on_objects_def)
  note paths = file_paths(1,2) [OF laws(1) site named]
  have rest: "triple (on_objects I)
      (andthen (put_checked L ''staged'' ?staged buf) (\<lambda>_.
       andthen (publish_recovery_manifest L base ?M man1 dataset key hour_key) (\<lambda>_.
       andthen (put_checked L ''promoted'' ?rec buf) (\<lambda>_.
       andthen (publish_recovery_manifest L base ?M (recovery_manifest dataset key hour_key cov ?rec stale) dataset key hour_key) (\<lambda>_.
       andthen (for_each stale (delete_stale L)) (\<lambda>failures. ret (sum_list failures)))))))
      (\<lambda>_. on_objects I) (on_objects I)" for man1 stale
    by (rule triple_andthen [OF put triple_andthen [OF publish unscoped [OF triple_andthen [OF put
          triple_andthen [OF publish triple_andthen [OF del triple_ret]]]]]]) simp_all
  have listing: "triple (on_objects I) (group_objects L base dataset key hour_key) (\<lambda>_. on_objects I) (on_objects I)"
    "triple (on_objects I) (recovery_group_objects L base dataset key hour_key) (\<lambda>_. on_objects I) (on_objects I)"
    unfolding group_objects_def recovery_group_objects_def site_paths [OF laws(1) site] andthen_ret
    by (rule triple_andthen [OF triple_list [where I = I and K = I]]; auto intro!: triple_ret simp: on_objects_def)+
  have "triple (on_objects I) (replace_group L base dataset key hour_key rs cov) (\<lambda>_. on_objects I) (on_objects I)"
    unfolding replace_group_def key site_paths [OF laws(1) site] andthen_ret enc prod.case paths Let_def
    unfolding key [symmetric]
    by (rule triple_andthen [OF listing(1) triple_andthen [OF listing(2) triple_andthen [OF read_manifest_keeps [OF laws site]]]])
      (rule rest)
  then show ?thesis by (rule triple_pre) (simp add: on_objects_def I0)
qed

section \<open>Properties\<close>

text \<open>
  C9. A recovery is all or nothing for its readers. Whatever store calls of \<open>replace_group\<close> fail,
  are lost or are cut off by a crash, a reader of the partition sees afterwards exactly the objects it
  saw before, or exactly the recovered file; when the call returns it is the recovered file, and when
  moreover every deletion succeeded, that file is the only one of the asset in the partition and its
  hidden twin. (The staged name holds a hash of its bytes: an object already there has these bytes.)
\<close>

theorem recovery_all_or_nothing:
  assumes "path_laws (re_lib R) (re_base R)" "manifest_json_ok (re_lib R)" "site dataset hour_key" "hm_ok (st_objects st)"
    and "encode_group (re_lib R) rs = ret (buf, named)" and "hour_view R dataset a hour_key st = Inr old"
    and "hm_get (st_objects st) (hidden_dir (re_base R) dataset hour_key @ ''/'' @ named) \<in> {None, Some buf}"
  shows "case replace_group (re_lib R) (re_base R) dataset (storage_key_for a) hour_key rs cov st of
      (st', Inl _) \<Rightarrow> hour_view R dataset a hour_key st' \<in> {Inr old, Inr [buf]}
    | (st', Inr failures) \<Rightarrow> hour_view R dataset a hour_key st' = Inr [buf] \<and>
        (failures \<noteq> 0 \<or> cleaned (re_base R) dataset (storage_key_for a) hour_key
          (normal_dir (re_base R) dataset hour_key @ ''/'' @ named) (st_objects st'))"
proof -
  note view = hour_view_objects [OF assms(1,3), of a]
  have seg: "segment_ok named" using encode_named [OF assms(5)] segment_file by metis
  have old: "view_objects (re_lib R) (re_base R) dataset (storage_key_for a) hour_key (st_objects st) = Inr old"
    using assms(6) unfolding view
    by (cases "view_objects (re_lib R) (re_base R) dataset (storage_key_for a) hour_key (st_objects st)") simp_all
  note triple = replace_group_step [OF assms(1-3) refl assms(5) seg assms(4) old, of cov]
  show ?thesis
    using triple assms(7) unfolding view triple_def on_objects_def
    by (fastforce split: prod.splits sum.splits)
qed


section \<open>A concrete store\<close>

lemma demo_manifest_json [simp]: "manifest_json_ok demo_lib"
  by (auto simp: manifest_json_ok_def demo_lib_def)

definition demo_batch :: record_batch where
  "demo_batch = \<lparr> rb_schema = schema_for_record (Book (sample_event Snapshot Bid 4000 5 20 0 0 3)), rb_columns = [], rb_rows = 0 \<rparr>"

definition demo_file :: string where
  "demo_file = ''data/book_events/1970/01/01/00/a_5_0000000000000000_9.parquet''"

text \<open>The store before the recovery; the sixth call is refused, after the staged object is published.\<close>

definition demo_store :: "demo_object store" where
  "demo_store = \<lparr> st_objects = [(demo_file, Stored (Some ''2'') demo_batch)], st_fates = replicate 7 Done @ [Refused ''timeout''] \<rparr>"

lemma demo_view: "hour_view demo_reader ''book_events'' ''a'' ''1970/01/01/00'' demo_store = Inr [Stored (Some ''2'') demo_batch]"
  by code_simp

lemma demo_site: "site ''book_events'' ''1970/01/01/00''"
  by code_simp

lemma demo_ok: "hm_ok (st_objects demo_store)"
  by (simp add: demo_store_def hm_ok_def)

lemma demo_fresh: "hm_get (st_objects demo_store) (hidden_dir ''data'' ''book_events'' ''1970/01/01/00'' @ ''/'' @ named) = None"
  by (simp add: demo_store_def hm_get_def demo_file_def hidden_dir_def child_def PARQUET_RECOVERY_OBJECT_PREFIX_def)

text \<open>In the sample run a call after the first publication is refused.\<close>

theorem recovery_all_or_nothing_witness:
  "\<exists>buf. case replace_group demo_lib ''data'' ''book_events'' (storage_key_for ''a'') ''1970/01/01/00'' demo_records
        \<lparr> cov_start_us = 0, cov_end_us = 3600000000 \<rparr> demo_store of
      (st', Inl _) \<Rightarrow> hour_view demo_reader ''book_events'' ''a'' ''1970/01/01/00'' st' \<in> {Inr [Stored (Some ''2'') demo_batch], Inr [buf]}
    | (st', Inr failures) \<Rightarrow> hour_view demo_reader ''book_events'' ''a'' ''1970/01/01/00'' st' = Inr [buf]"
proof -
  obtain b where b: "encode_group demo_lib demo_records = ret (Stored (Some ''2'') b, ''a_20_0000000000000007_1.parquet'')"
    using demo_encode by blast
  have lib: "re_lib demo_reader = demo_lib" "re_base demo_reader = ''data''" by (simp_all add: demo_reader_def)
  show ?thesis
    using recovery_all_or_nothing [of demo_reader "''book_events''" "''1970/01/01/00''" demo_store demo_records "Stored (Some ''2'') b" _ "''a''",
        unfolded lib, OF demo_path_laws demo_manifest_json demo_site demo_ok b demo_view,
        of "\<lparr> cov_start_us = 0, cov_end_us = 3600000000 \<rparr>"] demo_fresh
    by (intro exI [of _ "Stored (Some ''2'') b"]) (auto split: prod.splits sum.splits)
qed


end
