(* ===== verification/StoreWrite.thy ===== *)
theory StoreWrite
  imports StorePaths
begin

text \<open>
  What a write leaves in the store. The files of a batch are a function of the batch alone: one
  for each dataset, asset and hour, at a path of its own. A write that returns has put exactly
  these; one that fails has put some of them, whole; and running it again completes it.
\<close>

section \<open>Groups\<close>

definition batch_groups :: "calendar \<Rightarrow> persisted_record list \<Rightarrow> (group_id, persisted_record list) btree" where
  "batch_groups C rs = fold (\<lambda>r. push_group (group_key C r) r) rs bt_empty"

definition group_of :: "calendar \<Rightarrow> persisted_record list \<Rightarrow> group_id \<Rightarrow> persisted_record list" where
  "group_of C rs k = filter (\<lambda>r. group_key C r = k) rs"

lemma push_groups_get:
  assumes "bt_ok g"
  shows "bt_ok (fold (\<lambda>r. push_group (group_key C r) r) rs g) \<and>
    bt_get (fold (\<lambda>r. push_group (group_key C r) r) rs g) k =
      (if group_of C rs k = [] then bt_get g k
       else Some ((case bt_get g k of None \<Rightarrow> [] | Some xs \<Rightarrow> xs) @ group_of C rs k))"
  using assms
proof (induction rs arbitrary: g)
  case (Cons r rs)
  have ok: "bt_ok (push_group (group_key C r) r g)"
    using Cons.prems by (simp add: push_group_def bt.ok_put)
  show ?case
    using Cons.IH [OF ok] Cons.prems
    by (auto simp: push_group_def bt.get_put group_of_def split: option.splits)
qed (simp add: group_of_def)

lemma batch_groups_ok [simp]: "bt_ok (batch_groups C rs)"
  using push_groups_get by (simp add: batch_groups_def)

lemma batch_groups_get:
  "bt_get (batch_groups C rs) k = (if group_of C rs k = [] then None else Some (group_of C rs k))"
  using push_groups_get [of bt_empty C rs k] by (simp add: batch_groups_def) (simp add: bt_get_def bt_empty_def)

lemma bt_entry: "bt_ok m \<Longrightarrow> (k, v) \<in> set m \<longleftrightarrow> bt_get m k = Some v"
  by (rule bt.entries_get)

lemma batch_groups_mem:
  "(k, g) \<in> set (batch_groups C rs) \<longleftrightarrow> g = group_of C rs k \<and> g \<noteq> []"
  by (auto simp: bt_entry batch_groups_get)

lemma group_of_mem: "r \<in> set (group_of C rs k) \<longleftrightarrow> r \<in> set rs \<and> group_key C r = k"
  by (simp add: group_of_def)

lemma batch_groups_distinct: "distinct (map fst (batch_groups C rs))"
  by (rule bt.entries_distinct) simp

section \<open>Files\<close>

definition encoded :: "'o parquet_lib \<Rightarrow> persisted_record list \<Rightarrow> store_error stop + 'o \<times> string" where
  "encoded L rs = snd (encode_group L rs \<lparr> st_objects = [], st_fates = [] \<rparr>)"

lemma encode_pure: "encode_group L rs st = (st, encoded L rs)"
  by (cases rs; cases "records_to_record_batch (pq_arrow L) rs")
    (auto simp: encoded_def encode_group_def panic_def andthen_def of_result_def ret_def stop_def split: sum.splits)

lemma encode_result: "encode_group L rs = (case encoded L rs of Inl e \<Rightarrow> (\<lambda>st. (st, Inl e)) | Inr x \<Rightarrow> ret x)"
  by (rule ext) (simp add: encode_pure ret_def split: sum.split)

lemma encoded_named:
  assumes "encoded L rs = Inr (buf, named)"
  obtains r ts h n where "rs = r # tl rs" "named = parquet_file_name (storage_key_for (asset_partition r)) ts h n"
proof -
  obtain r rs' where rs: "rs = r # rs'" using assms
    by (cases rs) (auto simp: encoded_def encode_group_def panic_def)
  moreover have "\<exists>ts h n. named = parquet_file_name (storage_key_for (asset_partition r)) ts h n"
    using assms unfolding rs encoded_def encode_group_def
    by (auto simp: andthen_def of_result_def ret_def stop_def split: sum.splits)
  ultimately show thesis using that by auto
qed

definition group_dir :: "string \<Rightarrow> group_id \<Rightarrow> string" where
  "group_dir base k = (case k of (dataset, _, hour_key) \<Rightarrow> normal_dir base dataset hour_key)"

definition file_path :: "string \<Rightarrow> group_id \<Rightarrow> string \<Rightarrow> string" where
  "file_path base k name = group_dir base k @ CHR ''/'' # name"

definition group_file :: "'o parquet_lib \<Rightarrow> string \<Rightarrow> group_id \<times> persisted_record list \<Rightarrow> (string \<times> 'o) option" where
  "group_file L base = (\<lambda>(k, rs). case encoded L rs of Inl _ \<Rightarrow> None | Inr (buf, name) \<Rightarrow> Some (file_path base k name, buf))"

definition batch_files :: "'o parquet_lib \<Rightarrow> string \<Rightarrow> persisted_record list \<Rightarrow> (string \<times> 'o) list" where
  "batch_files L base rs = List.map_filter (group_file L base) (batch_groups (pq_calendar L) rs)"

lemma group_file_Some:
  "group_file L base (k, rs) = Some (p, buf) \<longleftrightarrow> (\<exists>name. encoded L rs = Inr (buf, name) \<and> p = file_path base k name)"
  by (auto simp: group_file_def split: sum.splits)

lemma batch_files_mem:
  "(p, buf) \<in> set (batch_files L base rs) \<longleftrightarrow>
     (\<exists>k name. group_of (pq_calendar L) rs k \<noteq> [] \<and> encoded L (group_of (pq_calendar L) rs k) = Inr (buf, name) \<and>
        p = file_path base k name)"
proof -
  have "(p, buf) \<in> set (batch_files L base rs) \<longleftrightarrow>
      (\<exists>e\<in>set (batch_groups (pq_calendar L) rs). group_file L base e = Some (p, buf))"
    by (auto simp: batch_files_def map_filter_def image_iff) (metis option.sel)
  also have "\<dots> \<longleftrightarrow> (\<exists>k g. (k, g) \<in> set (batch_groups (pq_calendar L) rs) \<and> group_file L base (k, g) = Some (p, buf))"
    by auto
  finally show ?thesis unfolding batch_groups_mem group_file_Some by blast
qed

text \<open>The keys of groups, and what a path tells of its key.\<close>

lemma group_key_site:
  assumes "calendar_ok C"
  shows "site (fst (group_key C r)) (snd (snd (group_key C r)))"
  using plain_partition [OF assms] by (simp add: group_key_def site_def)

lemma dataset_no_slash: "CHR ''/'' \<notin> set (dataset_name r)"
  by (cases r) simp_all

lemma split_at_first:
  "CHR ''/'' \<notin> set a \<Longrightarrow> CHR ''/'' \<notin> set b \<Longrightarrow> a @ CHR ''/'' # x = b @ CHR ''/'' # y \<Longrightarrow> a = b \<and> x = y"
  by (metis split_once_append option.inject prod.inject)

lemma split_at_last:
  "CHR ''/'' \<notin> set x \<Longrightarrow> CHR ''/'' \<notin> set y \<Longrightarrow> a @ CHR ''/'' # x = b @ CHR ''/'' # y \<Longrightarrow> a = b \<and> x = y"
  by (metis rsplit_once_append option.inject prod.inject)

lemma file_path_inject:
  assumes "CHR ''/'' \<notin> set name" "CHR ''/'' \<notin> set name'"
    and "file_path base (group_key C r) name = file_path base (group_key C r') name'"
  shows "dataset_name r = dataset_name r' \<and> partition_hour_key C (partition_timestamp_us r) = partition_hour_key C (partition_timestamp_us r') \<and>
    name = name'"
proof -
  have "group_dir base (group_key C r) = group_dir base (group_key C r')" and n: "name = name'"
    using split_at_last [OF assms(1,2)] assms(3) unfolding file_path_def by blast+
  then have "dataset_name r @ CHR ''/'' # partition_hour_key C (partition_timestamp_us r) =
      dataset_name r' @ CHR ''/'' # partition_hour_key C (partition_timestamp_us r')"
    by (simp add: group_dir_def group_key_def normal_dir_def child_inject)
  from split_at_first [OF dataset_no_slash dataset_no_slash this] n show ?thesis by simp
qed

text \<open>Different groups have different files.\<close>

lemma group_name_segment:
  assumes "encoded L rs = Inr (buf, name)"
  shows "segment_ok name"
  using encoded_named [OF assms] segment_file by metis

lemma group_paths_differ:
  assumes "encoded L (group_of C rs k) = Inr (buf, name)" "encoded L (group_of C rs k') = Inr (buf', name')"
    and "file_path base k name = file_path base k' name'"
  shows "k = k'"
proof -
  obtain r ts h n where r: "group_of C rs k = r # tl (group_of C rs k)" "name = parquet_file_name (storage_key_for (asset_partition r)) ts h n"
    using encoded_named [OF assms(1)] by metis
  obtain r' ts' h' n' where r': "group_of C rs k' = r' # tl (group_of C rs k')" "name' = parquet_file_name (storage_key_for (asset_partition r')) ts' h' n'"
    using encoded_named [OF assms(2)] by metis
  have k: "k = group_key C r" "k' = group_key C r'"
    using r(1) r'(1) group_of_mem [of r C rs k] group_of_mem [of r' C rs k'] by (metis list.set_intros(1))+
  have same: "dataset_name r = dataset_name r'" "partition_hour_key C (partition_timestamp_us r) = partition_hour_key C (partition_timestamp_us r')" "name = name'"
    using file_path_inject [of name name' base C r r'] assms(3) k
      group_name_segment [OF assms(1), THEN segment_no_slash] group_name_segment [OF assms(2), THEN segment_no_slash] by simp_all
  moreover have "storage_key_for (asset_partition r) = storage_key_for (asset_partition r')"
    using same(3) r(2) r'(2) parquet_file_name_inject by metis
  ultimately show ?thesis unfolding k by (simp add: group_key_def)
qed

lemma batch_files_unique:
  assumes "(p, buf) \<in> set (batch_files L base rs)" "(p, buf') \<in> set (batch_files L base rs)"
  shows "buf = buf'"
proof -
  obtain k name where k: "encoded L (group_of (pq_calendar L) rs k) = Inr (buf, name)" "p = file_path base k name"
    using assms(1) by (auto simp: batch_files_mem)
  obtain k' name' where k': "encoded L (group_of (pq_calendar L) rs k') = Inr (buf', name')" "p = file_path base k' name'"
    using assms(2) by (auto simp: batch_files_mem)
  have "k = k'" by (rule group_paths_differ [OF k(1) k'(1) trans [OF k(2) [symmetric] k'(2)]])
  with k k' show ?thesis by simp
qed

section \<open>The effect of a write\<close>

text \<open>\<open>some_written F m m'\<close>: some files of \<open>F\<close> were put, and nothing else changed; \<open>all_written\<close>: all of them.\<close>

definition some_written :: "(string \<times> 'o) list \<Rightarrow> (string, 'o) hmap \<Rightarrow> (string, 'o) hmap \<Rightarrow> bool" where
  "some_written F m m' \<longleftrightarrow> hm_ok m' \<and>
     (\<forall>p. hm_get m' p = hm_get m p \<or> (\<exists>x. hm_get m' p = Some x \<and> (p, x) \<in> set F))"

definition all_written :: "(string \<times> 'o) list \<Rightarrow> (string, 'o) hmap \<Rightarrow> (string, 'o) hmap \<Rightarrow> bool" where
  "all_written F m m' \<longleftrightarrow> some_written F m m' \<and> (\<forall>(p, x)\<in>set F. hm_get m' p = Some x)"

lemma write_group_pure:
  fixes L :: "'o parquet_lib"
  assumes "path_laws L base" "site dataset hour_key" "k = (dataset, asset, hour_key)"
  shows "write_group L base dataset asset hour_key rs =
    (case encoded L rs of
       Inl e \<Rightarrow> (\<lambda>st. (st, Inl e))
     | Inr (buf, name) \<Rightarrow> call StoreObject (store_put (file_path base k name) buf))"
proof (cases "encoded L rs")
  case (Inl e)
  then show ?thesis unfolding write_group_def encode_result by (simp add: andthen_def fun_eq_iff)
next
  case (Inr x)
  obtain buf name where x: "x = (buf, name)" by (cases x)
  have "plain name" using group_name_segment Inr x plain_segment by metis
  with assms have "child_path L base (dataset @ ''/'' @ hour_key @ ''/'' @ name) = (ret (file_path base k name) :: ('o, store_error, string) prog)"
    by (simp add: site_def file_path_def group_dir_def normal_dir_def child_append [symmetric])
  then show ?thesis unfolding write_group_def encode_result Inr x sum.case andthen_ret prod.case by (simp only: andthen_ret)
qed

lemma write_groups_step:
  fixes L :: "'o parquet_lib"
  assumes "path_laws L base" "\<And>k rs. (k, rs) \<in> set gs \<Longrightarrow> site (fst k) (snd (snd k))"
    and sub: "set (List.map_filter (group_file L base) gs) \<subseteq> set F"
    and uniq: "\<And>p x y. (p, x) \<in> set F \<Longrightarrow> (p, y) \<in> set F \<Longrightarrow> x = y"
  shows "triple (on_objects (\<lambda>m. some_written F m0 m \<and> (\<forall>(p, x)\<in>set D. hm_get m p = Some x \<and> (p, x) \<in> set F)))
    (for_each gs (\<lambda>((dataset, asset, hour_key), rs). write_group L base dataset asset hour_key rs))
    (\<lambda>_. on_objects (\<lambda>m. some_written F m0 m \<and>
      (\<forall>(p, x)\<in>set (D @ List.map_filter (group_file L base) gs). hm_get m p = Some x \<and> (p, x) \<in> set F)))
    (on_objects (some_written F m0))"
  using assms(2) sub
proof (induction gs arbitrary: D)
  case Nil
  show ?case by (auto intro!: triple_ret simp: on_objects_def)
next
  case (Cons g gs)
  obtain dataset asset hour_key rs where g: "g = ((dataset, asset, hour_key), rs)" by (metis prod.exhaust)
  have site: "site dataset hour_key" using Cons.prems(1) [of "(dataset, asset, hour_key)" rs] g by simp
  note step = write_group_pure [OF assms(1) site refl, of asset rs]
  show ?case
  proof (cases "encoded L rs")
    case (Inl e)
    then show ?thesis unfolding g for_each.simps prod.case step
      by (simp add: triple_def andthen_def on_objects_def)
  next
    case (Inr x)
    obtain buf name where x: "x = (buf, name)" by (cases x)
    let ?p = "file_path base (dataset, asset, hour_key) name"
    have whole: "group_file L base g = Some (?p, buf)" using Inr x by (simp add: g group_file_Some)
    then have inF: "(?p, buf) \<in> set F" using Cons.prems(2) by (simp add: List.map_filter_simps)
    have "triple (on_objects (\<lambda>m. some_written F m0 m \<and> (\<forall>(p, x)\<in>set D. hm_get m p = Some x \<and> (p, x) \<in> set F)))
      (call StoreObject (store_put ?p buf))
      (\<lambda>_. on_objects (\<lambda>m. some_written F m0 m \<and> (\<forall>(p, x)\<in>set (D @ [(?p, buf)]). hm_get m p = Some x \<and> (p, x) \<in> set F)))
      (on_objects (some_written F m0))"
    proof (rule triple_put [where K = "some_written F m0"])
      fix m assume m: "some_written F m0 m \<and> (\<forall>(p, x)\<in>set D. hm_get m p = Some x \<and> (p, x) \<in> set F)"
      then have ok: "hm_ok m" by (simp add: some_written_def)
      have "some_written F m0 (hm_insert ?p buf m)"
        using m inF ok by (auto simp: some_written_def hm.get_put hm.ok_put)
      moreover have "hm_get (hm_insert ?p buf m) p = Some x \<and> (p, x) \<in> set F" if "(p, x) \<in> set (D @ [(?p, buf)])" for p x
        using that m inF uniq ok by (auto simp: hm.get_put)
      ultimately show "some_written F m0 (hm_insert ?p buf m) \<and>
          (\<forall>(p, x)\<in>set (D @ [(?p, buf)]). hm_get (hm_insert ?p buf m) p = Some x \<and> (p, x) \<in> set F)" by blast
    qed simp_all
    then have "triple (on_objects (\<lambda>m. some_written F m0 m \<and> (\<forall>(p, x)\<in>set D. hm_get m p = Some x \<and> (p, x) \<in> set F)))
      (write_group L base dataset asset hour_key rs)
      (\<lambda>_. on_objects (\<lambda>m. some_written F m0 m \<and> (\<forall>(p, x)\<in>set (D @ [(?p, buf)]). hm_get m p = Some x \<and> (p, x) \<in> set F)))
      (on_objects (some_written F m0))"
      unfolding step Inr x by simp
    moreover have "List.map_filter (group_file L base) (g # gs) = (?p, buf) # List.map_filter (group_file L base) gs"
      using whole by (simp add: List.map_filter_simps)
    ultimately show ?thesis
      unfolding g for_each.simps prod.case
      using Cons.IH [of "D @ [(?p, buf)]"] Cons.prems
      by (auto intro!: triple_andthen triple_ret simp: g)
  qed
qed

lemma group_site:
  assumes "calendar_ok C" "((dataset, asset, hour_key), g) \<in> set (batch_groups C rs)"
  shows "site dataset hour_key"
proof -
  from assms(2) obtain r where "r \<in> set (group_of C rs (dataset, asset, hour_key))"
    by (auto simp: batch_groups_mem) (metis list.set_sel(1))
  then have "(dataset, asset, hour_key) = group_key C r" by (simp add: group_of_mem)
  then show ?thesis using group_key_site [OF assms(1), of r] by (metis fst_conv snd_conv)
qed

lemma write_batch_step:
  fixes L :: "'o parquet_lib"
  assumes "path_laws L base" "calendar_ok (pq_calendar L)"
  shows "triple (on_objects (some_written (batch_files L base rs) m0)) (write_batch L base rs)
    (\<lambda>_. on_objects (all_written (batch_files L base rs) m0)) (on_objects (some_written (batch_files L base rs) m0))"
proof (cases "rs = []")
  case True
  then show ?thesis
    by (auto intro!: triple_ret simp: write_batch_def on_objects_def all_written_def batch_files_def batch_groups_def
        bt_empty_def List.map_filter_simps)
next
  case False
  let ?F = "batch_files L base rs" and ?gs = "batch_groups (pq_calendar L) rs"
  have "triple (on_objects (\<lambda>m. some_written ?F m0 m \<and> (\<forall>(p, x)\<in>set []. hm_get m p = Some x \<and> (p, x) \<in> set ?F)))
    (for_each ?gs (\<lambda>((dataset, asset, hour_key), rs). write_group L base dataset asset hour_key rs))
    (\<lambda>_. on_objects (\<lambda>m. some_written ?F m0 m \<and>
      (\<forall>(p, x)\<in>set ([] @ List.map_filter (group_file L base) ?gs). hm_get m p = Some x \<and> (p, x) \<in> set ?F)))
    (on_objects (some_written ?F m0))"
    by (rule write_groups_step [OF assms(1)]) (use group_site [OF assms(2)] batch_files_unique in \<open>auto simp: batch_files_def\<close>)
  then have "triple (on_objects (some_written ?F m0))
    (for_each ?gs (\<lambda>((dataset, asset, hour_key), rs). write_group L base dataset asset hour_key rs))
    (\<lambda>_. on_objects (all_written ?F m0)) (on_objects (some_written ?F m0))"
    by (rule triple_pre [OF triple_post]) (auto simp: on_objects_def all_written_def batch_files_def)
  then show ?thesis
    using False unfolding write_batch_def batch_groups_def
    by (auto intro!: triple_andthen triple_ret)
qed

lemma some_written_refl: "hm_ok m \<Longrightarrow> some_written F m m"
  by (simp add: some_written_def)

end
