(* ===== verification/ParquetSink.thy ===== *)
theory ParquetSink
  imports StoreWrite
begin

text \<open>
  The Parquet sink: \<open>crates/pb-store/src/parquet_sink.rs\<close>. It buffers the records it receives and
  flushes them to the store, retrying a failed flush a bounded number of times with the buffer
  kept. Its \<open>select!\<close> loop is a run over a sequence of events, in any order.
\<close>

section \<open>Flushing\<close>

definition MAX_FLUSH_RETRIES :: u32 where
  "MAX_FLUSH_RETRIES = 5"

definition RETRY_BASE_DELAY_MS :: nat where
  "RETRY_BASE_DELAY_MS = 200"

text \<open>\<open>RETRY_BASE_DELAY * 2u32.pow(attempt - 1)\<close>; the power stays far below the width.\<close>

definition retry_backoff_ms :: "u32 \<Rightarrow> nat" where
  "retry_backoff_ms attempt = RETRY_BASE_DELAY_MS * unat (2 ^ unat (attempt - 1) :: u32)"

record 'o sink_result =
  sr_store :: "'o store"
  sr_buffer :: "persisted_record list"
  sr_result :: "store_error stop + unit"
  sr_sleeps_ms :: "nat list"

text \<open>One flush, from a number of failed attempts on; a panic of the writer is not retried.\<close>

function flush_from :: "'o parquet_lib \<Rightarrow> string \<Rightarrow> persisted_record list \<Rightarrow> u32 \<Rightarrow> nat list \<Rightarrow> 'o store \<Rightarrow> 'o sink_result" where
  "flush_from L base buffer attempt sleeps st =
     (case write_batch L base buffer st of
        (st', Inr _) \<Rightarrow> \<lparr> sr_store = st', sr_buffer = [], sr_result = Inr (), sr_sleeps_ms = sleeps \<rparr>
      | (st', Inl Panic) \<Rightarrow> \<lparr> sr_store = st', sr_buffer = buffer, sr_result = Inl Panic, sr_sleeps_ms = sleeps \<rparr>
      | (st', Inl (Failed e)) \<Rightarrow>
          (let attempt' = attempt + 1
           in if MAX_FLUSH_RETRIES < attempt'
              then \<lparr> sr_store = st', sr_buffer = buffer, sr_result = Inl (Failed e), sr_sleeps_ms = sleeps \<rparr>
              else flush_from L base buffer attempt' (sleeps @ [retry_backoff_ms attempt']) st'))"
  by pat_completeness auto

termination
proof (relation "measure (\<lambda>(_, _, _, attempt, _, _). unat (MAX_FLUSH_RETRIES - attempt))")
  fix attempt attempt' :: u32
  assume "attempt' = attempt + 1" "\<not> MAX_FLUSH_RETRIES < attempt'"
  then have "5 - attempt \<noteq> 0" by (auto simp: MAX_FLUSH_RETRIES_def)
  from measure_unat [OF this] have "unat (5 - attempt') < unat (5 - attempt)"
    using \<open>attempt' = attempt + 1\<close> by (simp add: algebra_simps)
  then show "((L, base, buffer, attempt', sleeps @ [retry_backoff_ms attempt'], st'), L, base, buffer, attempt, sleeps, st)
      \<in> measure (\<lambda>(_, _, _, attempt, _, _). unat (MAX_FLUSH_RETRIES - attempt))"
    for L :: "'o parquet_lib" and base buffer sleeps st st'
    by (simp add: MAX_FLUSH_RETRIES_def)
qed auto

declare flush_from.simps [simp del]

definition sink_flush :: "'o parquet_lib \<Rightarrow> string \<Rightarrow> persisted_record list \<Rightarrow> 'o store \<Rightarrow> 'o sink_result" where
  "sink_flush L base buffer st = flush_from L base buffer 0 [] st"

section \<open>The run loop\<close>

text \<open>What \<open>select!\<close> can see: a cancellation with the records drained before the deadline, and the
  number left in the channel when the deadline was hit; a record; a closed channel; a tick.\<close>

datatype sink_event =
    Token_Cancelled "persisted_record list" "nat option"
  | Record_Received persisted_record
  | Channel_Closed
  | Interval_Tick

datatype sink_outcome = Running | Returned "store_error stop + unit"

definition drain_timed_out :: "nat \<Rightarrow> store_error" where
  "drain_timed_out remaining =
     StoreOther (''ParquetSink shutdown drain timed out with '' @ dec remaining @ '' records still queued'')"

text \<open>\<open>if !buffer.is_empty() { self.flush(&mut buffer).await?; }\<close>\<close>

definition flush_some :: "'o parquet_lib \<Rightarrow> string \<Rightarrow> persisted_record list \<Rightarrow> 'o store \<Rightarrow> 'o store \<times> persisted_record list \<times> (store_error stop + unit)" where
  "flush_some L base buffer st =
     (if buffer = [] then (st, [], Inr ())
      else let r = sink_flush L base buffer st in (sr_store r, sr_buffer r, sr_result r))"

fun sink_step :: "'o parquet_lib \<Rightarrow> string \<Rightarrow> sink_event \<Rightarrow> persisted_record list \<Rightarrow> 'o store \<Rightarrow>
    'o store \<times> persisted_record list \<times> sink_outcome" where
  "sink_step L base (Token_Cancelled drained left) buffer st =
     (case flush_some L base (buffer @ drained) st of
        (st', buffer', Inl e) \<Rightarrow> (st', buffer', Returned (Inl e))
      | (st', buffer', Inr _) \<Rightarrow>
          (case left of
             Some remaining \<Rightarrow> (st', buffer', Returned (Inl (Failed (drain_timed_out remaining))))
           | None \<Rightarrow> (st', buffer', Returned (Inr ()))))"
| "sink_step L base (Record_Received r) buffer st = (st, buffer @ [r], Running)"
| "sink_step L base Channel_Closed buffer st =
     (case flush_some L base buffer st of (st', buffer', r) \<Rightarrow> (st', buffer', Returned r))"
| "sink_step L base Interval_Tick buffer st =
     (case flush_some L base buffer st of
        (st', buffer', Inl e) \<Rightarrow> (st', buffer', Returned (Inl e))
      | (st', buffer', Inr _) \<Rightarrow> (st', buffer', Running))"

fun run_with_token :: "'o parquet_lib \<Rightarrow> string \<Rightarrow> sink_event list \<Rightarrow> persisted_record list \<Rightarrow> 'o store \<Rightarrow>
    'o store \<times> persisted_record list \<times> sink_outcome" where
  "run_with_token L base [] buffer st = (st, buffer, Running)"
| "run_with_token L base (e # es) buffer st =
     (case sink_step L base e buffer st of
        (st', buffer', Running) \<Rightarrow> run_with_token L base es buffer' st'
      | r \<Rightarrow> r)"

text \<open>The records the sink took from the channel before it returned.\<close>

fun taken_by :: "sink_event \<Rightarrow> persisted_record list" where
  "taken_by (Token_Cancelled drained _) = drained"
| "taken_by (Record_Received r) = [r]"
| "taken_by Channel_Closed = []"
| "taken_by Interval_Tick = []"

section \<open>A flush\<close>

lemma flush_from_effect:
  assumes "path_laws L base" "calendar_ok (pq_calendar L)"
    and "some_written (batch_files L base buffer) m0 (st_objects st)" and "flush_from L base buffer attempt sleeps st = r"
  shows "case sr_result r of
      Inl _ \<Rightarrow> sr_buffer r = buffer \<and> some_written (batch_files L base buffer) m0 (st_objects (sr_store r))
    | Inr _ \<Rightarrow> sr_buffer r = [] \<and> all_written (batch_files L base buffer) m0 (st_objects (sr_store r))"
  using assms
proof (induction L base buffer attempt sleeps st arbitrary: r rule: flush_from.induct)
  case (1 L base buffer attempt sleeps st)
  obtain st' w where w: "write_batch L base buffer st = (st', w)" by (cases "write_batch L base buffer st")
  have after: "case w of Inl _ \<Rightarrow> some_written (batch_files L base buffer) m0 (st_objects st')
    | Inr _ \<Rightarrow> all_written (batch_files L base buffer) m0 (st_objects st')"
    using tripleD [OF write_batch_step [OF "1.prems"(1,2)] _ w, of m0] "1.prems"(3)
    by (cases w) (simp_all add: on_objects_def)
  show ?case
  proof (cases w)
    case (Inr u)
    with "1.prems"(4) after w show ?thesis by (auto simp: flush_from.simps [of L base buffer attempt])
  next
    case (Inl e)
    show ?thesis
    proof (cases "e = Panic \<or> MAX_FLUSH_RETRIES < attempt + 1")
      case True
      with "1.prems"(4) after w Inl show ?thesis
        by (cases e) (auto simp: flush_from.simps [of L base buffer attempt])
    next
      case False
      then obtain err where e: "e = Failed err" by (cases e) auto
      show ?thesis
        using "1.IH" [OF w [symmetric] Inl e refl] False "1.prems" after w Inl
        by (simp add: flush_from.simps [of L base buffer attempt] e Let_def)
    qed
  qed
qed

text \<open>The waits are powers of two.\<close>

lemma retry_backoff: "attempt < 5 \<Longrightarrow> retry_backoff_ms (of_nat (Suc attempt)) = 200 * 2 ^ attempt"
proof -
  assume "attempt < 5"
  then consider "attempt = 0" | "attempt = 1" | "attempt = 2" | "attempt = 3" | "attempt = 4" by linarith
  then show ?thesis by cases (simp_all add: retry_backoff_ms_def RETRY_BASE_DELAY_MS_def)
qed

lemma flush_from_sleeps:
  assumes "attempt = of_nat n" "n \<le> 5" "sleeps = map (\<lambda>i. 200 * 2 ^ i) [0..<n]" "flush_from L base buffer attempt sleeps st = r"
  shows "\<exists>k \<le> 5. sr_sleeps_ms r = map (\<lambda>i. 200 * 2 ^ i) [0..<k]"
  using assms
proof (induction L base buffer attempt sleeps st arbitrary: n r rule: flush_from.induct)
  case (1 L base buffer attempt sleeps st)
  obtain st' w where w: "write_batch L base buffer st = (st', w)" by (cases "write_batch L base buffer st")
  show ?case
  proof (cases "\<exists>e. w = Inl (Failed e) \<and> \<not> MAX_FLUSH_RETRIES < attempt + 1")
    case False
    then have "sr_sleeps_ms r = sleeps"
      using "1.prems"(4) w by (auto simp: flush_from.simps [of L base buffer attempt] Let_def split: sum.splits stop.splits)
    with "1.prems"(2,3) show ?thesis by auto
  next
    case True
    then obtain e where e: "w = Inl (Failed e)" "\<not> MAX_FLUSH_RETRIES < attempt + 1" by blast
    have n: "n < 5" using e(2) "1.prems"(1,2) by (auto simp: MAX_FLUSH_RETRIES_def le_less)
    have next_attempt: "attempt + 1 = of_nat (Suc n)" using "1.prems"(1) by simp
    have sl: "sleeps @ [retry_backoff_ms (attempt + 1)] = map (\<lambda>i. 200 * 2 ^ i) [0..<Suc n]"
      unfolding next_attempt retry_backoff [OF n] "1.prems"(3) by simp
    have "flush_from L base buffer (attempt + 1) (sleeps @ [retry_backoff_ms (attempt + 1)]) st' = r"
      using "1.prems"(4) w e by (simp add: flush_from.simps [of L base buffer attempt] Let_def)
    from "1.IH" [OF w [symmetric] e(1) refl refl e(2) next_attempt _ sl this] n show ?thesis by simp
  qed
qed

section \<open>What the sink has stored\<close>

definition files_map :: "'o parquet_lib \<Rightarrow> string \<Rightarrow> persisted_record list \<Rightarrow> string \<Rightarrow> 'o option" where
  "files_map L base rs = map_of (batch_files L base rs)"

definition after_batches :: "'o parquet_lib \<Rightarrow> string \<Rightarrow> persisted_record list list \<Rightarrow> (string \<Rightarrow> 'o option) \<Rightarrow> string \<Rightarrow> 'o option" where
  "after_batches L base batches M = foldl (\<lambda>M b. M ++ files_map L base b) M batches"

text \<open>At most some files of the batch were put.\<close>

definition partly_written :: "'o parquet_lib \<Rightarrow> string \<Rightarrow> persisted_record list \<Rightarrow> (string \<Rightarrow> 'o option) \<Rightarrow> (string \<Rightarrow> 'o option) \<Rightarrow> bool" where
  "partly_written L base rs M M' \<longleftrightarrow> (\<forall>p. M' p = M p \<or> M' p \<noteq> None \<and> M' p = files_map L base rs p)"

lemma files_map_mem: "files_map L base rs p = Some x \<longleftrightarrow> (p, x) \<in> set (batch_files L base rs)"
proof
  assume "(p, x) \<in> set (batch_files L base rs)"
  moreover from this obtain y where "map_of (batch_files L base rs) p = Some y"
    by (metis map_of_eq_None_iff option.exhaust image_eqI fst_conv)
  ultimately show "files_map L base rs p = Some x"
    unfolding files_map_def using batch_files_unique map_of_SomeD by metis
qed (simp add: files_map_def map_of_SomeD)

lemma some_written_partly:
  "some_written (batch_files L base rs) m m' \<Longrightarrow> partly_written L base rs (hm_get m) (hm_get m')"
  unfolding some_written_def partly_written_def by (metis files_map_mem option.distinct(1))

lemma all_written_map:
  assumes "all_written (batch_files L base rs) m m'"
  shows "hm_get m' = hm_get m ++ files_map L base rs"
proof
  fix p
  show "hm_get m' p = (hm_get m ++ files_map L base rs) p"
  proof (cases "files_map L base rs p")
    case None
    then show ?thesis using assms unfolding all_written_def some_written_def map_add_def
      by (metis files_map_mem option.distinct(1) option.simps(4))
  next
    case (Some x)
    then show ?thesis using assms by (auto simp: all_written_def files_map_mem)
  qed
qed

lemma files_map_Nil [simp]: "files_map L base [] = Map.empty"
  by (simp add: files_map_def batch_files_def batch_groups_def bt_empty_def List.map_filter_simps)

lemma flush_some_effect:
  assumes "path_laws L base" "calendar_ok (pq_calendar L)" "hm_ok (st_objects st)" "flush_some L base buffer st = (st', buffer', r)"
  shows "hm_ok (st_objects st') \<and> (case r of
      Inl _ \<Rightarrow> buffer' = buffer \<and> partly_written L base buffer (hm_get (st_objects st)) (hm_get (st_objects st'))
    | Inr _ \<Rightarrow> buffer' = [] \<and> hm_get (st_objects st') = hm_get (st_objects st) ++ files_map L base buffer)"
proof (cases "buffer = []")
  case False
  define q where "q = flush_from L base buffer 0 [] st"
  have out: "sr_store q = st'" "sr_buffer q = buffer'" "sr_result q = r"
    using False assms(4) by (simp_all add: flush_some_def sink_flush_def Let_def q_def)
  have "case r of
      Inl _ \<Rightarrow> buffer' = buffer \<and> some_written (batch_files L base buffer) (st_objects st) (st_objects st')
    | Inr _ \<Rightarrow> buffer' = [] \<and> all_written (batch_files L base buffer) (st_objects st) (st_objects st')"
    using flush_from_effect [OF assms(1,2) some_written_refl [OF assms(3)] q_def [symmetric]] unfolding out .
  then show ?thesis
    by (cases r) (auto intro: some_written_partly all_written_map, auto simp: all_written_def some_written_def)
qed (use assms(3,4) in \<open>auto simp: flush_some_def\<close>)

lemma after_batches_simps [simp]:
  "after_batches L base [] M = M"
  "after_batches L base (b # bs) M = after_batches L base bs (M ++ files_map L base b)"
  by (simp_all add: after_batches_def)

lemma partly_refl [simp]: "partly_written L base rs M M"
  by (simp add: partly_written_def)

text \<open>The books of a stretch of events, from one state of buffer and store to another.\<close>

definition accounted :: "'o parquet_lib \<Rightarrow> string \<Rightarrow> persisted_record list \<Rightarrow> (string, 'o) hmap \<Rightarrow> persisted_record list \<Rightarrow> (string, 'o) hmap \<Rightarrow>
    sink_outcome \<Rightarrow> bool" where
  "accounted L base taken m buffer m' outcome \<longleftrightarrow>
     (\<exists>batches. concat batches @ buffer = taken \<and>
        partly_written L base buffer (after_batches L base batches (hm_get m)) (hm_get m') \<and>
        (case outcome of
           Running \<Rightarrow> hm_get m' = after_batches L base batches (hm_get m)
         | Returned (Inr _) \<Rightarrow> buffer = [] \<and> hm_get m' = after_batches L base batches (hm_get m)
         | Returned (Inl _) \<Rightarrow> True))"

lemma accounted_step:
  assumes "path_laws L base" "calendar_ok (pq_calendar L)" "hm_ok (st_objects st)"
    and "sink_step L base e buffer st = (st', buffer', outcome)"
  shows "hm_ok (st_objects st') \<and> accounted L base (buffer @ taken_by e) (st_objects st) buffer' (st_objects st') outcome"
proof -
  have flushed: "hm_ok (st_objects s) \<and> (case r of
      Inl e \<Rightarrow> accounted L base b (st_objects st) b' (st_objects s) (Returned (Inl e))
    | Inr _ \<Rightarrow> b' = [] \<and> (\<forall>out. accounted L base b (st_objects st) [] (st_objects s) out))"
    if "flush_some L base b st = (s, b', r)" for b s b' r
  proof (cases r)
    case (Inl err)
    with flush_some_effect [OF assms(1-3) that] show ?thesis by (auto simp: accounted_def intro!: exI [of _ "[]"])
  next
    case (Inr u)
    with flush_some_effect [OF assms(1-3) that] show ?thesis
      by (auto simp: accounted_def intro!: exI [of _ "[b]"] split: sink_outcome.split sum.split)
  qed
  show ?thesis
  proof (cases e)
    case (Token_Cancelled drained left)
    obtain s b r where f: "flush_some L base (buffer @ drained) st = (s, b, r)" by (metis prod.exhaust)
    show ?thesis using flushed [OF f] assms(4) f by (auto simp: Token_Cancelled split: sum.splits option.splits)
  next
    case (Record_Received r)
    then show ?thesis using assms(3,4) by (auto simp: accounted_def intro: exI [of _ "[]"])
  next
    case Channel_Closed
    obtain s b r where f: "flush_some L base buffer st = (s, b, r)" by (metis prod.exhaust)
    show ?thesis using flushed [OF f] assms(4) f by (cases r) (auto simp: Channel_Closed)
  next
    case Interval_Tick
    obtain s b r where f: "flush_some L base buffer st = (s, b, r)" by (metis prod.exhaust)
    show ?thesis using flushed [OF f] assms(4) f by (cases r) (auto simp: Interval_Tick)
  qed
qed

lemma after_batches_append: "after_batches L base (bs @ cs) M = after_batches L base cs (after_batches L base bs M)"
  by (simp add: after_batches_def)

lemma accounted_trans:
  assumes "accounted L base taken m buffer m' Running" "accounted L base (buffer @ further) m' buffer'' m'' outcome"
  shows "accounted L base (taken @ further) m buffer'' m'' outcome"
proof -
  obtain bs where bs: "concat bs @ buffer = taken" "hm_get m' = after_batches L base bs (hm_get m)"
    using assms(1) by (auto simp: accounted_def)
  obtain cs where cs: "concat cs @ buffer'' = buffer @ further"
    "partly_written L base buffer'' (after_batches L base cs (hm_get m')) (hm_get m'')"
    "case outcome of
       Running \<Rightarrow> hm_get m'' = after_batches L base cs (hm_get m')
     | Returned (Inr _) \<Rightarrow> buffer'' = [] \<and> hm_get m'' = after_batches L base cs (hm_get m')
     | Returned (Inl _) \<Rightarrow> True"
    using assms(2) by (auto simp: accounted_def)
  have "concat (bs @ cs) @ buffer'' = taken @ further" using bs(1) cs(1) by simp
  moreover have "after_batches L base (bs @ cs) (hm_get m) = after_batches L base cs (hm_get m')"
    by (simp add: after_batches_append bs(2))
  ultimately show ?thesis using cs(2,3) unfolding accounted_def
    by (intro exI [of _ "bs @ cs"]) (simp split: sink_outcome.splits sum.splits)
qed

lemma run_accounted:
  assumes "path_laws L base" "calendar_ok (pq_calendar L)" "hm_ok (st_objects st)"
    and "run_with_token L base events buffer st = (st', buffer', outcome)"
  shows "\<exists>n. (outcome = Running \<longrightarrow> length events \<le> n) \<and>
    accounted L base (buffer @ concat (map taken_by (take n events))) (st_objects st) buffer' (st_objects st') outcome"
  using assms(3,4)
proof (induction events arbitrary: buffer st)
  case Nil
  then show ?case by (auto simp: accounted_def intro: exI [of _ "[]"])
next
  case (Cons e es)
  obtain s b out where step: "sink_step L base e buffer st = (s, b, out)" by (metis prod.exhaust)
  note here = accounted_step [OF assms(1,2) Cons.prems(1) step]
  show ?case
  proof (cases out)
    case Running
    then have "run_with_token L base es b s = (st', buffer', outcome)" using Cons.prems(2) step by simp
    from Cons.IH [OF _ this] here obtain n where n: "outcome = Running \<longrightarrow> length es \<le> n"
      "accounted L base (b @ concat (map taken_by (take n es))) (st_objects s) buffer' (st_objects st') outcome" by blast
    have "accounted L base ((buffer @ taken_by e) @ concat (map taken_by (take n es))) (st_objects st) buffer' (st_objects st') outcome"
      using accounted_trans [OF _ n(2)] here Running by blast
    with n(1) show ?thesis by (intro exI [of _ "Suc n"]) simp
  next
    case (Returned r)
    with Cons.prems(2) step here show ?thesis by (intro exI [of _ 1]) auto
  qed
qed

section \<open>Enough retries\<close>

text \<open>The calls of the schedule that do not succeed.\<close>

definition faults :: "'o store \<Rightarrow> nat" where
  "faults st = length (filter (\<lambda>f. f \<noteq> Done) (st_fates st))"

definition encodable :: "'o parquet_lib \<Rightarrow> persisted_record list \<Rightarrow> bool" where
  "encodable L rs \<longleftrightarrow> list_all (\<lambda>(_, g). case encoded L g of Inl _ \<Rightarrow> False | Inr _ \<Rightarrow> True) (batch_groups (pq_calendar L) rs)"

text \<open>A program that fails has met a fault.\<close>

definition blames_store :: "('o, 'e, 'a) prog \<Rightarrow> bool" where
  "blames_store f \<longleftrightarrow> (\<forall>st. case f st of
     (st', Inr _) \<Rightarrow> faults st' \<le> faults st
   | (st', Inl (Failed _)) \<Rightarrow> faults st' < faults st
   | (st', Inl Panic) \<Rightarrow> False)"

lemma blames_ret [intro]: "blames_store (ret x)"
  by (simp add: blames_store_def ret_def)

lemma blames_andthen:
  assumes "blames_store f" "\<And>x. blames_store (g x)"
  shows "blames_store (andthen f g)"
  unfolding blames_store_def
proof
  fix st
  obtain st1 r where f: "f st = (st1, r)" by (cases "f st")
  have first: "case r of Inr _ \<Rightarrow> faults st1 \<le> faults st | Inl (Failed _) \<Rightarrow> faults st1 < faults st | Inl Panic \<Rightarrow> False"
    using assms(1) f unfolding blames_store_def by (metis (mono_tags, lifting) case_prod_conv)
  show "case andthen f g st of (st', Inr _) \<Rightarrow> faults st' \<le> faults st
      | (st', Inl (Failed _)) \<Rightarrow> faults st' < faults st | (st', Inl Panic) \<Rightarrow> False"
  proof (cases r)
    case (Inl e)
    with f first show ?thesis by (simp add: andthen_def)
  next
    case (Inr x)
    obtain st2 r2 where g: "g x st1 = (st2, r2)" by (cases "g x st1")
    have "case r2 of Inr _ \<Rightarrow> faults st2 \<le> faults st1 | Inl (Failed _) \<Rightarrow> faults st2 < faults st1 | Inl Panic \<Rightarrow> False"
      using assms(2) [of x] g unfolding blames_store_def by (metis (mono_tags, lifting) case_prod_conv)
    with f first Inr g show ?thesis by (auto simp: andthen_def split: sum.splits stop.splits)
  qed
qed

lemma blames_for_each: "(\<And>x. x \<in> set xs \<Longrightarrow> blames_store (f x)) \<Longrightarrow> blames_store (for_each xs f)"
  by (induction xs) (auto intro!: blames_andthen)

lemma faults_fate: "next_fate st = (f, st') \<Longrightarrow> faults st' + (if f = Done then 0 else 1) = faults st"
  by (auto simp: next_fate_def faults_def split: list.splits)

lemma faults_objects [simp]: "faults (st\<lparr> st_objects := m \<rparr>) = faults st"
  by (simp add: faults_def)

lemma blames_put: "blames_store (call w (store_put p x))"
  by (auto simp: blames_store_def call_def store_put_def write_call_def split: prod.splits fate.splits dest!: faults_fate)

lemma blames_write:
  fixes L :: "'o parquet_lib"
  assumes "path_laws L base" "calendar_ok (pq_calendar L)" "encodable L rs"
  shows "blames_store (write_batch L base rs)"
proof (cases "rs = []")
  case False
  have "blames_store (write_group L base dataset asset hour_key g)"
    if mem: "((dataset, asset, hour_key), g) \<in> set (batch_groups (pq_calendar L) rs)" for dataset asset hour_key g
  proof -
    have "case encoded L g of Inl _ \<Rightarrow> False | Inr _ \<Rightarrow> True"
      using assms(3) mem unfolding encodable_def list_all_iff by (metis (mono_tags, lifting) case_prod_conv)
    then obtain x where "encoded L g = Inr x" by (auto split: sum.splits)
    then show ?thesis
      using write_group_pure [OF assms(1) group_site [OF assms(2) mem] refl, of asset g] blames_put
      by (simp split: prod.splits)
  qed
  with False show ?thesis
    unfolding write_batch_def by (auto simp: batch_groups_def intro!: blames_andthen blames_for_each)
qed (simp add: write_batch_def blames_ret)

lemma max_retries: "unat MAX_FLUSH_RETRIES = 5"
  by (simp add: MAX_FLUSH_RETRIES_def)

lemma flush_from_ends:
  assumes "path_laws L base" "calendar_ok (pq_calendar L)" "encodable L buffer"
    and "attempt = of_nat n" "n \<le> 5" "faults st + n \<le> 5"
  shows "sr_result (flush_from L base buffer attempt sleeps st) = Inr ()"
  using assms
proof (induction L base buffer attempt sleeps st arbitrary: n rule: flush_from.induct)
  case (1 L base buffer attempt sleeps st)
  obtain st' w where w: "write_batch L base buffer st = (st', w)" by (cases "write_batch L base buffer st")
  have progress: "case w of Inr _ \<Rightarrow> True | Inl (Failed _) \<Rightarrow> faults st' < faults st | Inl Panic \<Rightarrow> False"
    using blames_write [OF "1.prems"(1-3)] w unfolding blames_store_def
    by (metis (mono_tags, lifting) case_prod_conv old.sum.simps(6) sum.case_eq_if)
  show ?case
  proof (cases w)
    case (Inl e)
    with progress obtain err where e: "e = Failed err" "faults st' < faults st" by (cases e) auto
    then have n: "n < 5" "faults st' + Suc n \<le> 5" using "1.prems"(6) by linarith+
    have "unat (of_nat (Suc n) :: u32) = Suc n" unfolding unat_of_nat using n(1) by (intro mod_less) simp
    then have go: "\<not> MAX_FLUSH_RETRIES < attempt + 1"
      using n(1) "1.prems"(4) max_retries by (simp add: word_less_nat_alt add.commute)
    have "sr_result (flush_from L base buffer (attempt + 1) (sleeps @ [retry_backoff_ms (attempt + 1)]) st') = Inr ()"
      using "1.IH" [OF w [symmetric] Inl e(1) refl go "1.prems"(1-3), of "Suc n"] n "1.prems"(4) by simp
    then show ?thesis using go w Inl e(1) by (simp add: flush_from.simps [of L base buffer attempt] Let_def)
  qed (simp add: flush_from.simps [of L base buffer attempt] w)
qed

lemma waits_bound: "k \<le> 5 \<Longrightarrow> sum_list (map (\<lambda>i. 200 * 2 ^ i) [0..<k]) \<le> (6200 :: nat)"
proof -
  have "(\<Sum>i\<leftarrow>[0..<k]. 200 * 2 ^ i) + 200 = (200 :: nat) * 2 ^ k" by (induction k) simp_all
  moreover assume "k \<le> 5"
  then have "(2 :: nat) ^ k \<le> 2 ^ 5" by (rule power_increasing) simp
  ultimately show ?thesis by simp
qed


text \<open>A run in which the first flush fails once, and the channel is closed after a second record.\<close>

definition demo_start :: "demo_object store" where
  "demo_start = \<lparr> st_objects = [], st_fates = [Unconfirmed ''timeout''] \<rparr>"

definition demo_events :: "sink_event list" where
  "demo_events = map Record_Received demo_records @ [Interval_Tick, Channel_Closed]"


text \<open>
  C15. A flush rides out up to five failures: if the buffer can be encoded and at most five of the
  calls to come fail or go unconfirmed, the flush succeeds, every file of the buffer is stored, and
  it has waited at most 6.2 seconds between its attempts.
\<close>

theorem flush_rides_out_failures:
  assumes "path_laws L base" "calendar_ok (pq_calendar L)" "hm_ok (st_objects st)"
    and "encodable L buffer" "faults st \<le> unat MAX_FLUSH_RETRIES" "sink_flush L base buffer st = r"
  shows "sr_result r = Inr () \<and> sr_buffer r = [] \<and> sum_list (sr_sleeps_ms r) \<le> 6200 \<and>
    hm_get (st_objects (sr_store r)) = hm_get (st_objects st) ++ files_map L base buffer"
proof -
  have ok: "sr_result r = Inr ()"
    using flush_from_ends [OF assms(1,2,4), of 0 0 st "[]"] assms(5,6) by (simp add: sink_flush_def max_retries)
  have flush: "flush_from L base buffer 0 [] st = r" using assms(6) by (simp add: sink_flush_def)
  have "sum_list (sr_sleeps_ms r) \<le> 6200"
    using flush_from_sleeps [OF _ _ _ flush, of 0] waits_bound by auto
  moreover have "sr_buffer r = [] \<and> hm_get (st_objects (sr_store r)) = hm_get (st_objects st) ++ files_map L base buffer"
    using flush_from_effect [OF assms(1,2) some_written_refl [OF assms(3)] flush] ok by (simp add: all_written_map)
  ultimately show ?thesis using ok by simp
qed

theorem flush_rides_out_failures_witness:
  "sr_result (sink_flush demo_lib ''data'' demo_records (demo_start\<lparr> st_fates := replicate 5 (Refused ''busy'') \<rparr>)) = Inr ()"
proof -
  let ?st = "demo_start\<lparr> st_fates := replicate 5 (Refused ''busy'') \<rparr>"
  have "hm_ok (st_objects ?st)" "faults ?st \<le> unat MAX_FLUSH_RETRIES"
    by (simp_all add: demo_start_def hm_ok_def faults_def max_retries)
  moreover have "encodable demo_lib demo_records" by code_simp
  ultimately show ?thesis
    using flush_rides_out_failures [OF demo_path_laws demo_calendar_ok _ _ _ refl] by blast
qed

end
