(* ===== verification/RecoveryBatch.thy ===== *)
theory RecoveryBatch
  imports Recovery StoreWrite
begin

text \<open>
  The recovery of a batch, \<open>write_batch_replacing\<close>: which batches it takes on, and what its report counts.
\<close>

definition admissible :: "calendar \<Rightarrow> recovery_coverage \<Rightarrow> persisted_record \<Rightarrow> bool" where
  "admissible C coverage r \<longleftrightarrow> recoverable_record r \<and> contains_complete_hour coverage (partition_timestamp_us r) \<and>
     partition_hour_key C (partition_timestamp_us r) \<noteq> invalid_partition"

lemma recovery_groups_exact:
  "case recovery_groups C coverage rs g of
     Inr g' \<Rightarrow> list_all (admissible C coverage) rs \<and> g' = fold (\<lambda>r. push_group (group_key C r) r) rs g
   | Inl e \<Rightarrow> \<not> list_all (admissible C coverage) rs \<and> (\<exists>m. e = UnsafeRecovery m)"
proof (induction rs arbitrary: g)
  case (Cons r rs)
  show ?case
  proof (cases "admissible C coverage r")
    case True
    with Cons.IH [of "push_group (group_key C r) r g"] show ?thesis by (simp add: admissible_def Let_def split: sum.splits)
  next
    case False
    then show ?thesis by (auto simp: admissible_def Let_def split: sum.splits)
  qed
qed simp

lemma for_each_length: "for_each xs f st = (st', Inr ys) \<Longrightarrow> length ys = length xs"
  by (induction xs arbitrary: st ys) (auto simp: andthen_def ret_def split: prod.splits sum.splits)

lemma for_each_fst:
  assumes "\<And>x st st' y. f x st = (st', Inr y) \<Longrightarrow> fst y = h x" "for_each xs f st = (st', Inr ys)"
  shows "map fst ys = map h xs"
  using assms(2)
proof (induction xs arbitrary: st ys)
  case (Cons x xs)
  then obtain st1 y zs where "f x st = (st1, Inr y)" "for_each xs f st1 = (st', Inr zs)" "ys = y # zs"
    by (auto simp: andthen_def ret_def split: prod.splits sum.splits)
  with Cons.IH assms(1) show ?case by simp
qed (simp add: ret_def)

lemma groups_total: "sum_list (map (\<lambda>e. length (snd e)) (batch_groups C rs)) = length rs"
proof -
  have step: "sum_list (map (\<lambda>e. length (snd e)) (push_group k r g)) = Suc (sum_list (map (\<lambda>e. length (snd e)) g))" if "bt_ok g" for k r g
    using bt.weight_put [OF that, of length k "(case bt_get g k of None \<Rightarrow> [] | Some rs \<Rightarrow> rs) @ [r]"]
    by (simp add: push_group_def split: option.splits)
  have "sum_list (map (\<lambda>e. length (snd e)) (fold (\<lambda>r. push_group (group_key C r) r) rs g)) =
      sum_list (map (\<lambda>e. length (snd e)) g) + length rs" if "bt_ok g" for g
    using that
  proof (induction rs arbitrary: g)
    case (Cons r rs)
    have "bt_ok (push_group (group_key C r) r g)" using Cons.prems by (simp add: push_group_def bt.ok_put)
    from Cons.IH [OF this] step [OF Cons.prems] show ?case by simp
  qed simp
  from this [of bt_empty] show ?thesis by (simp add: batch_groups_def) (simp add: bt_empty_def)
qed

text \<open>
  C14. A recovery takes on a batch entirely or not at all. If a record is of a dataset without coverage
  proof, of an hour the log does not fully cover, or of no plausible hour, the call fails with an unsafe
  recovery and the store is untouched; a call that returns has taken only admissible records and
  reports one partition for each dataset, asset and hour and every record once.
\<close>

theorem recovery_admission_exact:
  "case write_batch_replacing L base records coverage st of
     (st', Inr report) \<Rightarrow> list_all (admissible (pq_calendar L) coverage) records \<and>
       rp_partitions_published report = length (batch_groups (pq_calendar L) records) \<and> rp_records_published report = length records
   | (st', Inl e) \<Rightarrow> list_all (admissible (pq_calendar L) coverage) records \<or> st' = st \<and> (\<exists>m. e = Failed (UnsafeRecovery m))"
proof (cases "records = []")
  case True
  then show ?thesis by (simp add: write_batch_replacing_def ret_def batch_groups_def bt_empty_def)
next
  case False
  note exact = recovery_groups_exact [of "pq_calendar L" coverage records bt_empty]
  show ?thesis
  proof (cases "recovery_groups (pq_calendar L) coverage records bt_empty")
    case (Inl e)
    with exact False show ?thesis by (auto simp: write_batch_replacing_def of_result_def andthen_def stop_def)
  next
    case (Inr g)
    let ?run = "\<lambda>((dataset, asset, hour_key), rs). andthen (replace_group L base dataset asset hour_key rs coverage) (\<lambda>failures. ret (length rs, failures))"
    from Inr exact have g: "g = batch_groups (pq_calendar L) records" "list_all (admissible (pq_calendar L) coverage) records"
      by (simp_all add: batch_groups_def)
    have counts: "fst y = length (snd x)" if "?run x st = (st', Inr y)" for x st st' y
      using that by (auto simp: andthen_def ret_def split: prod.splits sum.splits)
    obtain st1 r where run: "for_each g ?run st = (st1, r)" by (cases "for_each g ?run st")
    show ?thesis
    proof (cases r)
      case (Inl e)
      then show ?thesis using False Inr run g(2) by (simp add: write_batch_replacing_def of_result_def andthen_def)
    next
      case (Inr ys)
      have "length ys = length g" using for_each_length run Inr by blast
      moreover have "map fst ys = map (\<lambda>e. length (snd e)) g" using for_each_fst [of ?run "\<lambda>e. length (snd e)"] counts run Inr by blast
      then have "sum_list (map fst ys) = length records" using groups_total g(1) by metis
      ultimately show ?thesis
        using False \<open>recovery_groups _ _ _ _ = Inr g\<close> run Inr g by (simp add: write_batch_replacing_def of_result_def andthen_def ret_def)
    qed
  qed
qed

end
