(* ===== verification/StoreRead.thy ===== *)
theory StoreRead
  imports Recovery ParquetSink BatchParts
begin

text \<open>
  Reading back what was written. A store that holds the files of batches is read, for an asset
  and a time range, as the records of these batches that are wanted: none is lost on the way
  through groups, file names, hours, listings and Parquet, and none is read twice.
\<close>

section \<open>The store as files of records\<close>

text \<open>Documented behaviour of the Parquet crates: a file carries the version of its schema and is
  read back in parts, consecutive slices of the batch written.\<close>

definition parquet_ok :: "'o parquet_lib \<Rightarrow> bool" where
  "parquet_ok L \<longleftrightarrow>
     (\<forall>s b x. pq_write L s b = Inr x \<longrightarrow> pq_version L x = Inr (sch_version s) \<and>
        (\<exists>ns. sum_list ns = rb_rows b \<and> 0 \<notin> set ns \<and> pq_batches L x = map Inr (batch_parts ns b)))"

definition store_laws :: "'o parquet_lib \<Rightarrow> string \<Rightarrow> bool" where
  "store_laws L base \<longleftrightarrow> path_laws L base \<and> calendar_ok (pq_calendar L) \<and> arrow_ok (pq_arrow L) \<and> json_ok (pq_arrow L) \<and> parquet_ok L"

text \<open>A group of records and the file it is written to.\<close>

definition group_stored :: "'o parquet_lib \<Rightarrow> string \<Rightarrow> persisted_record list \<Rightarrow> string \<Rightarrow> 'o \<Rightarrow> bool" where
  "group_stored L base g p x \<longleftrightarrow> g \<noteq> [] \<and> list_all record_valid g \<and>
     list_all (\<lambda>r. group_key (pq_calendar L) r = group_key (pq_calendar L) (hd g)) g \<and>
     (\<exists>name. encoded L g = Inr (x, name) \<and> p = file_path base (group_key (pq_calendar L) (hd g)) name)"

text \<open>\<open>holds L base F m\<close>: the objects of \<open>m\<close> are exactly the files \<open>F\<close>, given as paths and records.\<close>

definition holds :: "'o parquet_lib \<Rightarrow> string \<Rightarrow> (string \<times> persisted_record list) list \<Rightarrow> (string, 'o) hmap \<Rightarrow> bool" where
  "holds L base F m \<longleftrightarrow> distinct (map fst F) \<and> set (hm_keys m) = set (map fst F) \<and>
     (\<forall>(p, g)\<in>set F. \<exists>x. hm_get m p = Some x \<and> group_stored L base g p x)"

lemma group_one_dataset: "group_stored L base g p x \<Longrightarrow> one_dataset g"
  unfolding group_stored_def one_dataset_def list_all_iff by (metis fst_conv group_key_def)

section \<open>Reading a file\<close>

text \<open>An extractor reads the wanted records of its dataset.\<close>

definition extracts :: "'o parquet_lib \<Rightarrow> string \<Rightarrow> (persisted_record \<Rightarrow> bool) \<Rightarrow> ('a \<Rightarrow> persisted_record) \<Rightarrow>
    (record_batch \<Rightarrow> (replay_error + 'a list) option) \<Rightarrow> bool" where
  "extracts L dataset P tag ext \<longleftrightarrow>
     (\<forall>g b. g \<noteq> [] \<and> one_dataset g \<and> dataset_name (hd g) = dataset \<and> list_all record_valid g \<and>
        records_to_record_batch (pq_arrow L) g = Inr b \<longrightarrow>
        (\<exists>ys. ext b = Some (Inr ys) \<and> map tag ys = map stored_form (filter P g)))"

lemma read_parts:
  assumes ext: "extracts L dataset P tag ext" and
    "list_all2 (\<lambda>g b. g \<noteq> [] \<and> records_to_record_batch (pq_arrow L) g = Inr b) gs bs"
    "list_all record_valid (concat gs)" "list_all (\<lambda>r. dataset_name r = dataset) (concat gs)"
    "length acc + length (filter P (concat gs)) \<le> MAX_PARQUET_DATASET_ROWS"
  shows "\<exists>ys. read_batches ext (map Inr bs) acc = Some (Inr (acc @ ys)) \<and> map tag ys = map stored_form (filter P (concat gs))"
  using assms(2-)
proof (induction gs arbitrary: bs acc)
  case (Cons g gs)
  then obtain b bs' where bs: "bs = b # bs'" "g \<noteq> []" "records_to_record_batch (pq_arrow L) g = Inr b"
    and rest: "list_all2 (\<lambda>g b. g \<noteq> [] \<and> records_to_record_batch (pq_arrow L) g = Inr b) gs bs'"
    by (auto simp: list_all2_Cons1)
  have "one_dataset g" "dataset_name (hd g) = dataset" "list_all record_valid g"
    using Cons.prems(2,3) bs(2) by (auto simp: one_dataset_def list_all_iff)
  then obtain ys where ys: "ext b = Some (Inr ys)" "map tag ys = map stored_form (filter P g)"
    using ext bs(2,3) unfolding extracts_def by blast
  have len: "length ys = length (filter P g)" using arg_cong [OF ys(2), of length] by simp
  from Cons.IH [OF rest, of "acc @ ys"] Cons.prems(2-4) len obtain zs where
    zs: "read_batches ext (map Inr bs') (acc @ ys) = Some (Inr (acc @ ys @ zs))" "map tag zs = map stored_form (filter P (concat gs))"
    by auto
  have "read_batches ext (map Inr bs) acc = Some (Inr (acc @ ys @ zs))"
    using Cons.prems(4) len zs(1) by (simp add: bs(1) ys(1) and_then_Inr)
  with ys(2) zs(2) show ?case by auto
qed simp

lemma map_sum_Inr [simp]: "map_sum f id r = Inr x \<longleftrightarrow> r = Inr x"
  by (cases r) auto

lemma encoded_parts:
  assumes "encoded L g = Inr (x, name)"
  obtains b where "records_to_record_batch (pq_arrow L) g = Inr b" "pq_write L (schema_for_record (hd g)) b = Inr x"
proof -
  obtain r g' where g: "g = r # g'" using encoded_named [OF assms] by metis
  have "\<exists>b. records_to_record_batch (pq_arrow L) g = Inr b \<and> pq_write L (schema_for_record (hd g)) b = Inr x"
    using assms unfolding encoded_def encode_group_def g
    by (auto simp: andthen_def of_result_def ret_def stop_def split: sum.splits)
  then show thesis using that by blast
qed

lemma schema_version [simp]: "sch_version (schema_for_record r) = Some ''2''"
  by (cases r) (simp_all add: schema_defs PB_SCHEMA_VERSION_def)

lemma read_file:
  assumes laws: "store_laws L base" and g: "group_stored L base g p x" "hm_get (st_objects st) p = Some x"
    and ext: "extracts L (dataset_name (hd g)) P tag ext" and few: "length (filter P g) \<le> MAX_PARQUET_DATASET_ROWS"
  shows "\<exists>ys. read_parquet_file L ext p (calm st) = (calm st, Inr ys) \<and> map tag ys = map stored_form (filter P g)"
proof -
  obtain name where name: "encoded L g = Inr (x, name)" using g(1) by (auto simp: group_stored_def)
  obtain b where b: "records_to_record_batch (pq_arrow L) g = Inr b" "pq_write L (schema_for_record (hd g)) b = Inr x"
    using encoded_parts [OF name] .
  have ok: "arrow_ok (pq_arrow L)" "json_ok (pq_arrow L)" "parquet_ok L" using laws by (simp_all add: store_laws_def)
  have whole: "g \<noteq> []" "one_dataset g" "list_all record_valid g"
    using g(1) group_one_dataset [OF g(1)] by (simp_all add: group_stored_def)
  obtain ns where ns: "pq_version L x = Inr (Some ''2'')" "sum_list ns = rb_rows b" "0 \<notin> set ns" "pq_batches L x = map Inr (batch_parts ns b)"
    using ok(3) b(2) unfolding parquet_ok_def by fastforce
  obtain gs where gs: "concat gs = g" "list_all2 (\<lambda>g p. g \<noteq> [] \<and> records_to_record_batch (pq_arrow L) g = Inr p) gs (batch_parts ns b)"
    using parts_of_records [OF ok(1,2) whole b(1) ns(2,3)] by blast
  have "list_all (\<lambda>r. dataset_name r = dataset_name (hd g)) (concat gs)" using whole(2) gs(1) by (simp add: one_dataset_def)
  from read_parts [OF ext gs(2) _ this, of "[]"] gs(1) whole(3) few obtain ys where
    ys: "read_batches ext (map Inr (batch_parts ns b)) [] = Some (Inr ys)" "map tag ys = map stored_form (filter P g)" by auto
  have fetch: "call w (store_get p) (calm st) = (calm st, Inr x)" for w :: "object_error \<Rightarrow> replay_error"
    by (simp add: call_def calm_get g(2))
  have "read_parquet_file L ext p (calm st) = (calm st, Inr ys)"
    unfolding read_parquet_file_def
    by (simp add: andthen_def fetch ns(1,4) of_result_def check_schema_version_def EXPECTED_PARQUET_SCHEMA_VERSION_def
        ret_def of_outcome_def ys(1))
  with ys(2) show ?thesis by blast
qed

section \<open>Finding the files\<close>

lemma stored_path:
  assumes "group_stored L base g p x" "calendar_ok (pq_calendar L)"
  obtains name where "p = normal_dir base (dataset_name (hd g)) (partition_hour_key (pq_calendar L) (partition_timestamp_us (hd g))) @ CHR ''/'' # name"
    "\<exists>t h n. name = parquet_file_name (storage_key_for (asset_partition (hd g))) t h n" "segment_ok name"
proof -
  from assms(1) obtain name where n: "encoded L g = Inr (x, name)" "p = file_path base (group_key (pq_calendar L) (hd g)) name"
    by (auto simp: group_stored_def)
  have "\<exists>t h n. name = parquet_file_name (storage_key_for (asset_partition (hd g))) t h n"
    using encoded_named [OF n(1)] by (metis list.sel(1))
  with n(2) group_name_segment [OF n(1)] that show thesis
    by (auto simp: file_path_def group_dir_def group_key_def)
qed

lemma holds_key:
  assumes "holds L base F m" "p \<in> set (hm_keys m)"
  obtains g x where "(p, g) \<in> set F" "hm_get m p = Some x" "group_stored L base g p x"
  using assms by (fastforce simp: holds_def)

lemma child_hd_differ: "child base (c # r) = child base (c' # r') \<Longrightarrow> c = c'"
  by (simp add: child_inject)

lemma dataset_first: "\<exists>c r. dataset_name x = c # r \<and> c \<noteq> CHR ''_''"
  by (cases x) auto

lemma no_manifests:
  assumes "holds L base F m" "calendar_ok (pq_calendar L)" "p \<in> set (hm_keys m)"
  shows "p \<noteq> manifest_at base d k h" and "\<not> under (child base (PARQUET_RECOVERY_MANIFEST_PREFIX @ ''/'' @ d @ ''/'' @ h)) p"
proof -
  obtain g x where g: "group_stored L base g p x" using holds_key [OF assms(1,3)] by metis
  obtain name where p: "p = normal_dir base (dataset_name (hd g)) (partition_hour_key (pq_calendar L) (partition_timestamp_us (hd g))) @ CHR ''/'' # name"
    using stored_path [OF g assms(2)] by metis
  obtain c r where "dataset_name (hd g) = c # r" "c \<noteq> CHR ''_''" using dataset_first by blast
  then obtain rest where c: "p = child base (c # rest)" "c \<noteq> CHR ''_''"
    using p by (simp add: normal_dir_def child_append [symmetric])
  show "p \<noteq> manifest_at base d k h"
  proof
    assume "p = manifest_at base d k h"
    then have "child base (c # rest) = child base (CHR ''_'' # tl PARQUET_RECOVERY_MANIFEST_PREFIX @ ''/'' @ d @ ''/'' @ h @ ''/'' @ k @ ''.json'')"
      using c(1) by (simp add: manifest_at_def PARQUET_RECOVERY_MANIFEST_PREFIX_def)
    with c(2) child_hd_differ show False by blast
  qed
  show "\<not> under (child base (PARQUET_RECOVERY_MANIFEST_PREFIX @ ''/'' @ d @ ''/'' @ h)) p"
  proof
    assume "under (child base (PARQUET_RECOVERY_MANIFEST_PREFIX @ ''/'' @ d @ ''/'' @ h)) p"
    then obtain q where "p = child base (PARQUET_RECOVERY_MANIFEST_PREFIX @ ''/'' @ d @ ''/'' @ h) @ CHR ''/'' # q"
      by (auto simp: under_iff)
    then have "child base (c # rest) = child base (CHR ''_'' # tl PARQUET_RECOVERY_MANIFEST_PREFIX @ ''/'' @ d @ ''/'' @ h @ CHR ''/'' # q)"
      unfolding c(1) [symmetric] by (simp add: child_def PARQUET_RECOVERY_MANIFEST_PREFIX_def)
    with c(2) child_hd_differ show False by blast
  qed
qed

definition hour_listing :: "string \<Rightarrow> string option \<Rightarrow> string \<Rightarrow> string \<Rightarrow> (string, 'o) hmap \<Rightarrow> string list" where
  "hour_listing base ap dataset h m = filter (listed_file_wanted ap) (filter (under (normal_dir base dataset h)) (hm_keys m))"

lemma add_hour_plain:
  assumes "store_laws (re_lib R) (re_base R)" "holds (re_lib R) (re_base R) F (st_objects st)" "site dataset h"
  shows "add_hour_files R dataset ap (normal_dir (re_base R) dataset h) files (calm st) =
    (calm st, Inr (files @ hour_listing (re_base R) ap dataset h (st_objects st)))"
proof -
  have laws: "path_laws (re_lib R) (re_base R)" "calendar_ok (pq_calendar (re_lib R))" using assms(1) by (simp_all add: store_laws_def)
  note none = no_manifests [OF assms(2) laws(2)]
  have "recovery_manifests R dataset (normal_dir (re_base R) dataset h) ap (calm st) = (calm st, Inr [])"
  proof (cases ap)
    case (Some a)
    have "hm_get (st_objects st) (manifest_at (re_base R) dataset (storage_key_for a) h) = None"
      using none(1) by (metis hm_key_iff)
    then show ?thesis using manifests_seen [OF laws(1) assms(3) refl refl refl, of a st] Some by simp
  next
    case None
    have "filter (under (child (re_base R) (PARQUET_RECOVERY_MANIFEST_PREFIX @ ''/'' @ dataset @ ''/'' @ h))) (hm_keys (st_objects st)) = []"
      using none(2) by (simp add: filter_empty_conv)
    then show ?thesis
      unfolding recovery_manifests_def Let_def hour_key_of_dir [OF assms(3)] site_paths [OF laws(1) assms(3)] andthen_ret None option.case
      by (simp add: andthen_def call_def calm_list ret_def)
  qed
  then show ?thesis
    unfolding add_hour_files_def
    by (simp add: andthen_def call_def calm_list Let_def ret_def hour_listing_def)
qed

lemma add_hours_plain:
  assumes "store_laws (re_lib R) (re_base R)" "holds (re_lib R) (re_base R) F (st_objects st)" "\<And>h. h \<in> set hs \<Longrightarrow> site dataset h"
  shows "add_hours R dataset ap (map (normal_dir (re_base R) dataset) hs) files (calm st) =
    (calm st, Inr (files @ concat (map (\<lambda>h. hour_listing (re_base R) ap dataset h (st_objects st)) hs)))"
  using assms(3)
proof (induction hs arbitrary: files)
  case (Cons h hs)
  then show ?case using add_hour_plain [OF assms(1,2)] by (simp add: andthen_def)
qed (simp add: ret_def)

lemma for_each_ret: "(\<And>x. x \<in> set xs \<Longrightarrow> f x = ret (g x)) \<Longrightarrow> for_each xs f = ret (map g xs)"
  by (induction xs) simp_all

lemma hours_from_range: "h \<in> set (hours_from a b) \<Longrightarrow> a \<le> h \<and> h \<le> b"
proof (induction a b rule: hours_from.induct)
  case (1 a b)
  then show ?case by (subst (asm) (2) hours_from.simps) (fastforce split: if_splits)
qed

lemma hour_sites:
  assumes "calendar_ok C" "plain dataset" "hd dataset \<noteq> CHR ''_''" "start_us \<le> end_us" "end_us \<le> MAX_PLAUSIBLE_PARTITION_US"
    "h \<in> set (hour_keys C start_us end_us)"
  shows "site dataset h"
proof -
  have le: "start_us \<le> MAX_PLAUSIBLE_PARTITION_US" using assms(4,5) by order
  obtain s where s: "h = hour_text C s" "s \<in> set (hours_from (int (unat start_us div 1000000) - int (unat start_us div 1000000) mod 3600) (int (unat end_us div 1000000)))"
    using assms(6) unfolding hour_keys_def Let_def read_second_plausible [OF assms(1,5)] read_second_plausible [OF assms(1) le] by auto
  have "0 \<le> int (unat start_us div 1000000) - int (unat start_us div 1000000) mod 3600"
    using minus_mod_eq_mult_div [of "int (unat start_us div 1000000)" 3600] by simp
  moreover have "unat end_us \<le> 10000000000000000" using assms(5) by (simp add: MAX_PLAUSIBLE_PARTITION_US_def word_le_nat_alt)
  then have "unat end_us div 1000000 \<le> 10000000000000000 div 1000000" by (rule div_le_mono)
  ultimately have "0 \<le> s" "s \<le> 10000000000" using hours_from_range [OF s(2)] by simp_all
  then show ?thesis using plain_hour_text [OF assms(1)] assms(2,3) s(1) by (simp add: site_def)
qed

lemma files_found:
  assumes "store_laws (re_lib R) (re_base R)" "holds (re_lib R) (re_base R) F (st_objects st)"
    and "plain dataset" "hd dataset \<noteq> CHR ''_''" "start_us \<le> end_us" "end_us \<le> MAX_PLAUSIBLE_PARTITION_US"
  shows "\<exists>ps. dataset_files R dataset ap start_us end_us (calm st) = (calm st, Inr ps) \<and> distinct ps \<and>
    set ps = (\<Union>h\<in>set (hour_keys (pq_calendar (re_lib R)) start_us end_us). set (hour_listing (re_base R) ap dataset h (st_objects st)))"
proof -
  have laws: "path_laws (re_lib R) (re_base R)" "calendar_ok (pq_calendar (re_lib R))" using assms(1) by (simp_all add: store_laws_def)
  let ?hs = "hour_keys (pq_calendar (re_lib R)) start_us end_us"
  note sites = hour_sites [OF laws(2) assms(3-6)]
  have dirs: "hour_paths R dataset start_us end_us = ret (map (normal_dir (re_base R) dataset) ?hs)"
    unfolding hour_paths_def by (rule for_each_ret) (use site_paths(1) [OF laws(1) sites] in simp)
  let ?fs = "concat (map (\<lambda>h. hour_listing (re_base R) ap dataset h (st_objects st)) ?hs)"
  have "dataset_files R dataset ap start_us end_us (calm st) = (calm st, Inr (remdups_adj (sort ?fs)))"
    unfolding dataset_files_def dirs andthen_ret
    using add_hours_plain [OF assms(1,2) sites, where files = "[]" and ap = ap] by (simp add: andthen_def ret_def)
  then show ?thesis unfolding dedup_sorted by (intro exI [of _ "sorted_list_of_set (set ?fs)"]) simp
qed

section \<open>Reading a dataset\<close>

text \<open>The file filter of a read: by asset, except for ingest events, which concern every asset.\<close>

definition filter_fits :: "string option \<Rightarrow> asset_id \<Rightarrow> string \<Rightarrow> bool" where
  "filter_fits ap a dataset \<longleftrightarrow> (case ap of None \<Rightarrow> True | Some b \<Rightarrow> b = a \<and> a \<noteq> [] \<and> dataset \<noteq> ''ingest_events'')"

lemma concerns_partition: "concerns a r \<Longrightarrow> dataset_name r \<noteq> ''ingest_events'' \<Longrightarrow> asset_partition r = a"
  by (cases r) auto

lemma file_name_suffix: "ends_with ''.parquet'' (parquet_file_name k t h n)"
proof -
  have "parquet_file_name k t h n = (k @ ''_'' @ dec (unat t) @ ''_'' @ hex_lower 16 (unat h) @ ''_'' @ dec n) @ ''.parquet''"
    by (simp add: parquet_file_name_def)
  then show ?thesis unfolding ends_with_def by (metis strip_suffix_append option.distinct(1))
qed

lemma wanted_file_listed:
  assumes "store_laws L base" "group_stored L base g p x" "hm_get m p = Some x"
    and r: "r \<in> set g" "wanted a start_us end_us r" "dataset_name r = dataset"
    and fits: "filter_fits ap a dataset" and "MIN_PLAUSIBLE_PARTITION_US \<le> start_us" "end_us \<le> MAX_PLAUSIBLE_PARTITION_US"
  shows "p \<in> (\<Union>h\<in>set (hour_keys (pq_calendar L) start_us end_us). set (hour_listing base ap dataset h m))"
proof -
  have C: "calendar_ok (pq_calendar L)" using assms(1) by (simp add: store_laws_def)
  let ?h = "partition_hour_key (pq_calendar L) (partition_timestamp_us r)"
  have same: "group_key (pq_calendar L) r = group_key (pq_calendar L) (hd g)"
    using assms(2) r(1) unfolding group_stored_def list_all_iff by blast
  then have hd: "dataset_name (hd g) = dataset" "partition_hour_key (pq_calendar L) (partition_timestamp_us (hd g)) = ?h"
    "storage_key_for (asset_partition (hd g)) = storage_key_for (asset_partition r)"
    using r(3) by (simp_all add: group_key_def)
  obtain name where p: "p = normal_dir base dataset ?h @ CHR ''/'' # name"
    and name: "\<exists>t h n. name = parquet_file_name (storage_key_for (asset_partition r)) t h n" "segment_ok name"
    using stored_path [OF assms(2) C] hd by metis
  have ts: "start_us \<le> partition_timestamp_us r" "partition_timestamp_us r \<le> end_us"
    using r(2) by (simp_all add: wanted_def in_range_def)
  have "?h \<in> set (hour_keys (pq_calendar L) start_us end_us)"
    by (rule partition_visited [OF C ts]) (use ts assms(8,9) in order)+
  moreover have "listed_file_wanted ap p"
  proof -
    have last: "path_filename p = Some name"
      unfolding path_filename_def p using last_segment_append [OF segment_no_slash [OF name(2)]] by simp
    have suffix: "ends_with ''.parquet'' name" using name(1) file_name_suffix by metis
    show ?thesis
    proof (cases ap)
      case None
      then show ?thesis using last suffix by (simp add: listed_file_wanted_def)
    next
      case (Some b)
      then have "b = a" "a \<noteq> []" "asset_partition r = a"
        using fits r(2,3) concerns_partition by (simp_all add: filter_fits_def wanted_def)
      then have "storage_object_file_matches_asset name (storage_key_for b)"
        using name(1) parquet_file_name_key [of "storage_key_for a"] component_matches_key
        by (auto simp: storage_object_file_matches_asset_def)
      then show ?thesis using Some last suffix by (simp add: listed_file_wanted_def)
    qed
  qed
  moreover have "under (normal_dir base dataset ?h) p" using p name(2) by (simp add: under_iff segment_ok_def)
  ultimately show ?thesis using assms(3) by (auto simp: hour_listing_def hm_key_iff)
qed

lemma listed_dataset:
  assumes "calendar_ok (pq_calendar L)" "group_stored L base g p x" "CHR ''/'' \<notin> set dataset" "under (normal_dir base dataset h) p"
  shows "dataset_name (hd g) = dataset"
proof -
  obtain name where p: "p = normal_dir base (dataset_name (hd g)) (partition_hour_key (pq_calendar L) (partition_timestamp_us (hd g))) @ CHR ''/'' # name"
    using stored_path [OF assms(2,1)] by metis
  obtain rest where "p = normal_dir base dataset h @ CHR ''/'' # rest" using assms(4) by (auto simp: under_iff)
  with p have "dataset_name (hd g) @ CHR ''/'' # (partition_hour_key (pq_calendar L) (partition_timestamp_us (hd g)) @ CHR ''/'' # name) =
      dataset @ CHR ''/'' # (h @ CHR ''/'' # rest)"
    by (simp add: normal_dir_def child_append [symmetric] child_inject)
  from split_at_first [OF dataset_no_slash assms(3) this] show ?thesis by simp
qed

lemma fold_files_all:
  assumes "\<And>p. p \<in> set ps \<Longrightarrow> read p (calm st) = (calm st, Inr (rows p))"
    "length acc + length (concat (map rows ps)) \<le> MAX_PARQUET_DATASET_ROWS"
  shows "fold_files read ps acc (calm st) = (calm st, Inr (acc @ concat (map rows ps)))"
  using assms
proof (induction ps arbitrary: acc)
  case (Cons p ps)
  then show ?case using Cons.IH [of "acc @ rows p"] by (simp add: andthen_def)
qed (simp add: ret_def)

text \<open>The rows of the listed files are the wanted records of the store, each once.\<close>

lemma wanted_rows:
  assumes "distinct (map fst F)" "distinct ps" "set ps \<subseteq> set (map fst F)"
    and "\<And>p g. (p, g) \<in> set F \<Longrightarrow> p \<in> set ps \<Longrightarrow> filter Q g = filter P g"
    and "\<And>p g. (p, g) \<in> set F \<Longrightarrow> p \<notin> set ps \<Longrightarrow> filter Q g = []"
  shows "(\<Sum>p\<leftarrow>ps. mset (filter P (the (map_of F p)))) = mset (filter Q (concat (map snd F)))"
proof -
  let ?G = "\<lambda>p. the (map_of F p)"
  have G: "?G p = g" if "(p, g) \<in> set F" for p g using that assms(1) by simp
  have F: "(p, ?G p) \<in> set F" if "p \<in> set (map fst F)" for p using that G by auto
  have inside: "filter P (?G p) = filter Q (?G p)" if "p \<in> set ps" for p
    using assms(3,4) that F by (metis subsetD)
  have outside: "filter Q (?G p) = []" if "p \<in> set (map fst F) - set ps" for p
    using assms(5) that F by (metis Diff_iff)
  have "(\<Sum>p\<leftarrow>ps. mset (filter P (?G p))) = (\<Sum>p\<in>set ps. mset (filter P (?G p)))"
    using assms(2) by (simp add: sum_list_distinct_conv_sum_set)
  also have "\<dots> = (\<Sum>p\<in>set ps. mset (filter Q (?G p)))"
    by (rule sum.cong) (simp_all add: inside)
  also have "\<dots> = (\<Sum>p\<in>set (map fst F). mset (filter Q (?G p)))"
    by (rule sum.mono_neutral_left) (use assms(3) outside in simp_all)
  also have "\<dots> = (\<Sum>p\<leftarrow>map fst F. mset (filter Q (?G p)))"
    using assms(1) by (simp only: sum_list_distinct_conv_sum_set)
  also have "\<dots> = (\<Sum>e\<leftarrow>F. mset (filter Q (snd e)))"
  proof -
    have "map (\<lambda>p. mset (filter Q (?G p))) (map fst F) = map (\<lambda>e. mset (filter Q (snd e))) F"
      unfolding map_map by (rule map_cong) (use G in auto)
    then show ?thesis by (rule arg_cong)
  qed
  also have "\<dots> = mset (filter Q (concat (map snd F)))"
    by (induction F) auto
  finally show ?thesis .
qed

lemma dataset_read:
  assumes laws: "store_laws (re_lib R) (re_base R)" and holds: "holds (re_lib R) (re_base R) F (st_objects st)"
    and order: "\<And>ps. mset (re_order R ps) = mset ps"
    and ds: "plain dataset" "hd dataset \<noteq> CHR ''_''" "CHR ''/'' \<notin> set dataset"
    and range: "MIN_PLAUSIBLE_PARTITION_US \<le> start_us" "start_us \<le> end_us" "end_us \<le> MAX_PLAUSIBLE_PARTITION_US"
    and ext: "extracts (re_lib R) dataset (wanted a start_us end_us) tag ext" and fits: "filter_fits ap a dataset"
    and few: "length (filter (\<lambda>r. dataset_name r = dataset \<and> wanted a start_us end_us r) (concat (map snd F))) \<le> MAX_PARQUET_DATASET_ROWS"
  shows "\<exists>ps ys. dataset_files R dataset ap start_us end_us (calm st) = (calm st, Inr ps) \<and>
    read_parquet_files R ext ps (calm st) = (calm st, Inr ys) \<and>
    mset (map tag ys) = mset (map stored_form (filter (\<lambda>r. dataset_name r = dataset \<and> wanted a start_us end_us r) (concat (map snd F))))"
proof -
  let ?L = "re_lib R" and ?b = "re_base R" and ?m = "st_objects st"
  let ?P = "wanted a start_us end_us"
  let ?Q = "\<lambda>r. dataset_name r = dataset \<and> ?P r"
  let ?G = "\<lambda>p. the (map_of F p)"
  have C: "calendar_ok (pq_calendar ?L)" using laws by (simp add: store_laws_def)
  obtain ps where ps: "dataset_files R dataset ap start_us end_us (calm st) = (calm st, Inr ps)" "distinct ps"
    "set ps = (\<Union>h\<in>set (hour_keys (pq_calendar ?L) start_us end_us). set (hour_listing ?b ap dataset h ?m))"
    using files_found [OF laws holds ds(1,2) range(2,3)] by blast
  have F: "distinct (map fst F)" using holds by (simp add: holds_def)
  have stored: "\<exists>x. hm_get ?m p = Some x \<and> group_stored ?L ?b g p x" if "(p, g) \<in> set F" for p g
    using holds that unfolding holds_def by blast
  have listed: "p \<in> set (map fst F)" and under_some: "\<exists>h. under (normal_dir ?b dataset h) p" if "p \<in> set ps" for p
    using that ps(3) holds by (auto simp: hour_listing_def holds_def)
  have whole: "dataset_name (hd g) = dataset" if "(p, g) \<in> set F" "p \<in> set ps" for p g
    using listed_dataset [OF C _ ds(3)] stored [OF that(1)] under_some [OF that(2)] by blast
  have G: "(p, ?G p) \<in> set F" if "p \<in> set ps" for p
    using listed(1) [OF that] F by (auto simp: image_iff)
  have all_ds: "dataset_name r = dataset" if "(p, g) \<in> set F" "p \<in> set ps" "r \<in> set g" for p g r
  proof -
    note mem = that
    obtain x where "group_stored ?L ?b g p x" using stored [OF mem(1)] by blast
    then have "one_dataset g" by (rule group_one_dataset)
    then show ?thesis using whole [OF mem(1,2)] mem(3) by (simp add: one_dataset_def list_all_iff)
  qed
  have inside: "filter ?Q g = filter ?P g" if "(p, g) \<in> set F" "p \<in> set ps" for p g
    using all_ds [OF that] by (intro filter_cong) auto
  have outside: "filter ?Q g = []" if "(p, g) \<in> set F" "p \<notin> set ps" for p g
  proof -
    note mem = that
    obtain x where x: "hm_get ?m p = Some x" "group_stored ?L ?b g p x" using stored [OF mem(1)] by blast
    have "\<not> ?Q r" if "r \<in> set g" for r
      using wanted_file_listed [OF laws x(2,1) that _ _ fits range(1,3)] mem(2) ps(3) by blast
    then show ?thesis by (simp add: filter_empty_conv)
  qed
  have sum: "(\<Sum>p\<leftarrow>ps. mset (filter ?P (?G p))) = mset (filter ?Q (concat (map snd F)))"
    using listed(1) by (intro wanted_rows [OF F ps(2)] inside outside) auto
  have perm: "mset (concat (map (\<lambda>p. filter ?P (?G p)) (re_order R ps))) = mset (filter ?Q (concat (map snd F)))"
  proof -
    have "mset (concat (map f qs)) = (\<Sum>q\<leftarrow>qs. mset (f q))" for f :: "string \<Rightarrow> persisted_record list" and qs
      by (induction qs) simp_all
    then have "mset (concat (map (\<lambda>p. filter ?P (?G p)) (re_order R ps))) = (\<Sum>p\<leftarrow>re_order R ps. mset (filter ?P (?G p)))" by simp
    also have "\<dots> = (\<Sum>p\<leftarrow>ps. mset (filter ?P (?G p)))"
      by (simp only: sum_mset_sum_list [symmetric] mset_map order)
    finally show ?thesis using sum by simp
  qed
  have len: "length (concat (map (\<lambda>p. filter ?P (?G p)) (re_order R ps))) \<le> MAX_PARQUET_DATASET_ROWS"
    using few mset_eq_length [OF perm] by (simp only:)
  have piece: "\<exists>ys. read_parquet_file ?L ext p (calm st) = (calm st, Inr ys) \<and> map tag ys = map stored_form (filter ?P (?G p))"
    if "p \<in> set (re_order R ps)" for p
  proof -
    have p: "p \<in> set ps" using that order [of ps] by (metis mset_eq_setD)
    obtain x where x: "hm_get ?m p = Some x" "group_stored ?L ?b (?G p) p x" using stored [OF G [OF p]] by blast
    have "length (filter ?P (?G p)) \<le> length (concat (map (\<lambda>p. filter ?P (?G p)) (re_order R ps)))"
      using that by (simp add: length_concat comp_def member_le_sum_list)
    with len have "length (filter ?P (?G p)) \<le> MAX_PARQUET_DATASET_ROWS" by (rule order_trans [rotated])
    then show ?thesis using read_file [OF laws x(2,1)] ext whole [OF G [OF p] p] by simp
  qed
  then obtain rows where rows: "read_parquet_file ?L ext p (calm st) = (calm st, Inr (rows p)) \<and>
      map tag (rows p) = map stored_form (filter ?P (?G p))" if "p \<in> set (re_order R ps)" for p
    by metis
  let ?ys = "concat (map rows (re_order R ps))"
  have tags: "map tag ?ys = map stored_form (concat (map (\<lambda>p. filter ?P (?G p)) (re_order R ps)))"
    unfolding map_concat map_map using rows by (intro arg_cong [where f = concat] map_cong) auto
  then have "length ?ys \<le> MAX_PARQUET_DATASET_ROWS" using len by (metis length_map)
  then have "read_parquet_files R ext ps (calm st) = (calm st, Inr ?ys)"
    unfolding read_parquet_files_def using fold_files_all [of "re_order R ps" "read_parquet_file ?L ext" st rows "[]"] rows by simp
  moreover have "mset (map tag ?ys) = mset (map stored_form (filter ?Q (concat (map snd F))))"
    unfolding tags mset_map [of stored_form] perm ..
  ultimately show ?thesis using ps(1) by blast
qed

section \<open>The extractors\<close>

lemma extractors:
  assumes "store_laws L base"
  shows "extracts L ''book_events'' (wanted a s t) Book (\<lambda>b. extract_book_events b a s t)"
    and "extracts L ''trade_events'' (wanted a s t) Trade (\<lambda>b. extract_trade_events b a s t)"
    and "extracts L ''ingest_events'' (wanted a s t) Ingest (\<lambda>b. extract_ingest_events b a s t)"
    and "extracts L ''book_checkpoints'' (wanted a s t) Checkpoint (\<lambda>b. extract_checkpoints (pq_arrow L) b a s t)"
    and "extracts L ''replay_validations'' (wanted a s t) Validation (\<lambda>b. extract_validations b a s t)"
proof -
  have rows: "extract_rows (hd g) (pq_arrow L) b a s t = Some (Inr (map stored_form (filter (wanted a s t) g)))"
    if "g \<noteq> []" "one_dataset g" "list_all record_valid g" "records_to_record_batch (pq_arrow L) g = Inr b" for g b
    using stored_rows [OF _ _ that(1-3), of "pq_arrow L" a s t] that(4) assms by (auto simp: store_laws_def)
  have lift: "extracts L d (wanted a s t) tag ext"
    if "\<And>r b. dataset_name r = d \<Longrightarrow> extract_rows r (pq_arrow L) b a s t = map_option (map_sum id (map tag)) (ext b)" for d tag ext
    unfolding extracts_def
  proof (intro allI impI)
    fix g b assume g: "g \<noteq> [] \<and> one_dataset g \<and> dataset_name (hd g) = d \<and> list_all record_valid g \<and> records_to_record_batch (pq_arrow L) g = Inr b"
    then have "map_option (map_sum id (map tag)) (ext b) = Some (Inr (map stored_form (filter (wanted a s t) g)))"
      using rows [of g b] that [of "hd g" b] by simp
    then show "\<exists>ys. ext b = Some (Inr ys) \<and> map tag ys = map stored_form (filter (wanted a s t) g)"
      by (cases "ext b") (auto simp: map_sum_id_Inr)
  qed
  show "extracts L ''book_events'' (wanted a s t) Book (\<lambda>b. extract_book_events b a s t)"
    and "extracts L ''trade_events'' (wanted a s t) Trade (\<lambda>b. extract_trade_events b a s t)"
    and "extracts L ''ingest_events'' (wanted a s t) Ingest (\<lambda>b. extract_ingest_events b a s t)"
    and "extracts L ''book_checkpoints'' (wanted a s t) Checkpoint (\<lambda>b. extract_checkpoints (pq_arrow L) b a s t)"
    and "extracts L ''replay_validations'' (wanted a s t) Validation (\<lambda>b. extract_validations b a s t)"
    by (rule lift, auto simp: dataset_eq)+
qed

section \<open>A store of batches\<close>

definition batch_rows_files :: "'o parquet_lib \<Rightarrow> string \<Rightarrow> persisted_record list \<Rightarrow> (string \<times> persisted_record list) list" where
  "batch_rows_files L base rs = map (\<lambda>(k, g). (case encoded L g of Inl _ \<Rightarrow> [] | Inr (_, name) \<Rightarrow> file_path base k name, g))
     (batch_groups (pq_calendar L) rs)"

lemma encodable_group: "encodable L rs \<Longrightarrow> (k, g) \<in> set (batch_groups (pq_calendar L) rs) \<Longrightarrow> \<exists>x. encoded L g = Inr x"
  unfolding encodable_def list_all_iff by (fastforce split: sum.splits)

lemma batch_rows_paths:
  assumes "encodable L rs"
  shows "map fst (batch_rows_files L base rs) = map fst (batch_files L base rs)"
proof -
  have "map fst (map (\<lambda>(k, g). (case encoded L g of Inl _ \<Rightarrow> [] | Inr (_, name) \<Rightarrow> file_path base k name, g)) gs) =
      map fst (List.map_filter (group_file L base) gs)" if "set gs \<subseteq> set (batch_groups (pq_calendar L) rs)" for gs
    using that
  proof (induction gs)
    case (Cons e gs)
    obtain k g where e: "e = (k, g)" by (cases e)
    obtain x name where "encoded L g = Inr (x, name)" using encodable_group [OF assms, of k g] Cons.prems e by auto
    with Cons show ?case by (simp add: e List.map_filter_simps group_file_def)
  qed (simp add: List.map_filter_simps)
  then show ?thesis by (simp add: batch_rows_files_def batch_files_def)
qed

lemma batch_rows_stored:
  assumes "encodable L rs" "list_all record_valid rs" "(p, g) \<in> set (batch_rows_files L base rs)"
  obtains x where "(p, x) \<in> set (batch_files L base rs)" "group_stored L base g p x"
proof -
  from assms(3) obtain k where k: "(k, g) \<in> set (batch_groups (pq_calendar L) rs)"
    "p = (case encoded L g of Inl _ \<Rightarrow> [] | Inr (_, name) \<Rightarrow> file_path base k name)"
    by (auto simp: batch_rows_files_def)
  obtain x name where enc: "encoded L g = Inr (x, name)" using encodable_group [OF assms(1) k(1)] by auto
  have g: "g = group_of (pq_calendar L) rs k" "g \<noteq> []" using k(1) by (auto simp: batch_groups_mem)
  have keys: "group_key (pq_calendar L) r = k" "r \<in> set rs" if "r \<in> set g" for r
    using that g(1) by (auto simp: group_of_mem)
  have "(p, x) \<in> set (batch_files L base rs)" unfolding batch_files_mem using k(2) enc g
    by (intro exI [of _ k] exI [of _ name]) simp
  moreover have "group_stored L base g p x"
    using g(2) keys assms(2) enc k(2) hd_in_set [OF g(2)] by (auto simp: group_stored_def list_all_iff)
  ultimately show thesis using that by blast
qed

lemma mset_partition:
  assumes "finite K" "key ` set rs \<subseteq> K"
  shows "(\<Sum>k\<in>K. mset (filter (\<lambda>r. key r = k) rs)) = mset rs"
  using assms(2)
proof (induction rs)
  case (Cons r rs)
  have "mset (filter (\<lambda>r. key r = k) (r # rs)) = (if key r = k then {#r#} else {#}) + mset (filter (\<lambda>r. key r = k) rs)" for k by simp
  then have "(\<Sum>k\<in>K. mset (filter (\<lambda>r. key r = k) (r # rs))) =
      (\<Sum>k\<in>K. if key r = k then {#r#} else {#}) + (\<Sum>k\<in>K. mset (filter (\<lambda>r. key r = k) rs))"
    by (simp only: sum.distrib)
  with Cons assms(1) show ?case by simp
qed simp

lemma batch_rows_all: "mset (concat (map snd (batch_rows_files L base rs))) = mset rs"
proof -
  let ?C = "pq_calendar L"
  let ?gs = "batch_groups ?C rs"
  have "mset (concat (map snd (batch_rows_files L base rs))) = (\<Sum>e\<leftarrow>?gs. mset (snd e))"
    unfolding batch_rows_files_def by (induction ?gs) (auto simp: comp_def case_prod_beta mset_concat)
  also have "\<dots> = (\<Sum>e\<leftarrow>?gs. mset (group_of ?C rs (fst e)))"
    by (rule arg_cong [where f = sum_list], rule map_cong) (auto simp: batch_groups_mem)
  also have "\<dots> = (\<Sum>k\<leftarrow>map fst ?gs. mset (group_of ?C rs k))" by (simp add: comp_def)
  also have "\<dots> = (\<Sum>k\<in>set (map fst ?gs). mset (group_of ?C rs k))"
    by (rule sum_list_distinct_conv_sum_set) (rule batch_groups_distinct)
  also have "\<dots> = mset rs"
    unfolding group_of_def
  proof (rule mset_partition)
    show "group_key ?C ` set rs \<subseteq> set (map fst ?gs)"
    proof
      fix k assume "k \<in> group_key ?C ` set rs"
      then have "group_of ?C rs k \<noteq> []" by (auto simp: group_of_def filter_empty_conv)
      then have "(k, group_of ?C rs k) \<in> set ?gs" by (simp add: batch_groups_mem)
      then show "k \<in> set (map fst ?gs)" by force
    qed
  qed simp
  finally show ?thesis .
qed

text \<open>Valid records can always be encoded, and the files of one batch have different names.\<close>

lemma encodable_valid:
  assumes "store_laws L base" "list_all record_valid rs" "\<And>s b. rb_rows b \<noteq> 0 \<Longrightarrow> \<exists>x. pq_write L s b = Inr x"
  shows "encodable L rs"
  unfolding encodable_def list_all_iff
proof (rule ballI, clarify)
  fix d a h g assume "((d, a, h), g) \<in> set (batch_groups (pq_calendar L) rs)"
  then have g: "g = group_of (pq_calendar L) rs (d, a, h)" "g \<noteq> []" by (auto simp: batch_groups_mem)
  have laws: "arrow_ok (pq_arrow L)" "json_ok (pq_arrow L)" using assms(1) by (simp_all add: store_laws_def)
  have valid: "list_all record_valid g" using assms(2) by (simp add: g(1) group_of_def list_all_iff)
  have "dataset_name r = d" if "r \<in> set g" for r
    using that unfolding g(1) group_of_mem by (simp add: group_key_def)
  then have one: "one_dataset g" using hd_in_set [OF g(2)] by (simp add: one_dataset_def list_all_iff)
  obtain b where b: "records_to_record_batch (pq_arrow L) g = Inr b" using stored_rows [OF laws g(2) one valid] by blast
  obtain x where x: "pq_write L (schema_for_record (hd g)) b = Inr x"
    using assms(3) batch_rows(1) [OF laws g(2) one valid b] g(2) by (metis length_0_conv)
  show "case encoded L g of Inl _ \<Rightarrow> False | Inr _ \<Rightarrow> True"
    using b x g(2) by (cases g) (simp_all add: encoded_def encode_group_def of_result_def ret_def)
qed

lemma batch_files_distinct: "distinct (map fst (batch_files L base rs))"
proof -
  have "distinct (map fst (List.map_filter (group_file L base) gs))"
    if "set gs \<subseteq> set (batch_groups (pq_calendar L) rs)" "distinct (map fst gs)" for gs
    using that
  proof (induction gs)
    case (Cons e gs)
    obtain k g where e: "e = (k, g)" by (cases e)
    show ?case
    proof (cases "group_file L base e")
      case None
      with Cons show ?thesis by (simp add: List.map_filter_simps)
    next
      case (Some f)
      obtain p x where f: "f = (p, x)" by (cases f)
      have "p \<notin> fst ` set (List.map_filter (group_file L base) gs)"
      proof
        assume "p \<in> fst ` set (List.map_filter (group_file L base) gs)"
        then obtain k' g' y where e': "(k', g') \<in> set gs" "group_file L base (k', g') = Some (p, y)"
          by (auto simp: map_filter_def)
        obtain n n' where n: "encoded L g = Inr (x, n)" "p = file_path base k n" "encoded L g' = Inr (y, n')" "p = file_path base k' n'"
          using Some e'(2) unfolding e f group_file_Some by blast
        have "g = group_of (pq_calendar L) rs k" "g' = group_of (pq_calendar L) rs k'"
          using Cons.prems(1) e e'(1) by (auto simp: batch_groups_mem)
        then have "k = k'" using group_paths_differ [of L "pq_calendar L" rs k x n k' y n' base] n by simp
        with Cons.prems(2) e e'(1) show False by force
      qed
      with Cons Some f show ?thesis by (simp add: List.map_filter_simps)
    qed
  qed (simp add: List.map_filter_simps)
  then show ?thesis using batch_groups_distinct by (simp add: batch_files_def)
qed

text \<open>The state after batches whose file names are all different.\<close>

lemma after_batches_get:
  assumes "distinct (map fst (concat (map (batch_files L base) bs)))"
  shows "after_batches L base bs M p = (case map_of (concat (map (batch_files L base) bs)) p of None \<Rightarrow> M p | Some x \<Rightarrow> Some x)"
  using assms
proof (induction bs arbitrary: M)
  case (Cons b bs)
  have "distinct (map fst (concat (map (batch_files L base) bs)))" using Cons.prems by simp
  from Cons.IH [OF this] have IH: "after_batches L base bs (M ++ files_map L base b) p =
      (case map_of (concat (map (batch_files L base) bs)) p of None \<Rightarrow> (M ++ files_map L base b) p | Some x \<Rightarrow> Some x)" .
  show ?case
  proof (cases "map_of (batch_files L base b) p")
    case None
    then show ?thesis unfolding after_batches_simps IH by (simp add: map_add_def files_map_def split: option.split)
  next
    case (Some x)
    then have "p \<in> fst ` set (batch_files L base b)" by (metis map_of_eq_None_iff option.distinct(1))
    then have "p \<notin> fst ` set (concat (map (batch_files L base) bs))" using Cons.prems by auto
    then have "map_of (concat (map (batch_files L base) bs)) p = None" by (simp add: map_of_eq_None_iff)
    with Some show ?thesis unfolding after_batches_simps IH by (simp add: map_add_def files_map_def)
  qed
qed simp

definition rows_of_batches :: "'o parquet_lib \<Rightarrow> string \<Rightarrow> persisted_record list list \<Rightarrow> (string \<times> persisted_record list) list" where
  "rows_of_batches L base bs = concat (map (batch_rows_files L base) bs)"

lemma holds_batches:
  assumes "\<And>b. b \<in> set bs \<Longrightarrow> encodable L b \<and> list_all record_valid b"
    and "distinct (map fst (concat (map (batch_files L base) bs)))"
    and "hm_get m = after_batches L base bs Map.empty"
  shows "holds L base (rows_of_batches L base bs) m"
proof -
  let ?F = "concat (map (batch_files L base) bs)"
  have paths: "map fst (rows_of_batches L base bs) = map fst ?F"
    using assms(1) unfolding rows_of_batches_def by (induction bs) (auto simp: batch_rows_paths)
  have get: "hm_get m p = map_of ?F p" for p
    unfolding assms(3) after_batches_get [OF assms(2)] by (simp split: option.split)
  have "p \<in> set (hm_keys m) \<longleftrightarrow> p \<in> set (map fst ?F)" for p
    unfolding hm_key_iff get map_of_eq_None_iff by simp
  then have keys: "set (hm_keys m) = set (map fst ?F)" by blast
  have stored: "\<exists>x. hm_get m p = Some x \<and> group_stored L base g p x" if "(p, g) \<in> set (rows_of_batches L base bs)" for p g
  proof -
    note mem = that
    obtain b where b: "b \<in> set bs" "(p, g) \<in> set (batch_rows_files L base b)" using mem by (auto simp: rows_of_batches_def)
    obtain x where x: "(p, x) \<in> set (batch_files L base b)" "group_stored L base g p x"
      using batch_rows_stored [OF _ _ b(2)] assms(1) [OF b(1)] by blast
    have "(p, x) \<in> set ?F" using x(1) b(1) by auto
    with x(2) assms(2) show ?thesis by (auto simp: get)
  qed
  then show ?thesis unfolding holds_def paths keys using assms(2) by auto
qed

lemma rows_of_batches_all: "mset (concat (map snd (rows_of_batches L base bs))) = mset (concat bs)"
  unfolding rows_of_batches_def by (induction bs) (simp_all add: batch_rows_all del: mset_concat)

section \<open>What a read returns\<close>

definition stored_wanted :: "persisted_record list \<Rightarrow> string \<Rightarrow> asset_id \<Rightarrow> u64 \<Rightarrow> u64 \<Rightarrow> persisted_record multiset" where
  "stored_wanted rs dataset a start_us end_us =
     mset (map stored_form (filter (\<lambda>r. dataset_name r = dataset \<and> wanted a start_us end_us r) rs))"

text \<open>The reader's preconditions on a store of batches: the laws of the libraries, batches that were
  encoded, file names that differ, a plausible range, few enough rows.\<close>

definition readable :: "'o reader_env \<Rightarrow> persisted_record list list \<Rightarrow> 'o store \<Rightarrow> asset_id \<Rightarrow> u64 \<Rightarrow> u64 \<Rightarrow> bool" where
  "readable R bs st a start_us end_us \<longleftrightarrow>
     store_laws (re_lib R) (re_base R) \<and> (\<forall>ps. mset (re_order R ps) = mset ps) \<and>
     list_all (\<lambda>b. encodable (re_lib R) b \<and> list_all record_valid b) bs \<and>
     distinct (map fst (concat (map (batch_files (re_lib R) (re_base R)) bs))) \<and>
     hm_get (st_objects st) = after_batches (re_lib R) (re_base R) bs Map.empty \<and>
     a \<noteq> [] \<and> MIN_PLAUSIBLE_PARTITION_US \<le> start_us \<and> start_us \<le> end_us \<and> end_us \<le> MAX_PLAUSIBLE_PARTITION_US \<and>
     length (filter (wanted a start_us end_us) (concat bs)) \<le> MAX_PARQUET_DATASET_ROWS"

lemma filter_and_le: "length (filter (\<lambda>x. A x \<and> B x) xs) \<le> length (filter B xs)"
  by (induction xs) auto

lemma readable_dataset:
  assumes "readable R bs st a start_us end_us" "dataset = dataset_name r"
    and "extracts (re_lib R) dataset (wanted a start_us end_us) tag ext" "filter_fits ap a dataset"
  shows "\<exists>ps ys. dataset_files R dataset ap start_us end_us (calm st) = (calm st, Inr ps) \<and>
    read_parquet_files R ext ps (calm st) = (calm st, Inr ys) \<and> mset (map tag ys) = stored_wanted (concat bs) dataset a start_us end_us"
proof -
  let ?F = "rows_of_batches (re_lib R) (re_base R) bs"
  let ?Q = "\<lambda>r. dataset_name r = dataset \<and> wanted a start_us end_us r"
  have holds: "holds (re_lib R) (re_base R) ?F (st_objects st)"
    using assms(1) by (intro holds_batches) (auto simp: readable_def list_all_iff)
  have all: "mset (filter ?Q (concat (map snd ?F))) = mset (filter ?Q (concat bs))"
    by (simp only: mset_filter rows_of_batches_all)
  have "length (filter ?Q (concat bs)) \<le> length (filter (wanted a start_us end_us) (concat bs))"
    by (rule filter_and_le)
  then have few: "length (filter ?Q (concat (map snd ?F))) \<le> MAX_PARQUET_DATASET_ROWS"
    using assms(1) mset_eq_length [OF all] by (simp add: readable_def)
  have ds: "plain dataset" "hd dataset \<noteq> CHR ''_''" "CHR ''/'' \<notin> set dataset"
    using dataset_no_slash unfolding assms(2) by simp_all
  have laws: "store_laws (re_lib R) (re_base R)" and order: "\<And>ps. mset (re_order R ps) = mset ps"
    and range: "MIN_PLAUSIBLE_PARTITION_US \<le> start_us" "start_us \<le> end_us" "end_us \<le> MAX_PLAUSIBLE_PARTITION_US"
    using assms(1) by (simp_all add: readable_def)
  obtain ps ys where read: "dataset_files R dataset ap start_us end_us (calm st) = (calm st, Inr ps)"
    "read_parquet_files R ext ps (calm st) = (calm st, Inr ys)"
    "mset (map tag ys) = mset (map stored_form (filter ?Q (concat (map snd ?F))))"
    using dataset_read [OF laws holds order ds range assms(3,4) few] by blast
  moreover have "mset (map stored_form (filter ?Q (concat (map snd ?F)))) = stored_wanted (concat bs) dataset a start_us end_us"
    unfolding stored_wanted_def mset_map all ..
  ultimately show ?thesis by metis
qed

lemma readable_view:
  assumes "readable R bs st a start_us end_us" "dataset = dataset_name r"
    and "extracts (re_lib R) dataset (wanted a start_us end_us) tag ext" "filter_fits ap a dataset"
  shows "\<exists>ys. read_dataset_with_view_retry R dataset ap start_us end_us ext (calm st) = (calm st, Inr ys) \<and>
    mset (map tag ys) = stored_wanted (concat bs) dataset a start_us end_us"
proof -
  from readable_dataset [OF assms] obtain ps ys where
    "dataset_files R dataset ap start_us end_us (calm st) = (calm st, Inr ps)" "read_parquet_files R ext ps (calm st) = (calm st, Inr ys)"
    "mset (map tag ys) = stored_wanted (concat bs) dataset a start_us end_us" by blast
  then show ?thesis by (auto simp: read_dataset_with_view_retry_def andthen_def)
qed

text \<open>
  C10. Everything stored is read, once, in order. On a store that holds the files of written batches,
  \<open>read_market_data\<close> returns for an asset and a time range exactly the book, trade and ingest records of
  these batches that are wanted, with their repetitions, each list sorted by receive time and sequence.
\<close>

theorem market_data_read_back:
  assumes "readable R bs st a start_us end_us"
  shows "case read_market_data R a start_us end_us (calm st) of
      (_, Inl _) \<Rightarrow> False
    | (st', Inr w) \<Rightarrow> st' = calm st \<and>
        mset (map Book (book_events w)) = stored_wanted (concat bs) ''book_events'' a start_us end_us \<and>
        mset (map Trade (trade_events w)) = stored_wanted (concat bs) ''trade_events'' a start_us end_us \<and>
        mset (map Ingest (ingest_events w)) = stored_wanted (concat bs) ''ingest_events'' a start_us end_us \<and>
        sorted (map (\<lambda>e. read_key (be_provenance e)) (book_events w)) \<and>
        sorted (map (\<lambda>e. read_key (te_provenance e)) (trade_events w)) \<and>
        sorted (map (\<lambda>e. read_key (ie_provenance e)) (ingest_events w))"
proof -
  have laws: "store_laws (re_lib R) (re_base R)" and a: "a \<noteq> []" using assms by (simp_all add: readable_def)
  note view = readable_view [OF assms]
  obtain bs' where b: "read_dataset_with_view_retry R ''book_events'' (Some a) start_us end_us (\<lambda>b. extract_book_events b a start_us end_us) (calm st) =
      (calm st, Inr bs')" "mset (map Book bs') = stored_wanted (concat bs) ''book_events'' a start_us end_us"
    using view [OF dataset_name.simps(1) [symmetric] extractors(1) [OF laws], of "Some a"] a by (auto simp: filter_fits_def)
  obtain ts where t: "read_dataset_with_view_retry R ''trade_events'' (Some a) start_us end_us (\<lambda>b. extract_trade_events b a start_us end_us) (calm st) =
      (calm st, Inr ts)" "mset (map Trade ts) = stored_wanted (concat bs) ''trade_events'' a start_us end_us"
    using view [OF dataset_name.simps(2) [symmetric] extractors(2) [OF laws], of "Some a"] a by (auto simp: filter_fits_def)
  obtain ins where i: "read_dataset_with_view_retry R ''ingest_events'' None start_us end_us (\<lambda>b. extract_ingest_events b a start_us end_us) (calm st) =
      (calm st, Inr ins)" "mset (map Ingest ins) = stored_wanted (concat bs) ''ingest_events'' a start_us end_us"
    using view [OF dataset_name.simps(3) [symmetric] extractors(3) [OF laws], of None] by (auto simp: filter_fits_def)
  show ?thesis
    unfolding read_market_data_def using b(2) t(2) i(2) by (simp add: andthen_def b(1) t(1) i(1) ret_def)
qed

text \<open>
  Checkpoints and validations are read back the same way: exactly the stored ones of the asset in
  the range, sorted by their own time.
\<close>

theorem checkpoints_read_back:
  assumes "readable R bs st a start_us end_us"
  shows "(case read_checkpoints R a start_us end_us (calm st) of
      (_, Inl _) \<Rightarrow> False
    | (_, Inr cs) \<Rightarrow> mset (map Checkpoint cs) = stored_wanted (concat bs) ''book_checkpoints'' a start_us end_us \<and>
        sorted (map cp_timestamp_us cs)) \<and>
    (case read_validations R a start_us end_us (calm st) of
      (_, Inl _) \<Rightarrow> False
    | (_, Inr vs) \<Rightarrow> mset (map Validation vs) = stored_wanted (concat bs) ''replay_validations'' a start_us end_us \<and>
        sorted (map rv_persisted_at_us vs))"
proof -
  have laws: "store_laws (re_lib R) (re_base R)" and a: "a \<noteq> []" using assms by (simp_all add: readable_def)
  note read = readable_dataset [OF assms]
  obtain ps cs where c: "dataset_files R ''book_checkpoints'' (Some a) start_us end_us (calm st) = (calm st, Inr ps)"
    "read_parquet_files R (\<lambda>b. extract_checkpoints (pq_arrow (re_lib R)) b a start_us end_us) ps (calm st) = (calm st, Inr cs)"
    "mset (map Checkpoint cs) = stored_wanted (concat bs) ''book_checkpoints'' a start_us end_us"
    using read [OF dataset_name.simps(4) [symmetric] extractors(4) [OF laws], of "Some a"] a by (auto simp: filter_fits_def)
  obtain qs vs where v: "dataset_files R ''replay_validations'' (Some a) start_us end_us (calm st) = (calm st, Inr qs)"
    "read_parquet_files R (\<lambda>b. extract_validations b a start_us end_us) qs (calm st) = (calm st, Inr vs)"
    "mset (map Validation vs) = stored_wanted (concat bs) ''replay_validations'' a start_us end_us"
    using read [OF dataset_name.simps(5) [symmetric] extractors(5) [OF laws], of "Some a"] a by (auto simp: filter_fits_def)
  show ?thesis
    unfolding read_checkpoints_def read_validations_def using c(3) v(3)
    by (simp add: andthen_def c(1,2) v(1,2) ret_def)
qed

section \<open>A concrete read\<close>

definition stored_events :: "persisted_record list" where
  "stored_events =
     [Book (sample_event Snapshot Bid 4000 5 1700000000000000 0 0 3),
      Book ((sample_event Snapshot Bid 4000 5 1700003600000000 0 0 4)\<lparr> be_asset_id := ''b'' \<rparr>),
      Book (sample_event Delta Ask 4100 2 1700003600000000 0 0 5)]"

definition stored_store :: "demo_object store" where
  "stored_store = \<lparr> st_objects = batch_files demo_lib ''data'' stored_events, st_fates = [] \<rparr>"

lemma demo_parquet_ok: "parquet_ok demo_lib"
  unfolding parquet_ok_def
proof (intro allI impI)
  fix s b x assume "pq_write demo_lib s b = Inr x"
  then have "x = Stored (sch_version s) b" "rb_rows b \<noteq> 0" by (auto simp: demo_lib_def split: if_splits)
  then show "pq_version demo_lib x = Inr (sch_version s) \<and>
      (\<exists>ns. sum_list ns = rb_rows b \<and> 0 \<notin> set ns \<and> pq_batches demo_lib x = map Inr (batch_parts ns b))"
    by (auto simp: demo_lib_def intro!: exI [of _ "[rb_rows b]"])
qed

lemma demo_laws: "store_laws demo_lib ''data''"
  using demo_parquet_ok by (simp add: store_laws_def) (simp add: demo_lib_def)

lemma stored_readable: "readable demo_reader [stored_events] stored_store ''a'' 1700000000000000 1700007200000000"
proof -
  have lib: "re_lib demo_reader = demo_lib" "re_base demo_reader = ''data''" "re_order demo_reader = id"
    by (simp_all add: demo_reader_def)
  have valid: "list_all record_valid stored_events"
    by (simp add: stored_events_def sample_event_def price_valid_def PRICE_SCALE_def)
  moreover have "encodable demo_lib stored_events"
    by (rule encodable_valid [OF demo_laws valid]) (simp add: demo_lib_def)
  moreover have "distinct (map fst (batch_files demo_lib ''data'' stored_events))" by (rule batch_files_distinct)
  moreover have "hm_get (st_objects stored_store) = after_batches demo_lib ''data'' [stored_events] Map.empty"
    by (simp add: stored_store_def hm_get_def files_map_def fun_eq_iff)
  moreover have "length (filter (wanted ''a'' 1700000000000000 1700007200000000) stored_events) \<le> MAX_PARQUET_DATASET_ROWS"
    by (rule order_trans [OF length_filter_le]) (simp add: stored_events_def MAX_PARQUET_DATASET_ROWS_def)
  ultimately show ?thesis
    using demo_laws by (simp add: readable_def lib MIN_PLAUSIBLE_PARTITION_US_def MAX_PLAUSIBLE_PARTITION_US_def)
qed

theorem market_data_read_back_witness:
  "\<exists>w. snd (read_market_data demo_reader ''a'' 1700000000000000 1700007200000000 (calm stored_store)) = Inr w \<and>
     mset (map Book (book_events w)) =
       {#Book (sample_event Snapshot Bid 4000 5 1700000000000000 0 0 3), Book (sample_event Delta Ask 4100 2 1700003600000000 0 0 5)#}"
proof -
  have "stored_wanted (concat [stored_events]) ''book_events'' ''a'' 1700000000000000 1700007200000000 =
      {#Book (sample_event Snapshot Bid 4000 5 1700000000000000 0 0 3), Book (sample_event Delta Ask 4100 2 1700003600000000 0 0 5)#}"
    by (simp add: stored_wanted_def stored_events_def wanted_def in_range_def sample_event_def)
  then show ?thesis
    using market_data_read_back [OF stored_readable] by (auto split: prod.splits sum.splits)
qed

theorem checkpoints_read_back_witness:
  "\<exists>cs. snd (read_checkpoints demo_reader ''a'' 1700000000000000 1700007200000000 (calm stored_store)) = Inr cs \<and> cs = []"
proof -
  have "stored_wanted (concat [stored_events]) ''book_checkpoints'' ''a'' 1700000000000000 1700007200000000 = {#}"
    by (simp add: stored_wanted_def stored_events_def)
  then show ?thesis
    using checkpoints_read_back [OF stored_readable] by (auto split: prod.splits sum.splits)
qed

end
