(* ===== verification/Dto.thy ===== *)
theory Dto
  imports Event F64
begin

text \<open>
  \<open>crates/pb-api/src/dto.rs\<close>: the values the live read model and the query service hand out.
  Their JSON form is not modelled.
\<close>

datatype feed_mode = FixedTokens | AutoRotate

datatype session_status = Starting | Connected | Reconnecting

record continuity_warning =
  cw_kind :: string
  cw_recv_timestamp_us :: u64
  cw_exchange_timestamp_us :: u64
  cw_details :: "string option"

record asset_ref =
  ar_asset_id :: string
  ar_slug :: "string option"

record feed_status_response =
  fs_mode :: feed_mode
  fs_session_status :: session_status
  fs_current_session_id :: "string option"
  fs_active_asset_count :: nat
  fs_active_assets :: "asset_ref list"
  fs_last_rotation_us :: "u64 option"
  fs_latest_global_warning :: "continuity_warning option"

record asset_resolve_response =
  rr_found :: bool
  rr_asset_id :: "string option"
  rr_slug :: "string option"

record active_asset_summary =
  aa_asset_id :: string
  aa_slug :: "string option"
  aa_label :: "string option"
  aa_last_recv_timestamp_us :: "u64 option"
  aa_last_exchange_timestamp_us :: "u64 option"
  aa_stale :: bool
  aa_has_book :: bool

record price_level_view =
  lv_price :: fixed_price
  lv_size :: fixed_size

record live_order_book_snapshot =
  lo_asset_id :: string
  lo_slug :: "string option"
  lo_sequence :: u64
  lo_last_update_us :: u64
  lo_best_bid :: "price_level_view option"
  lo_best_ask :: "price_level_view option"
  lo_mid_price :: "f64 option"
  lo_spread :: "f64 option"
  lo_bid_depth :: nat
  lo_ask_depth :: nat
  lo_bids :: "price_level_view list"
  lo_asks :: "price_level_view list"
  lo_stale :: bool
  lo_latest_warning :: "continuity_warning option"

record replay_reconstruction_response =
  rc_asset_id :: string
  rc_slug :: "string option"
  rc_mode :: string
  rc_used_checkpoint :: bool
  rc_sequence :: u64
  rc_last_update_us :: u64
  rc_best_bid :: "price_level_view option"
  rc_best_ask :: "price_level_view option"
  rc_mid_price :: "f64 option"
  rc_spread :: "f64 option"
  rc_bid_depth :: nat
  rc_ask_depth :: nat
  rc_bids :: "price_level_view list"
  rc_asks :: "price_level_view list"
  rc_continuity_events :: "continuity_warning list"

datatype completeness_label = Complete | BestEffort

record integrity_summary_response =
  is_asset_id :: string
  is_slug :: "string option"
  is_start_us :: u64
  is_end_us :: u64
  is_total_book_events :: u64
  is_total_ingest_events :: u64
  is_reconnect_count :: u32
  is_gap_count :: u32
  is_stale_snapshot_skip_count :: u32
  is_validation_count :: u32
  is_validations_matched :: u32
  is_validations_mismatched :: u32
  is_completeness :: completeness_label
  is_continuity_events :: "continuity_warning list"

record book_update_message =
  bu_asset_id :: string
  bu_slug :: "string option"
  bu_sequence :: u64
  bu_last_update_us :: u64
  bu_bid_depth :: nat
  bu_ask_depth :: nat
  bu_bids :: "price_level_view list"
  bu_asks :: "price_level_view list"
  bu_mid_price :: "f64 option"
  bu_spread :: "f64 option"

definition level_view :: "fixed_price \<times> fixed_size \<Rightarrow> price_level_view" where
  "level_view l = \<lparr> lv_price = fst l, lv_size = snd l \<rparr>"

end
