(* ===== verification/LiveState.thy ===== *)
theory LiveState
  imports Dto FixedFloat
begin

text \<open>
  \<open>crates/pb-api/src/live_state.rs\<close>, the state the projector task owns: one book per asset with
  the snapshot group that is still collected for it, fed record by record. The two hash maps are
  entry lists in their iteration order. An operation returns \<open>None\<close> where the process would abort.
\<close>

section \<open>State\<close>

record snapshot_group_key =
  gk_asset_id :: string
  gk_recv_timestamp_us :: u64
  gk_exchange_timestamp_us :: u64
  gk_source_event_id :: "string option"

record pending_snapshot =
  pn_key :: snapshot_group_key
  pn_bids :: book_side
  pn_asks :: book_side
  pn_sequence :: u64
  pn_last_recv_timestamp_us :: u64

record asset_state =
  st_book :: l2book
  st_initialized :: bool
  st_last_recv_timestamp_us :: "u64 option"
  st_last_exchange_timestamp_us :: "u64 option"
  st_latest_warning :: "continuity_warning option"

definition asset_state_new :: "string \<Rightarrow> asset_state" where
  "asset_state_new a = \<lparr> st_book = book_new a, st_initialized = False, st_last_recv_timestamp_us = None,
     st_last_exchange_timestamp_us = None, st_latest_warning = None \<rparr>"

record live_state =
  ls_mode :: feed_mode
  ls_session_status :: session_status
  ls_current_session_id :: "string option"
  ls_active_assets :: "string list"
  ls_assets :: "(string, asset_state) hmap"
  ls_pending_snapshots :: "(string, pending_snapshot) hmap"
  ls_last_rotation_us :: "u64 option"
  ls_latest_global_warning :: "continuity_warning option"
  ls_hydrated :: bool

definition live_state_new :: "feed_mode \<Rightarrow> live_state" where
  "live_state_new mode = \<lparr> ls_mode = mode, ls_session_status = Starting, ls_current_session_id = None,
     ls_active_assets = [], ls_assets = [], ls_pending_snapshots = [], ls_last_rotation_us = None,
     ls_latest_global_warning = None, ls_hydrated = False \<rparr>"

record apply_outcome =
  ao_changed_assets :: "string list"
  ao_broadcast_assets :: "string list"
  ao_should_publish :: bool

definition push_unique_asset :: "string list \<Rightarrow> string \<Rightarrow> string list" where
  "push_unique_asset as a = (if list_all (\<lambda>c. c \<noteq> a) as then as @ [a] else as)"

definition mark_asset_changed :: "string \<Rightarrow> apply_outcome \<Rightarrow> apply_outcome" where
  "mark_asset_changed a out =
     out\<lparr> ao_changed_assets := push_unique_asset (ao_changed_assets out) a, ao_should_publish := True \<rparr>"

definition mark_asset_broadcast :: "string \<Rightarrow> apply_outcome \<Rightarrow> apply_outcome" where
  "mark_asset_broadcast a out =
     out\<lparr> ao_broadcast_assets := push_unique_asset (ao_broadcast_assets out) a, ao_should_publish := True \<rparr>"

section \<open>Assets\<close>

text \<open>\<open>ensure_asset\<close> hands out a reference; \<open>put_asset\<close> is the write through it.\<close>

definition ensure_asset :: "string \<Rightarrow> live_state \<Rightarrow> live_state \<times> asset_state" where
  "ensure_asset a s =
     (case hm_get (ls_assets s) a of
        Some st \<Rightarrow> (s, st)
      | None \<Rightarrow>
          let st = asset_state_new a
          in (s\<lparr> ls_assets := hm_insert a st (ls_assets s) \<rparr>, st))"

definition put_asset :: "string \<Rightarrow> asset_state \<Rightarrow> live_state \<Rightarrow> live_state" where
  "put_asset a st s = s\<lparr> ls_assets := hm_insert a st (ls_assets s) \<rparr>"

fun retain_assets :: "string list \<Rightarrow> (string, asset_state) hmap \<Rightarrow> (string, asset_state) hmap \<Rightarrow>
    (string, asset_state) hmap" where
  "retain_assets [] assets retained = retained"
| "retain_assets (a # as) assets retained =
     retain_assets as (hm_remove a assets)
       (hm_insert a (case hm_get assets a of Some st \<Rightarrow> st | None \<Rightarrow> asset_state_new a) retained)"

definition set_active_assets :: "string list \<Rightarrow> live_state \<Rightarrow> live_state" where
  "set_active_assets as s =
     s\<lparr> ls_active_assets := as,
        ls_assets := retain_assets as (ls_assets s) [],
        ls_pending_snapshots := filter (\<lambda>e. list_ex (\<lambda>c. c = fst e) as) (ls_pending_snapshots s) \<rparr>"

section \<open>Snapshot groups\<close>

text \<open>The crossed-book check of the live path.\<close>

definition check_book_integrity :: "string \<Rightarrow> live_state \<Rightarrow> live_state" where
  "check_book_integrity a s =
     (let (s1, st) = ensure_asset a s
      in case check_integrity (st_book st) of
           Inr _ \<Rightarrow> s1
         | Inl err \<Rightarrow>
             put_asset a (st\<lparr> st_latest_warning := Some
               \<lparr> cw_kind = ''crossed_book'',
                 cw_recv_timestamp_us = (case st_last_recv_timestamp_us st of Some t \<Rightarrow> t | None \<Rightarrow> 0),
                 cw_exchange_timestamp_us = (case st_last_exchange_timestamp_us st of Some t \<Rightarrow> t | None \<Rightarrow> 0),
                 cw_details = Some (book_error_display err) \<rparr> \<rparr>) s1)"

definition apply_error_warning :: "u64 \<Rightarrow> u64 \<Rightarrow> book_error \<Rightarrow> continuity_warning" where
  "apply_error_warning recv ex err = \<lparr> cw_kind = ''book_apply_error'', cw_recv_timestamp_us = recv,
     cw_exchange_timestamp_us = ex, cw_details = Some (book_error_display err) \<rparr>"

definition materialize_pending_for_asset :: "string \<Rightarrow> live_state \<Rightarrow> live_state \<times> bool" where
  "materialize_pending_for_asset a s =
     (case hm_get (ls_pending_snapshots s) a of
        None \<Rightarrow> (s, False)
      | Some pending \<Rightarrow>
          let s1 = s\<lparr> ls_pending_snapshots := hm_remove a (ls_pending_snapshots s) \<rparr>;
              (s2, st) = ensure_asset a s1;
              recv = pn_last_recv_timestamp_us pending;
              ex = gk_exchange_timestamp_us (pn_key pending);
              (book, r) = try_apply_snapshot (st_book st) (pn_bids pending) (pn_asks pending)
                (Sequence (pn_sequence pending)) recv
          in case r of
               Inl err \<Rightarrow>
                 (put_asset a (st\<lparr> st_book := book,
                    st_latest_warning := Some (apply_error_warning recv ex err) \<rparr>) s2, False)
             | Inr _ \<Rightarrow>
                 (check_book_integrity a
                   (put_asset a (st\<lparr> st_book := book, st_initialized := True,
                      st_last_recv_timestamp_us := Some recv,
                      st_last_exchange_timestamp_us := Some ex \<rparr>) s2), True))"

fun materialize_assets :: "string list \<Rightarrow> live_state \<Rightarrow> live_state \<times> string list" where
  "materialize_assets [] s = (s, [])"
| "materialize_assets (a # as) s =
     (let (s1, done1) = materialize_pending_for_asset a s;
          (s2, rest) = materialize_assets as s1
      in (s2, if done1 then a # rest else rest))"

definition materialize_all_pending :: "live_state \<Rightarrow> live_state \<times> string list" where
  "materialize_all_pending s = materialize_assets (hm_keys (ls_pending_snapshots s)) s"

definition snapshot_key :: "book_event \<Rightarrow> snapshot_group_key" where
  "snapshot_key e = \<lparr> gk_asset_id = be_asset_id e,
     gk_recv_timestamp_us = recv_timestamp_us (be_provenance e),
     gk_exchange_timestamp_us = exchange_timestamp_us (be_provenance e),
     gk_source_event_id = source_event_id (be_provenance e) \<rparr>"

definition materialize_pending_before_record :: "persisted_record \<Rightarrow> live_state \<Rightarrow> live_state \<times> string list" where
  "materialize_pending_before_record r s =
     (case r of
        Book e \<Rightarrow>
          (case be_kind e of
             Snapshot \<Rightarrow>
               materialize_assets
                 (map fst (filter (\<lambda>p. pn_key (snd p) \<noteq> snapshot_key e) (ls_pending_snapshots s))) s
           | Delta \<Rightarrow> materialize_all_pending s)
      | _ \<Rightarrow> materialize_all_pending s)"

section \<open>What the operations do to the maps\<close>

lemma hm_get_insert: "hm_get (hm_insert k v m) j = (if j = k then Some v else hm_get m j)"
  by (simp add: hm_get_def hm_insert_def update_conv')

lemma hm_get_remove: "hm_get (hm_remove k m) j = (if j = k then None else hm_get m j)"
  by (simp add: hm_get_def hm_remove_def delete_conv')

lemma hm_ok_insert: "hm_ok m \<Longrightarrow> hm_ok (hm_insert k v m)"
  by (rule hm.ok_put)

lemma hm_ok_remove: "hm_ok m \<Longrightarrow> hm_ok (hm_remove k m)"
  by (rule hm.ok_del)

lemmas hm_rules = hm_get_insert hm_get_remove hm_ok_insert hm_ok_remove

text \<open>The asset as \<open>ensure_asset\<close> finds it.\<close>

definition asset_at :: "live_state \<Rightarrow> string \<Rightarrow> asset_state" where
  "asset_at s a = (case hm_get (ls_assets s) a of Some st \<Rightarrow> st | None \<Rightarrow> asset_state_new a)"

text \<open>Everything but the two maps.\<close>

definition frame_of :: "live_state \<Rightarrow> live_state" where
  "frame_of s = s\<lparr> ls_assets := [], ls_pending_snapshots := [] \<rparr>"

lemma frame_maps [simp]:
  "frame_of (s\<lparr> ls_assets := m \<rparr>) = frame_of s"
  "frame_of (s\<lparr> ls_pending_snapshots := p \<rparr>) = frame_of s"
  "frame_of (put_asset a st s) = frame_of s"
  "ls_pending_snapshots (put_asset a st s) = ls_pending_snapshots s"
  by (simp_all add: frame_of_def put_asset_def)

lemma frame_fields:
  assumes "frame_of s = frame_of s'"
  shows "ls_mode s = ls_mode s' \<and> ls_session_status s = ls_session_status s' \<and>
    ls_current_session_id s = ls_current_session_id s' \<and> ls_active_assets s = ls_active_assets s' \<and>
    ls_last_rotation_us s = ls_last_rotation_us s' \<and>
    ls_latest_global_warning s = ls_latest_global_warning s' \<and> ls_hydrated s = ls_hydrated s'"
  using assms by (cases s; cases s') (simp add: frame_of_def)

lemma put_asset_get: "hm_get (ls_assets (put_asset a st s)) b = (if b = a then Some st else hm_get (ls_assets s) b)"
  by (simp add: put_asset_def hm_get_insert)

lemma put_asset_ok: "hm_ok (ls_assets s) \<Longrightarrow> hm_ok (ls_assets (put_asset a st s))"
  by (simp add: put_asset_def hm_ok_insert)

lemma ensure_asset_eq: "ensure_asset a s = (if hm_get (ls_assets s) a = None then put_asset a (asset_at s a) s else s, asset_at s a)"
  by (simp add: ensure_asset_def asset_at_def put_asset_def Let_def split: option.split)

lemma ensure_frame [simp]:
  "ls_pending_snapshots (fst (ensure_asset a s)) = ls_pending_snapshots s"
  "frame_of (fst (ensure_asset a s)) = frame_of s"
  "snd (ensure_asset a s) = asset_at s a"
  by (simp_all add: ensure_asset_eq)

text \<open>Writing through a reference: the creation of a missing asset is absorbed.\<close>

lemma ensured_put:
  "hm_get (ls_assets (put_asset a st (fst (ensure_asset a s)))) = (hm_get (ls_assets s))(a \<mapsto> st)"
  "frame_of (put_asset a st (fst (ensure_asset a s))) = frame_of s"
  "ls_pending_snapshots (put_asset a st (fst (ensure_asset a s))) = ls_pending_snapshots s"
  "hm_ok (ls_assets s) \<Longrightarrow> hm_ok (ls_assets (put_asset a st (fst (ensure_asset a s))))"
  by (auto simp: ensure_asset_eq put_asset_get put_asset_ok fun_eq_iff)

text \<open>The asset after the crossed-book check.\<close>

definition integrity_checked :: "asset_state \<Rightarrow> asset_state" where
  "integrity_checked st =
     (case check_integrity (st_book st) of
        Inr _ \<Rightarrow> st
      | Inl err \<Rightarrow> st\<lparr> st_latest_warning := Some
          \<lparr> cw_kind = ''crossed_book'',
            cw_recv_timestamp_us = (case st_last_recv_timestamp_us st of Some t \<Rightarrow> t | None \<Rightarrow> 0),
            cw_exchange_timestamp_us = (case st_last_exchange_timestamp_us st of Some t \<Rightarrow> t | None \<Rightarrow> 0),
            cw_details = Some (book_error_display err) \<rparr> \<rparr>)"

lemma checked_put:
  "check_book_integrity a (put_asset a st s) =
     (if isl (check_integrity (st_book st)) then put_asset a (integrity_checked st) (put_asset a st s) else put_asset a st s)"
  by (auto simp: check_book_integrity_def ensure_asset_eq put_asset_get asset_at_def integrity_checked_def
      split: sum.split)

lemma checked_put_effect:
  "hm_get (ls_assets (check_book_integrity a (put_asset a st s))) = (hm_get (ls_assets s))(a \<mapsto> integrity_checked st)"
  "frame_of (check_book_integrity a (put_asset a st s)) = frame_of s"
  "ls_pending_snapshots (check_book_integrity a (put_asset a st s)) = ls_pending_snapshots s"
  "hm_ok (ls_assets s) \<Longrightarrow> hm_ok (ls_assets (check_book_integrity a (put_asset a st s)))"
  by (auto simp: checked_put put_asset_get put_asset_ok fun_eq_iff integrity_checked_def split: sum.split)

text \<open>The asset after its pending snapshot is applied, and whether it was accepted.\<close>

definition group_applied :: "pending_snapshot \<Rightarrow> asset_state \<Rightarrow> asset_state \<times> bool" where
  "group_applied p st =
     (let recv = pn_last_recv_timestamp_us p;
          ex = gk_exchange_timestamp_us (pn_key p);
          (book, r) = try_apply_snapshot (st_book st) (pn_bids p) (pn_asks p) (Sequence (pn_sequence p)) recv
      in case r of
           Inl err \<Rightarrow> (st\<lparr> st_book := book, st_latest_warning := Some (apply_error_warning recv ex err) \<rparr>, False)
         | Inr _ \<Rightarrow>
             (integrity_checked (st\<lparr> st_book := book, st_initialized := True,
                st_last_recv_timestamp_us := Some recv, st_last_exchange_timestamp_us := Some ex \<rparr>), True))"

lemma materialize_none: "hm_get (ls_pending_snapshots s) a = None \<Longrightarrow> materialize_pending_for_asset a s = (s, False)"
  by (simp add: materialize_pending_for_asset_def)

lemma materialize_some:
  assumes p: "hm_get (ls_pending_snapshots s) a = Some p"
    and m: "materialize_pending_for_asset a s = (s', ok)"
  shows "hm_get (ls_assets s') = (hm_get (ls_assets s))(a \<mapsto> fst (group_applied p (asset_at s a)))"
    "ls_pending_snapshots s' = hm_remove a (ls_pending_snapshots s)"
    "frame_of s' = frame_of s" "ok = snd (group_applied p (asset_at s a))"
    "hm_ok (ls_assets s) \<Longrightarrow> hm_ok (ls_assets s')"
proof -
  let ?s1 = "s\<lparr> ls_pending_snapshots := hm_remove a (ls_pending_snapshots s) \<rparr>"
  have at: "asset_at ?s1 a = asset_at s a" by (simp add: asset_at_def)
  have en: "ensure_asset a ?s1 = (fst (ensure_asset a ?s1), asset_at s a)"
    by (simp add: ensure_asset_eq at)
  obtain book r where ap: "try_apply_snapshot (st_book (asset_at s a)) (pn_bids p) (pn_asks p)
      (Sequence (pn_sequence p)) (pn_last_recv_timestamp_us p) = (book, r)" by (metis surj_pair)
  have eq: "(s', ok) = (case r of
       Inl err \<Rightarrow> (put_asset a (fst (group_applied p (asset_at s a))) (fst (ensure_asset a ?s1)), False)
     | Inr _ \<Rightarrow> (check_book_integrity a (put_asset a ((asset_at s a)\<lparr> st_book := book, st_initialized := True,
                st_last_recv_timestamp_us := Some (pn_last_recv_timestamp_us p),
                st_last_exchange_timestamp_us := Some (gk_exchange_timestamp_us (pn_key p)) \<rparr>) (fst (ensure_asset a ?s1))), True))"
    unfolding m [symmetric] materialize_pending_for_asset_def p option.case Let_def
    by (subst en) (simp add: ap group_applied_def Let_def split: sum.split)
  have base: "hm_get (ls_assets (fst (ensure_asset a ?s1))) = (if hm_get (ls_assets s) a = None then (hm_get (ls_assets s))(a \<mapsto> asset_at s a) else hm_get (ls_assets s))"
    "frame_of (fst (ensure_asset a ?s1)) = frame_of s"
    "ls_pending_snapshots (fst (ensure_asset a ?s1)) = hm_remove a (ls_pending_snapshots s)"
    "hm_ok (ls_assets s) \<Longrightarrow> hm_ok (ls_assets (fst (ensure_asset a ?s1)))"
    by (auto simp: ensure_asset_eq at put_asset_get put_asset_ok fun_eq_iff)
  show "hm_get (ls_assets s') = (hm_get (ls_assets s))(a \<mapsto> fst (group_applied p (asset_at s a)))"
    "ls_pending_snapshots s' = hm_remove a (ls_pending_snapshots s)"
    "frame_of s' = frame_of s" "ok = snd (group_applied p (asset_at s a))"
    "hm_ok (ls_assets s) \<Longrightarrow> hm_ok (ls_assets s')"
    using eq base
    by (cases r; auto simp: checked_put_effect put_asset_get put_asset_ok fun_eq_iff group_applied_def ap Let_def)+
qed

section \<open>Records\<close>

definition seq_or_default :: "sequence option \<Rightarrow> sequence" where
  "seq_or_default q = (case q of Some s \<Rightarrow> s | None \<Rightarrow> seq_default)"

text \<open>The group is collected further; a new key first closes the group of the asset and starts over.\<close>

definition pending_or_new :: "book_event \<Rightarrow> live_state \<Rightarrow> live_state \<times> pending_snapshot" where
  "pending_or_new e s =
     (case hm_get (ls_pending_snapshots s) (be_asset_id e) of
        Some p \<Rightarrow> (s, p)
      | None \<Rightarrow>
          let p = \<lparr> pn_key = snapshot_key e, pn_bids = [], pn_asks = [], pn_sequence = 0,
                pn_last_recv_timestamp_us = recv_timestamp_us (be_provenance e) \<rparr>
          in (s\<lparr> ls_pending_snapshots := hm_insert (be_asset_id e) p (ls_pending_snapshots s) \<rparr>, p))"

definition collect_level :: "book_event \<Rightarrow> pending_snapshot \<Rightarrow> live_state \<Rightarrow> live_state" where
  "collect_level e p s =
     (let a = be_asset_id e;
          recv = recv_timestamp_us (be_provenance e);
          p1 = (case be_side e of
                  Bid \<Rightarrow> p\<lparr> pn_bids := pn_bids p @ [(be_price e, be_size e)] \<rparr>
                | Ask \<Rightarrow> p\<lparr> pn_asks := pn_asks p @ [(be_price e, be_size e)] \<rparr>);
          p2 = p1\<lparr> pn_sequence := seq_raw (seq_or_default (prov_sequence (be_provenance e))),
                pn_last_recv_timestamp_us := recv \<rparr>;
          s1 = s\<lparr> ls_pending_snapshots := hm_insert a p2 (ls_pending_snapshots s) \<rparr>;
          (s2, st) = ensure_asset a s1
      in put_asset a (st\<lparr> st_last_recv_timestamp_us := Some recv,
           st_last_exchange_timestamp_us := Some (exchange_timestamp_us (be_provenance e)) \<rparr>) s2)"

function record_snapshot_event :: "book_event \<Rightarrow> live_state \<Rightarrow> live_state" where
  "record_snapshot_event e s =
     (let (s1, p) = pending_or_new e s
      in if pn_key p \<noteq> snapshot_key e then
           record_snapshot_event e (fst (materialize_pending_for_asset (be_asset_id e) s1))
         else collect_level e p s1)"
  by pat_completeness auto

lemma materialize_pending_get:
  "hm_get (ls_pending_snapshots (fst (materialize_pending_for_asset a s))) b =
     (if b = a then None else hm_get (ls_pending_snapshots s) b)"
proof (cases "hm_get (ls_pending_snapshots s) a")
  case (Some p)
  obtain s' ok where m: "materialize_pending_for_asset a s = (s', ok)" by (metis surj_pair)
  show ?thesis using materialize_some(2) [OF Some m] m by (simp add: hm_get_remove)
qed (simp add: materialize_none)

termination record_snapshot_event
proof (relation "measure (\<lambda>(e, s). case hm_get (ls_pending_snapshots s) (be_asset_id e) of
    None \<Rightarrow> 0 | Some p \<Rightarrow> if pn_key p \<noteq> snapshot_key e then 1 else (0::nat))")
  fix e :: book_event and s s1 p x
  assume "x = pending_or_new e s" "(s1, p) = x" "pn_key p \<noteq> snapshot_key e"
  then have "hm_get (ls_pending_snapshots s) (be_asset_id e) = Some p"
    by (auto simp: pending_or_new_def Let_def split: option.splits)
  then show "((e, fst (materialize_pending_for_asset (be_asset_id e) s1)), e, s) \<in> measure (\<lambda>(e, s).
      case hm_get (ls_pending_snapshots s) (be_asset_id e) of
        None \<Rightarrow> 0 | Some p \<Rightarrow> if pn_key p \<noteq> snapshot_key e then 1 else (0::nat))"
    using \<open>pn_key p \<noteq> snapshot_key e\<close> by (simp add: materialize_pending_get)
qed simp

declare record_snapshot_event.simps [simp del]

definition record_delta_event :: "book_event \<Rightarrow> live_state \<Rightarrow> live_state option" where
  "record_delta_event e s =
     (let a = be_asset_id e;
          prov = be_provenance e;
          (s1, st) = ensure_asset a s
      in case try_apply_delta (st_book st) (be_side e) (be_price e) (be_size e)
             (seq_or_default (prov_sequence prov)) (recv_timestamp_us prov) of
           None \<Rightarrow> None
         | Some (book, Inl err) \<Rightarrow>
             Some (put_asset a (st\<lparr> st_book := book, st_latest_warning :=
               Some (apply_error_warning (recv_timestamp_us prov) (exchange_timestamp_us prov) err) \<rparr>) s1)
         | Some (book, Inr _) \<Rightarrow>
             Some (check_book_integrity a
               (put_asset a (st\<lparr> st_book := book,
                  st_last_recv_timestamp_us := Some (recv_timestamp_us prov),
                  st_last_exchange_timestamp_us := Some (exchange_timestamp_us prov) \<rparr>) s1)))"

definition record_ingest_event :: "ingest_event \<Rightarrow> live_state \<Rightarrow> live_state" where
  "record_ingest_event e s =
     (let warning = \<lparr> cw_kind = ingest_kind_display (ie_kind e),
            cw_recv_timestamp_us = recv_timestamp_us (ie_provenance e),
            cw_exchange_timestamp_us = exchange_timestamp_us (ie_provenance e),
            cw_details = ie_details e \<rparr>;
          s1 = (case ie_kind e of
                  ReconnectStart \<Rightarrow> s\<lparr> ls_session_status := Reconnecting \<rparr>
                | ReconnectSuccess \<Rightarrow>
                    s\<lparr> ls_session_status := Connected,
                       ls_current_session_id := source_session_id (ie_provenance e) \<rparr>
                | _ \<Rightarrow> s)
      in case ie_asset_id e of
           Some a \<Rightarrow>
             let (s2, st) = ensure_asset a s1
             in put_asset a (st\<lparr> st_latest_warning := Some warning \<rparr>) s2
         | None \<Rightarrow> s1\<lparr> ls_latest_global_warning := Some warning \<rparr>)"

definition apply_checkpoint_live :: "book_checkpoint \<Rightarrow> live_state \<Rightarrow> live_state" where
  "apply_checkpoint_live c s =
     (let a = cp_asset_id c;
          recv = recv_timestamp_us (cp_provenance c);
          ex = exchange_timestamp_us (cp_provenance c);
          (s1, st) = ensure_asset a s;
          levels = map (\<lambda>l. (pl_price l, pl_size l));
          (book, r) = try_apply_snapshot (st_book st) (levels (cp_bids c)) (levels (cp_asks c))
            seq_default (cp_timestamp_us c)
      in case r of
           Inl err \<Rightarrow>
             put_asset a (st\<lparr> st_book := book, st_latest_warning := Some (apply_error_warning recv ex err) \<rparr>) s1
         | Inr _ \<Rightarrow>
             check_book_integrity a
               (put_asset a (st\<lparr> st_book := book, st_initialized := True,
                  st_last_recv_timestamp_us := Some recv, st_last_exchange_timestamp_us := Some ex \<rparr>) s1))"

definition outcome_of_materialized :: "string list \<Rightarrow> apply_outcome" where
  "outcome_of_materialized as =
     fold (\<lambda>a out. mark_asset_broadcast a (mark_asset_changed a out)) as
       \<lparr> ao_changed_assets = [], ao_broadcast_assets = [], ao_should_publish = False \<rparr>"

definition live_apply_record :: "persisted_record \<Rightarrow> live_state \<Rightarrow> (live_state \<times> apply_outcome) option" where
  "live_apply_record r s =
     (let (s1, materialized) = materialize_pending_before_record r s;
          out = outcome_of_materialized materialized
      in case r of
           Book e \<Rightarrow>
             (case be_kind e of
                Snapshot \<Rightarrow> Some (record_snapshot_event e s1, mark_asset_changed (be_asset_id e) out)
              | Delta \<Rightarrow>
                  (case record_delta_event e s1 of
                     None \<Rightarrow> None
                   | Some s2 \<Rightarrow>
                       Some (s2, mark_asset_broadcast (be_asset_id e) (mark_asset_changed (be_asset_id e) out))))
         | Ingest e \<Rightarrow>
             let out1 = out\<lparr> ao_should_publish := True \<rparr>
             in Some (record_ingest_event e s1,
                  case ie_asset_id e of Some a \<Rightarrow> mark_asset_changed a out1 | None \<Rightarrow> out1)
         | Checkpoint c \<Rightarrow>
             let a = cp_asset_id c;
                 uninitialized = (case hm_get (ls_assets s1) a of None \<Rightarrow> True | Some st \<Rightarrow> \<not> st_initialized st)
             in if uninitialized then
                  Some (apply_checkpoint_live c s1, mark_asset_broadcast a (mark_asset_changed a out))
                else Some (s1, out)
         | Trade _ \<Rightarrow> Some (s1, out)
         | Validation _ \<Rightarrow> Some (s1, out))"

end
