(* ===== verification/LiveSlots.thy ===== *)
theory LiveSlots
  imports LiveState
begin

text \<open>
  The live state is a product of independent assets: what one asset holds is a function of the
  record stream, given by a per-asset machine (\<open>slot_step\<close>). The live state refines it record by
  record, keeps its invariant and never aborts.
\<close>

section \<open>One asset\<close>

type_synonym slot = "asset_state option \<times> pending_snapshot option"

definition found :: "string \<Rightarrow> asset_state option \<Rightarrow> asset_state" where
  "found a st = (case st of Some x \<Rightarrow> x | None \<Rightarrow> asset_state_new a)"

definition slot_at :: "live_state \<Rightarrow> string \<Rightarrow> slot" where
  "slot_at s a = (hm_get (ls_assets s) a, hm_get (ls_pending_snapshots s) a)"

definition slot_close :: "string \<Rightarrow> slot \<Rightarrow> slot" where
  "slot_close a sl =
     (case snd sl of
        None \<Rightarrow> sl
      | Some p \<Rightarrow> (Some (fst (group_applied p (found a (fst sl)))), None))"

definition slot_accepts :: "string \<Rightarrow> slot \<Rightarrow> bool" where
  "slot_accepts a sl = (case snd sl of None \<Rightarrow> False | Some p \<Rightarrow> snd (group_applied p (found a (fst sl))))"

text \<open>The record belongs to the collected group.\<close>

definition keeps_group :: "persisted_record \<Rightarrow> pending_snapshot \<Rightarrow> bool" where
  "keeps_group r p = (case r of Book e \<Rightarrow> be_kind e = Snapshot \<and> pn_key p = snapshot_key e | _ \<Rightarrow> False)"

definition slot_flushes :: "persisted_record \<Rightarrow> slot \<Rightarrow> bool" where
  "slot_flushes r sl = (case snd sl of None \<Rightarrow> False | Some p \<Rightarrow> \<not> keeps_group r p)"

definition slot_flush :: "string \<Rightarrow> persisted_record \<Rightarrow> slot \<Rightarrow> slot" where
  "slot_flush a r sl = (if slot_flushes r sl then slot_close a sl else sl)"

definition collected :: "book_event \<Rightarrow> pending_snapshot option \<Rightarrow> pending_snapshot" where
  "collected e pn =
     (let p = (case pn of Some p \<Rightarrow> p | None \<Rightarrow> \<lparr> pn_key = snapshot_key e, pn_bids = [], pn_asks = [],
             pn_sequence = 0, pn_last_recv_timestamp_us = recv_timestamp_us (be_provenance e) \<rparr>)
      in (case be_side e of
            Bid \<Rightarrow> p\<lparr> pn_bids := pn_bids p @ [(be_price e, be_size e)] \<rparr>
          | Ask \<Rightarrow> p\<lparr> pn_asks := pn_asks p @ [(be_price e, be_size e)] \<rparr>)
         \<lparr> pn_sequence := seq_raw (seq_or_default (prov_sequence (be_provenance e))),
           pn_last_recv_timestamp_us := recv_timestamp_us (be_provenance e) \<rparr>)"

definition seen_at :: "event_provenance \<Rightarrow> asset_state \<Rightarrow> asset_state" where
  "seen_at prov st = st\<lparr> st_last_recv_timestamp_us := Some (recv_timestamp_us prov),
     st_last_exchange_timestamp_us := Some (exchange_timestamp_us prov) \<rparr>"

definition with_delta :: "book_event \<Rightarrow> asset_state \<Rightarrow> asset_state option" where
  "with_delta e st =
     (let prov = be_provenance e
      in case try_apply_delta (st_book st) (be_side e) (be_price e) (be_size e)
             (seq_or_default (prov_sequence prov)) (recv_timestamp_us prov) of
           None \<Rightarrow> None
         | Some (book, Inl err) \<Rightarrow>
             Some (st\<lparr> st_book := book, st_latest_warning :=
               Some (apply_error_warning (recv_timestamp_us prov) (exchange_timestamp_us prov) err) \<rparr>)
         | Some (book, Inr _) \<Rightarrow> Some (integrity_checked (seen_at prov (st\<lparr> st_book := book \<rparr>))))"

definition ingest_warning :: "ingest_event \<Rightarrow> continuity_warning" where
  "ingest_warning e = \<lparr> cw_kind = ingest_kind_display (ie_kind e),
     cw_recv_timestamp_us = recv_timestamp_us (ie_provenance e),
     cw_exchange_timestamp_us = exchange_timestamp_us (ie_provenance e), cw_details = ie_details e \<rparr>"

definition cp_levels :: "price_level list \<Rightarrow> book_side" where
  "cp_levels = map (\<lambda>l. (pl_price l, pl_size l))"

definition with_checkpoint :: "book_checkpoint \<Rightarrow> asset_state \<Rightarrow> asset_state" where
  "with_checkpoint c st =
     (let prov = cp_provenance c;
          (book, r) = try_apply_snapshot (st_book st) (cp_levels (cp_bids c)) (cp_levels (cp_asks c))
            seq_default (cp_timestamp_us c)
      in case r of
           Inl err \<Rightarrow> st\<lparr> st_book := book, st_latest_warning :=
             Some (apply_error_warning (recv_timestamp_us prov) (exchange_timestamp_us prov) err) \<rparr>
         | Inr _ \<Rightarrow> integrity_checked (seen_at prov (st\<lparr> st_book := book, st_initialized := True \<rparr>)))"

definition is_uninitialized :: "asset_state option \<Rightarrow> bool" where
  "is_uninitialized st = (case st of None \<Rightarrow> True | Some x \<Rightarrow> \<not> st_initialized x)"

definition slot_record :: "string \<Rightarrow> persisted_record \<Rightarrow> slot \<Rightarrow> slot option" where
  "slot_record a r sl =
     (case r of
        Book e \<Rightarrow>
          if be_asset_id e \<noteq> a then Some sl
          else
            (case be_kind e of
               Snapshot \<Rightarrow> Some (Some (seen_at (be_provenance e) (found a (fst sl))), Some (collected e (snd sl)))
             | Delta \<Rightarrow> map_option (\<lambda>st. (Some st, snd sl)) (with_delta e (found a (fst sl))))
      | Ingest e \<Rightarrow>
          if ie_asset_id e = Some a
          then Some (Some ((found a (fst sl))\<lparr> st_latest_warning := Some (ingest_warning e) \<rparr>), snd sl)
          else Some sl
      | Checkpoint c \<Rightarrow>
          if cp_asset_id c = a \<and> is_uninitialized (fst sl)
          then Some (Some (with_checkpoint c (found a (fst sl))), snd sl)
          else Some sl
      | _ \<Rightarrow> Some sl)"

definition slot_step :: "string \<Rightarrow> persisted_record \<Rightarrow> slot \<Rightarrow> slot option" where
  "slot_step a r sl = slot_record a r (slot_flush a r sl)"

section \<open>Invariants\<close>

definition asset_ok :: "string \<Rightarrow> asset_state \<Rightarrow> bool" where
  "asset_ok a st \<longleftrightarrow> book_inv (st_book st) \<and> lb_asset_id (st_book st) = a"

definition slot_ok :: "string \<Rightarrow> slot \<Rightarrow> bool" where
  "slot_ok a sl \<longleftrightarrow> (\<forall>st. fst sl = Some st \<longrightarrow> asset_ok a st) \<and>
     (\<forall>p. snd sl = Some p \<longrightarrow> gk_asset_id (pn_key p) = a \<and> fst sl \<noteq> None)"

definition live_ok :: "live_state \<Rightarrow> bool" where
  "live_ok s \<longleftrightarrow> hm_ok (ls_assets s) \<and> hm_ok (ls_pending_snapshots s) \<and> (\<forall>a. slot_ok a (slot_at s a))"

lemma snapshot_asset: "try_apply_snapshot b bs as sq ts = (b', r) \<Longrightarrow> lb_asset_id b' = lb_asset_id b"
  by (auto simp: try_apply_snapshot_def split: sum.splits)

lemma delta_asset: "try_apply_delta b s p z sq ts = Some (b', r) \<Longrightarrow> lb_asset_id b' = lb_asset_id b"
  by (auto simp: try_apply_delta_def stamp_def split: side.splits option.splits sum.splits)

lemma asset_ok_simps [simp]:
  "asset_ok a (integrity_checked st) = asset_ok a st"
  "asset_ok a (st\<lparr> st_latest_warning := w \<rparr>) = asset_ok a st"
  "asset_ok a (st\<lparr> st_initialized := i \<rparr>) = asset_ok a st"
  "asset_ok a (seen_at prov st) = asset_ok a st"
  "asset_ok a (asset_state_new a)"
  by (auto simp: asset_ok_def integrity_checked_def seen_at_def asset_state_new_def book_new_def
      book_inv_def split: sum.split)

lemma found_ok: "slot_ok a sl \<Longrightarrow> asset_ok a (found a (fst sl))"
  by (auto simp: found_def slot_ok_def split: option.split)

lemma applied_ok:
  assumes "asset_ok a st" "try_apply_snapshot (st_book st) bs as sq ts = (book, r)"
  shows "asset_ok a (st\<lparr> st_book := book \<rparr>)"
  using assms book_apply_inv [OF _ assms(2)] snapshot_asset [OF assms(2)] by (simp add: asset_ok_def)

lemma group_applied_ok: "asset_ok a st \<Longrightarrow> asset_ok a (fst (group_applied p st))"
proof -
  assume ok: "asset_ok a st"
  obtain book r where ap: "try_apply_snapshot (st_book st) (pn_bids p) (pn_asks p) (Sequence (pn_sequence p))
      (pn_last_recv_timestamp_us p) = (book, r)" by (metis surj_pair)
  have "asset_ok a (st\<lparr> st_book := book \<rparr>)" by (rule applied_ok [OF ok ap])
  then show ?thesis
    by (auto simp: group_applied_def ap Let_def asset_ok_def integrity_checked_def split: sum.split)
qed

lemma slot_close_ok: "slot_ok a sl \<Longrightarrow> slot_ok a (slot_close a sl)"
  using group_applied_ok [OF found_ok, of a sl] by (auto simp: slot_close_def slot_ok_def split: option.split)

lemma slot_flush_ok: "slot_ok a sl \<Longrightarrow> slot_ok a (slot_flush a r sl)"
  by (simp add: slot_flush_def slot_close_ok)

text \<open>After the flush the collected group, if any, is the record's.\<close>

lemma flushed_group: "snd (slot_flush a r sl) = Some p \<Longrightarrow> keeps_group r p"
  by (auto simp: slot_flush_def slot_flushes_def slot_close_def split: option.splits if_splits)

lemma with_delta_ok:
  assumes "asset_ok a st"
  obtains st' where "with_delta e st = Some st'" "asset_ok a st'"
proof -
  have "book_inv (st_book st)" using assms by (simp add: asset_ok_def)
  from book_delta_inv [OF this] obtain book r where
    ap: "try_apply_delta (st_book st) (be_side e) (be_price e) (be_size e)
        (seq_or_default (prov_sequence (be_provenance e))) (recv_timestamp_us (be_provenance e)) = Some (book, r)"
      and inv: "book_inv book" by blast
  have "asset_ok a (st\<lparr> st_book := book \<rparr>)" using assms inv delta_asset [OF ap] by (simp add: asset_ok_def)
  then have "\<exists>st'. with_delta e st = Some st' \<and> asset_ok a st'"
    by (cases r) (auto simp: with_delta_def ap Let_def asset_ok_def seen_at_def integrity_checked_def split: sum.split)
  then show ?thesis using that by blast
qed

lemma with_checkpoint_ok: "asset_ok a st \<Longrightarrow> asset_ok a (with_checkpoint c st)"
proof -
  assume ok: "asset_ok a st"
  obtain book r where ap: "try_apply_snapshot (st_book st) (cp_levels (cp_bids c)) (cp_levels (cp_asks c)) seq_default
      (cp_timestamp_us c) = (book, r)" by (metis surj_pair)
  have "asset_ok a (st\<lparr> st_book := book \<rparr>)" by (rule applied_ok [OF ok ap])
  then show ?thesis
    by (auto simp: with_checkpoint_def ap Let_def asset_ok_def integrity_checked_def seen_at_def split: sum.split)
qed

lemma slot_record_ok:
  assumes ok: "slot_ok a sl"
  shows "\<exists>sl'. slot_record a r sl = Some sl' \<and> slot_ok a sl'"
proof -
  obtain st pn where sl: "sl = (st, pn)" by (cases sl)
  note fok = found_ok [OF ok, unfolded sl fst_conv]
  show ?thesis
  proof (cases r)
    case (Book e)
    show ?thesis
    proof (cases "be_asset_id e = a")
      case True
      show ?thesis
      proof (cases "be_kind e")
        case Snapshot
        have "gk_asset_id (pn_key (collected e pn)) = a"
          using True ok by (auto simp: sl collected_def Let_def snapshot_key_def slot_ok_def split: option.split side.split)
        with Book True Snapshot fok show ?thesis by (simp add: sl slot_record_def slot_ok_def)
      next
        case Delta
        from with_delta_ok [OF fok, of e] obtain st' where "with_delta e (found a st) = Some st'" "asset_ok a st'" .
        with Book True Delta ok show ?thesis by (auto simp: sl slot_record_def slot_ok_def)
      qed
    qed (use Book ok in \<open>simp add: slot_record_def\<close>)
  next
    case (Ingest e)
    with ok fok show ?thesis by (auto simp: sl slot_record_def slot_ok_def)
  next
    case (Checkpoint c)
    with ok with_checkpoint_ok [OF fok, of c] show ?thesis by (auto simp: sl slot_record_def slot_ok_def)
  qed (use ok in \<open>simp_all add: slot_record_def\<close>)
qed

lemma slot_step_ok:
  assumes "slot_ok a sl"
  obtains sl' where "slot_step a r sl = Some sl'" "slot_ok a sl'"
  using slot_record_ok [OF slot_flush_ok [OF assms, of r], of r] that
  by (auto simp: slot_step_def)

section \<open>The live state refines its assets\<close>

lemma found_at: "found a (fst (slot_at s a)) = asset_at s a"
  by (simp add: found_def slot_at_def asset_at_def)

lemma materialize_slot:
  assumes "materialize_pending_for_asset a s = (s', ok)"
  shows "slot_at s' b = (if b = a then slot_close a (slot_at s a) else slot_at s b)"
    "frame_of s' = frame_of s" "ok = slot_accepts a (slot_at s a)"
    "hm_ok (ls_assets s) \<Longrightarrow> hm_ok (ls_assets s')"
    "hm_ok (ls_pending_snapshots s) \<Longrightarrow> hm_ok (ls_pending_snapshots s')"
proof -
  consider "hm_get (ls_pending_snapshots s) a = None" | p where "hm_get (ls_pending_snapshots s) a = Some p" by blast
  then have "slot_at s' b = (if b = a then slot_close a (slot_at s a) else slot_at s b) \<and>
     frame_of s' = frame_of s \<and> ok = slot_accepts a (slot_at s a) \<and>
     (hm_ok (ls_assets s) \<longrightarrow> hm_ok (ls_assets s')) \<and>
     (hm_ok (ls_pending_snapshots s) \<longrightarrow> hm_ok (ls_pending_snapshots s'))"
  proof cases
    case 1
    with assms show ?thesis by (auto simp: materialize_none slot_at_def slot_close_def slot_accepts_def)
  next
    case (2 p)
    show ?thesis
      using materialize_some [OF 2 assms] 2
      by (simp add: slot_at_def slot_close_def slot_accepts_def found_def asset_at_def hm_get_remove hm_ok_remove)
  qed
  then show "slot_at s' b = (if b = a then slot_close a (slot_at s a) else slot_at s b)"
    "frame_of s' = frame_of s" "ok = slot_accepts a (slot_at s a)"
    "hm_ok (ls_assets s) \<Longrightarrow> hm_ok (ls_assets s')"
    "hm_ok (ls_pending_snapshots s) \<Longrightarrow> hm_ok (ls_pending_snapshots s')" by blast+
qed

lemma slot_close_close [simp]: "slot_close a (slot_close a sl) = slot_close a sl"
  by (simp add: slot_close_def split: option.split)

lemma materialize_assets_slots:
  "materialize_assets as s = (s', ms) \<Longrightarrow>
   (\<forall>b. slot_at s' b = (if b \<in> set as then slot_close b (slot_at s b) else slot_at s b)) \<and>
   frame_of s' = frame_of s \<and> (distinct as \<longrightarrow> ms = filter (\<lambda>b. slot_accepts b (slot_at s b)) as) \<and>
   (hm_ok (ls_assets s) \<longrightarrow> hm_ok (ls_assets s')) \<and> (hm_ok (ls_pending_snapshots s) \<longrightarrow> hm_ok (ls_pending_snapshots s'))"
proof (induction as arbitrary: s s' ms)
  case (Cons a as)
  obtain s1 ok where m: "materialize_pending_for_asset a s = (s1, ok)" by (metis surj_pair)
  obtain s2 rest where r: "materialize_assets as s1 = (s2, rest)" by (metis surj_pair)
  note one = materialize_slot [OF m]
  note more_steps = Cons.IH [OF r]
  have res: "s' = s2" "ms = (if ok then a # rest else rest)" using Cons.prems by (simp_all add: m r)
  have "rest = filter (\<lambda>b. slot_accepts b (slot_at s b)) as" if "distinct (a # as)"
  proof -
    have "rest = filter (\<lambda>b. slot_accepts b (slot_at s1 b)) as" using that more_steps by simp
    also have "\<dots> = filter (\<lambda>b. slot_accepts b (slot_at s b)) as"
      by (rule filter_cong) (use that one(1) in auto)
    finally show ?thesis .
  qed
  with one more_steps show ?case by (auto simp: res)
qed simp


text \<open>The flush before a record closes exactly the groups it does not belong to.\<close>

lemma flush_slots:
  assumes ok: "hm_ok (ls_assets s)" "hm_ok (ls_pending_snapshots s)"
    and m: "materialize_pending_before_record r s = (s', ms)"
  shows "slot_at s' b = slot_flush b r (slot_at s b)" "frame_of s' = frame_of s"
    "set ms = {b. slot_flushes r (slot_at s b) \<and> slot_accepts b (slot_at s b)}"
    "hm_ok (ls_assets s')" "hm_ok (ls_pending_snapshots s')"
proof -
  define ks where "ks = map fst (filter (\<lambda>e. \<not> keeps_group r (snd e)) (ls_pending_snapshots s))"
  have d: "distinct ks" using ok(2) by (simp add: ks_def hm_ok_def distinct_map_filter)
  have mem: "b \<in> set ks \<longleftrightarrow> slot_flushes r (slot_at s b)" for b
  proof -
    have "(b, p) \<in> set (ls_pending_snapshots s) \<longleftrightarrow> hm_get (ls_pending_snapshots s) b = Some p" for p
      using ok(2) by (simp add: hm_get_def hm_ok_def)
    then show ?thesis
      by (auto simp: ks_def slot_flushes_def slot_at_def image_iff Bex_def split: option.split)
  qed
  have keeps_none: "ks = hm_keys (ls_pending_snapshots s)" if "\<And>p. \<not> keeps_group r p"
    using that by (simp add: ks_def hm_keys_def)
  have "materialize_pending_before_record r s = materialize_assets ks s"
  proof (cases r)
    case (Book e)
    show ?thesis
    proof (cases "be_kind e")
      case Snapshot
      then have "ks = map fst (filter (\<lambda>p. pn_key (snd p) \<noteq> snapshot_key e) (ls_pending_snapshots s))"
        by (simp add: ks_def Book keeps_group_def)
      then show ?thesis by (simp add: materialize_pending_before_record_def Book Snapshot)
    next
      case Delta
      then have "\<not> keeps_group r p" for p by (simp add: keeps_group_def Book)
      from keeps_none [OF this] show ?thesis
        by (simp add: materialize_pending_before_record_def Book Delta materialize_all_pending_def)
    qed
  qed (use keeps_none in \<open>simp_all add: keeps_group_def materialize_pending_before_record_def materialize_all_pending_def\<close>)
  with m have "materialize_assets ks s = (s', ms)" by simp
  note res = materialize_assets_slots [OF this]
  show "slot_at s' b = slot_flush b r (slot_at s b)" "frame_of s' = frame_of s"
    "set ms = {b. slot_flushes r (slot_at s b) \<and> slot_accepts b (slot_at s b)}"
    "hm_ok (ls_assets s')" "hm_ok (ls_pending_snapshots s')"
    using res d ok mem by (auto simp: slot_flush_def)
qed

text \<open>The effect of a record on the fields outside the two maps.\<close>

definition frame_step :: "persisted_record \<Rightarrow> live_state \<Rightarrow> live_state" where
  "frame_step r s =
     (case r of
        Ingest e \<Rightarrow>
          let s1 = (case ie_kind e of
                      ReconnectStart \<Rightarrow> s\<lparr> ls_session_status := Reconnecting \<rparr>
                    | ReconnectSuccess \<Rightarrow>
                        s\<lparr> ls_session_status := Connected,
                           ls_current_session_id := source_session_id (ie_provenance e) \<rparr>
                    | _ \<Rightarrow> s)
          in if ie_asset_id e = None then s1\<lparr> ls_latest_global_warning := Some (ingest_warning e) \<rparr> else s1
      | _ \<Rightarrow> s)"

lemma slot_at_put:
  "hm_get (ls_assets s') = (hm_get (ls_assets s))(a \<mapsto> st) \<Longrightarrow> ls_pending_snapshots s' = ls_pending_snapshots s \<Longrightarrow>
   slot_at s' b = (if b = a then (Some st, snd (slot_at s a)) else slot_at s b)"
  by (simp add: slot_at_def)

text \<open>A level joins the group of its asset; after the flush no other group of the asset is open.\<close>

lemma record_snapshot_slots:
  assumes ok: "hm_ok (ls_assets s)" "hm_ok (ls_pending_snapshots s)" and k: "be_kind e = Snapshot"
    and group: "\<forall>p. snd (slot_at s (be_asset_id e)) = Some p \<longrightarrow> keeps_group (Book e) p"
  shows "Some (slot_at (record_snapshot_event e s) b) = slot_record b (Book e) (slot_at s b) \<and>
    frame_of (record_snapshot_event e s) = frame_of s \<and>
    hm_ok (ls_assets (record_snapshot_event e s)) \<and> hm_ok (ls_pending_snapshots (record_snapshot_event e s))"
proof -
  let ?a = "be_asset_id e"
  obtain s1 p where po: "pending_or_new e s = (s1, p)" by (metis surj_pair)
  have key: "pn_key p = snapshot_key e"
    using po group by (auto simp: pending_or_new_def slot_at_def keeps_group_def Let_def split: option.splits)
  then have rec: "record_snapshot_event e s = collect_level e p s1"
    by (subst record_snapshot_event.simps) (simp add: po)
  let ?c = "collected e (snd (slot_at s ?a))"
  let ?s2 = "s1\<lparr> ls_pending_snapshots := hm_insert ?a ?c (ls_pending_snapshots s1) \<rparr>"
  have s1: "ls_assets s1 = ls_assets s" "frame_of s1 = frame_of s" "hm_ok (ls_pending_snapshots s1)"
      "b \<noteq> ?a \<Longrightarrow> hm_get (ls_pending_snapshots s1) b = hm_get (ls_pending_snapshots s) b" for b
    using po ok(2) by (auto simp: pending_or_new_def Let_def hm_rules split: option.splits)
  have "(case be_side e of Bid \<Rightarrow> p\<lparr> pn_bids := pn_bids p @ [(be_price e, be_size e)] \<rparr>
        | Ask \<Rightarrow> p\<lparr> pn_asks := pn_asks p @ [(be_price e, be_size e)] \<rparr>)
      \<lparr> pn_sequence := seq_raw (seq_or_default (prov_sequence (be_provenance e))),
         pn_last_recv_timestamp_us := recv_timestamp_us (be_provenance e) \<rparr> = ?c"
    using po by (auto simp: collected_def slot_at_def pending_or_new_def Let_def split: option.splits)
  then have eq: "record_snapshot_event e s =
      put_asset ?a (seen_at (be_provenance e) (asset_at ?s2 ?a)) (fst (ensure_asset ?a ?s2))"
    unfolding rec collect_level_def Let_def
    by (simp add: ensure_asset_eq seen_at_def case_prod_beta)
  have at: "asset_at ?s2 ?a = found ?a (fst (slot_at s ?a))" by (simp add: asset_at_def s1 found_def slot_at_def)
  have get: "slot_at (record_snapshot_event e s) b =
      (if b = ?a then (Some (seen_at (be_provenance e) (found ?a (fst (slot_at s ?a)))), Some ?c) else slot_at s b)"
    unfolding eq at using s1(4) [of b] by (simp add: slot_at_def ensured_put s1 hm_get_insert)
  show ?thesis
    using get k s1 ok by (simp add: slot_record_def eq ensured_put hm_ok_insert)
qed

lemma checked_ensured:
  "hm_get (ls_assets (check_book_integrity a (put_asset a st (fst (ensure_asset a s))))) =
     (hm_get (ls_assets s))(a \<mapsto> integrity_checked st)"
  "ls_pending_snapshots (check_book_integrity a (put_asset a st (fst (ensure_asset a s)))) = ls_pending_snapshots s"
  "frame_of (check_book_integrity a (put_asset a st (fst (ensure_asset a s)))) = frame_of s"
  "hm_ok (ls_assets s) \<Longrightarrow> hm_ok (ls_assets (check_book_integrity a (put_asset a st (fst (ensure_asset a s)))))"
  by (auto simp: checked_put_effect ensure_asset_eq put_asset_get put_asset_ok fun_eq_iff)

lemma put_slot:
  assumes "hm_get (ls_assets s') = (hm_get (ls_assets s))(a \<mapsto> st)" "ls_pending_snapshots s' = ls_pending_snapshots s"
  shows "slot_at s' = (slot_at s)(a := (Some st, snd (slot_at s a)))"
  using assms by (simp add: slot_at_def fun_eq_iff)

lemma record_delta_slots:
  assumes "hm_ok (ls_assets s)"
  shows "case record_delta_event e s of
      None \<Rightarrow> with_delta e (asset_at s (be_asset_id e)) = None
    | Some s' \<Rightarrow> (\<exists>st. with_delta e (asset_at s (be_asset_id e)) = Some st \<and>
        slot_at s' = (slot_at s)(be_asset_id e := (Some st, snd (slot_at s (be_asset_id e))))) \<and>
        frame_of s' = frame_of s \<and> hm_ok (ls_assets s') \<and> ls_pending_snapshots s' = ls_pending_snapshots s"
proof (cases "try_apply_delta (st_book (asset_at s (be_asset_id e))) (be_side e) (be_price e) (be_size e)
    (seq_or_default (prov_sequence (be_provenance e))) (recv_timestamp_us (be_provenance e))")
  case None
  then show ?thesis by (simp add: record_delta_event_def with_delta_def Let_def case_prod_beta)
next
  case (Some x)
  obtain book r where x: "x = (book, r)" by (cases x)
  show ?thesis
    using Some assms
    by (cases r)
      (simp_all add: x record_delta_event_def with_delta_def Let_def case_prod_beta seen_at_def
        checked_ensured ensured_put put_slot)
qed

lemma record_ingest_slots:
  assumes "hm_ok (ls_assets s)"
  shows "slot_at (record_ingest_event e s) =
      (case ie_asset_id e of None \<Rightarrow> slot_at s
       | Some a \<Rightarrow> (slot_at s)(a := (Some ((asset_at s a)\<lparr> st_latest_warning := Some (ingest_warning e) \<rparr>), snd (slot_at s a)))) \<and>
    frame_of (record_ingest_event e s) = frame_step (Ingest e) (frame_of s) \<and>
    hm_ok (ls_assets (record_ingest_event e s)) \<and>
    ls_pending_snapshots (record_ingest_event e s) = ls_pending_snapshots s"
proof -
  define s1 where "s1 = (case ie_kind e of
      ReconnectStart \<Rightarrow> s\<lparr> ls_session_status := Reconnecting \<rparr>
    | ReconnectSuccess \<Rightarrow> s\<lparr> ls_session_status := Connected,
        ls_current_session_id := source_session_id (ie_provenance e) \<rparr>
    | _ \<Rightarrow> s)"
  have s1: "ls_assets s1 = ls_assets s" "ls_pending_snapshots s1 = ls_pending_snapshots s"
    by (simp_all add: s1_def split: ingest_event_kind.split)
  then have at: "asset_at s1 a = asset_at s a" "slot_at s1 = slot_at s" for a
    by (simp_all add: asset_at_def slot_at_def fun_eq_iff)
  have eq: "record_ingest_event e s = (case ie_asset_id e of
       Some a \<Rightarrow> put_asset a ((asset_at s a)\<lparr> st_latest_warning := Some (ingest_warning e) \<rparr>) (fst (ensure_asset a s1))
     | None \<Rightarrow> s1\<lparr> ls_latest_global_warning := Some (ingest_warning e) \<rparr>)"
    unfolding record_ingest_event_def s1_def [symmetric] ingest_warning_def [symmetric] Let_def
    by (simp add: case_prod_beta at split: option.split)
  show ?thesis
  proof (cases "ie_asset_id e")
    case None
    have "slot_at (s1\<lparr> ls_latest_global_warning := w \<rparr>) = slot_at s" for w
      by (simp add: slot_at_def s1 fun_eq_iff)
    then show ?thesis
      using None assms by (simp add: eq s1 frame_step_def frame_of_def Let_def) (simp add: s1_def split: ingest_event_kind.split)
  next
    case (Some a)
    have "frame_of s1 = frame_step (Ingest e) (frame_of s)"
      using Some by (simp add: s1_def frame_step_def frame_of_def split: ingest_event_kind.split)
    with Some assms show ?thesis by (simp add: eq ensured_put put_slot s1 at)
  qed
qed

lemma apply_checkpoint_slots:
  assumes "hm_ok (ls_assets s)"
  shows "slot_at (apply_checkpoint_live c s) =
      (slot_at s)(cp_asset_id c := (Some (with_checkpoint c (asset_at s (cp_asset_id c))), snd (slot_at s (cp_asset_id c)))) \<and>
    frame_of (apply_checkpoint_live c s) = frame_of s \<and> hm_ok (ls_assets (apply_checkpoint_live c s)) \<and>
    ls_pending_snapshots (apply_checkpoint_live c s) = ls_pending_snapshots s"
proof -
  obtain book r where ap: "try_apply_snapshot (st_book (asset_at s (cp_asset_id c))) (cp_levels (cp_bids c))
      (cp_levels (cp_asks c)) seq_default (cp_timestamp_us c) = (book, r)" by (metis surj_pair)
  show ?thesis
    using ap assms unfolding cp_levels_def
    by (cases r)
      (simp_all add: apply_checkpoint_live_def with_checkpoint_def Let_def case_prod_beta seen_at_def cp_levels_def
        checked_ensured ensured_put put_slot)
qed

text \<open>Which assets an outcome names.\<close>

definition record_changes :: "string \<Rightarrow> persisted_record \<Rightarrow> slot \<Rightarrow> bool" where
  "record_changes b r sl =
     (case r of
        Book e \<Rightarrow> be_asset_id e = b
      | Ingest e \<Rightarrow> ie_asset_id e = Some b
      | Checkpoint c \<Rightarrow> cp_asset_id c = b \<and> is_uninitialized (fst sl)
      | _ \<Rightarrow> False)"

definition record_broadcasts :: "string \<Rightarrow> persisted_record \<Rightarrow> slot \<Rightarrow> bool" where
  "record_broadcasts b r sl =
     (case r of
        Book e \<Rightarrow> be_asset_id e = b \<and> be_kind e = Delta
      | Checkpoint c \<Rightarrow> cp_asset_id c = b \<and> is_uninitialized (fst sl)
      | _ \<Rightarrow> False)"

definition slot_materializes :: "string \<Rightarrow> persisted_record \<Rightarrow> slot \<Rightarrow> bool" where
  "slot_materializes b r sl \<longleftrightarrow> slot_flushes r sl \<and> slot_accepts b sl"

definition names_exactly :: "apply_outcome \<Rightarrow> string set \<Rightarrow> string set \<Rightarrow> bool \<Rightarrow> bool" where
  "names_exactly out cs bs p \<longleftrightarrow> set (ao_changed_assets out) = cs \<and> set (ao_broadcast_assets out) = bs \<and>
     distinct (ao_broadcast_assets out) \<and> (ao_should_publish out \<longleftrightarrow> p)"

lemma set_push_unique [simp]: "set (push_unique_asset as a) = insert a (set as)"
  by (auto simp: push_unique_asset_def list_all_iff)

lemma distinct_push_unique [simp]: "distinct as \<Longrightarrow> distinct (push_unique_asset as a)"
  by (auto simp: push_unique_asset_def list_all_iff)

lemma names_marked:
  "names_exactly out cs bs p \<Longrightarrow> names_exactly (mark_asset_changed a out) (insert a cs) bs True"
  "names_exactly out cs bs p \<Longrightarrow> names_exactly (mark_asset_broadcast a out) cs (insert a bs) True"
  "names_exactly out cs bs p \<Longrightarrow> names_exactly (out\<lparr> ao_should_publish := True \<rparr>) cs bs True"
  by (auto simp: names_exactly_def mark_asset_changed_def mark_asset_broadcast_def)

lemma names_materialized: "names_exactly (outcome_of_materialized ms) (set ms) (set ms) (ms \<noteq> [])"
proof (induction ms rule: rev_induct)
  case (snoc a ms)
  have "outcome_of_materialized (ms @ [a]) =
      mark_asset_broadcast a (mark_asset_changed a (outcome_of_materialized ms))"
    by (simp add: outcome_of_materialized_def)
  with names_marked(2) [OF names_marked(1) [OF snoc.IH], of a a] show ?case by (simp add: names_exactly_def)
qed (simp add: names_exactly_def outcome_of_materialized_def)

text \<open>
  One record on the live state: every asset makes its own step, the fields outside the maps make
  theirs, and the outcome names the assets whose group was materialized and the record's own.
\<close>

lemma live_apply_slots:
  assumes ok: "live_ok s"
  obtains s' out where "live_apply_record r s = Some (s', out)" "live_ok s'"
    "\<And>b. slot_step b r (slot_at s b) = Some (slot_at s' b)" "frame_of s' = frame_step r (frame_of s)"
    "names_exactly out
       {b. slot_materializes b r (slot_at s b) \<or> record_changes b r (slot_flush b r (slot_at s b))}
       {b. slot_materializes b r (slot_at s b) \<or> record_broadcasts b r (slot_flush b r (slot_at s b))}
       ((\<exists>b. slot_materializes b r (slot_at s b) \<or> record_changes b r (slot_flush b r (slot_at s b))) \<or> (\<exists>e. r = Ingest e))"
proof -
  obtain s1 ms where m: "materialize_pending_before_record r s = (s1, ms)" by (metis surj_pair)
  have okm: "hm_ok (ls_assets s)" "hm_ok (ls_pending_snapshots s)" using ok by (simp_all add: live_ok_def)
  note fl = flush_slots [OF okm m]
  have slots: "slot_ok b (slot_at s1 b)" for b using ok slot_flush_ok by (simp add: fl(1) live_ok_def)
  let ?M = "{b. slot_materializes b r (slot_at s b)}"
  have M: "set ms = ?M" by (simp add: fl(3) slot_materializes_def)
  define out0 where "out0 = outcome_of_materialized ms"
  have n0: "names_exactly out0 ?M ?M (\<exists>b. slot_materializes b r (slot_at s b))"
  proof -
    have "ms \<noteq> [] \<longleftrightarrow> (\<exists>b. slot_materializes b r (slot_at s b))" using M by (cases ms) auto
    then show ?thesis using names_materialized [of ms] unfolding out0_def M by simp
  qed
  have ap: "live_apply_record r s = (case r of
           Book e \<Rightarrow>
             (case be_kind e of
                Snapshot \<Rightarrow> Some (record_snapshot_event e s1, mark_asset_changed (be_asset_id e) out0)
              | Delta \<Rightarrow>
                  (case record_delta_event e s1 of
                     None \<Rightarrow> None
                   | Some s2 \<Rightarrow>
                       Some (s2, mark_asset_broadcast (be_asset_id e) (mark_asset_changed (be_asset_id e) out0))))
         | Ingest e \<Rightarrow>
             Some (record_ingest_event e s1,
               case ie_asset_id e of Some a \<Rightarrow> mark_asset_changed a (out0\<lparr> ao_should_publish := True \<rparr>)
               | None \<Rightarrow> out0\<lparr> ao_should_publish := True \<rparr>)
         | Checkpoint c \<Rightarrow>
             if is_uninitialized (fst (slot_at s1 (cp_asset_id c))) then
                  Some (apply_checkpoint_live c s1, mark_asset_broadcast (cp_asset_id c) (mark_asset_changed (cp_asset_id c) out0))
                else Some (s1, out0)
         | Trade _ \<Rightarrow> Some (s1, out0)
         | Validation _ \<Rightarrow> Some (s1, out0))"
    unfolding live_apply_record_def m prod.case out0_def [symmetric] Let_def is_uninitialized_def slot_at_def fst_conv
    by (rule refl)
  define goal where "goal s' out \<longleftrightarrow> hm_ok (ls_assets s') \<and> hm_ok (ls_pending_snapshots s') \<and>
      (\<forall>b. slot_record b r (slot_at s1 b) = Some (slot_at s' b)) \<and> frame_of s' = frame_step r (frame_of s1) \<and>
      names_exactly out (?M \<union> {b. record_changes b r (slot_at s1 b)}) (?M \<union> {b. record_broadcasts b r (slot_at s1 b)})
        ((\<exists>b. slot_materializes b r (slot_at s b) \<or> record_changes b r (slot_at s1 b)) \<or> (\<exists>e. r = Ingest e))" for s' out
  have own [simp]: "(\<exists>b. P b \<or> x = b) \<longleftrightarrow> True" for P and x :: string by auto
  have "\<exists>s' out. live_apply_record r s = Some (s', out) \<and> goal s' out"
  proof (cases r)
    case (Book e)
    show ?thesis
    proof (cases "be_kind e")
      case Snapshot
      have "\<forall>p. snd (slot_at s1 (be_asset_id e)) = Some p \<longrightarrow> keeps_group (Book e) p"
        unfolding fl(1) Book using flushed_group by blast
      note step = record_snapshot_slots [OF fl(4,5) Snapshot this]
      then have "\<forall>b. slot_record b (Book e) (slot_at s1 b) = Some (slot_at (record_snapshot_event e s1) b)" by simp
      moreover have "names_exactly (mark_asset_changed (be_asset_id e) out0) (?M \<union> {be_asset_id e}) (?M \<union> {}) True"
        using names_marked(1) [OF n0] by simp
      ultimately show ?thesis using step
        by (simp add: ap [unfolded Book] goal_def Book Snapshot frame_step_def record_changes_def record_broadcasts_def)
    next
      case Delta
      have "asset_ok (be_asset_id e) (asset_at s1 (be_asset_id e))" using found_ok [OF slots] by (simp add: found_at)
      from with_delta_ok [OF this, of e] obtain st where st: "with_delta e (asset_at s1 (be_asset_id e)) = Some st" .
      with record_delta_slots [OF fl(4), of e] obtain s2 where
        s2: "record_delta_event e s1 = Some s2" "slot_at s2 = (slot_at s1)(be_asset_id e := (Some st, snd (slot_at s1 (be_asset_id e))))"
          "frame_of s2 = frame_of s1" "hm_ok (ls_assets s2)" "ls_pending_snapshots s2 = ls_pending_snapshots s1"
        by (auto split: option.splits)
      have "names_exactly (mark_asset_broadcast (be_asset_id e) (mark_asset_changed (be_asset_id e) out0))
          (?M \<union> {be_asset_id e}) (?M \<union> {be_asset_id e}) True"
        using names_marked(2) [OF names_marked(1) [OF n0]] by simp
      then show ?thesis
        using s2 st fl(5)
        by (auto simp: ap [unfolded Book] goal_def Book Delta slot_record_def found_at frame_step_def record_changes_def record_broadcasts_def)
    qed
  next
    case (Ingest e)
    have out: "names_exactly (case ie_asset_id e of Some a \<Rightarrow> mark_asset_changed a (out0\<lparr> ao_should_publish := True \<rparr>)
        | None \<Rightarrow> out0\<lparr> ao_should_publish := True \<rparr>) (?M \<union> {b. ie_asset_id e = Some b}) (?M \<union> {}) True"
      using names_marked(3) [OF n0] names_marked(1) [OF names_marked(3) [OF n0]] by (cases "ie_asset_id e") simp_all
    show ?thesis
      using record_ingest_slots [OF fl(4), of e] fl(5) out
      by (cases "ie_asset_id e")
        (auto simp: ap [unfolded Ingest] goal_def Ingest slot_record_def found_at record_changes_def record_broadcasts_def)
  next
    case (Checkpoint c)
    have out: "names_exactly (mark_asset_broadcast (cp_asset_id c) (mark_asset_changed (cp_asset_id c) out0))
        (?M \<union> {cp_asset_id c}) (?M \<union> {cp_asset_id c}) True"
      using names_marked(2) [OF names_marked(1) [OF n0]] by simp
    show ?thesis
    proof (cases "is_uninitialized (fst (slot_at s1 (cp_asset_id c)))")
      case True
      then have own: "record_changes b (Checkpoint c) (slot_at s1 b) \<longleftrightarrow> cp_asset_id c = b"
          "record_broadcasts b (Checkpoint c) (slot_at s1 b) \<longleftrightarrow> cp_asset_id c = b" for b
        by (auto simp: record_changes_def record_broadcasts_def)
      have slot: "slot_record b (Checkpoint c) (slot_at s1 b) = Some (slot_at (apply_checkpoint_live c s1) b)" for b
        using apply_checkpoint_slots [OF fl(4), of c] True by (simp add: slot_record_def found_at)
      have "goal (apply_checkpoint_live c s1) (mark_asset_broadcast (cp_asset_id c) (mark_asset_changed (cp_asset_id c) out0))"
        using apply_checkpoint_slots [OF fl(4), of c] fl(5) out slot
        by (simp add: goal_def Checkpoint frame_step_def own)
      with True show ?thesis by (simp add: ap [unfolded Checkpoint] Checkpoint)
    next
      case False
      then have own: "\<not> record_changes b (Checkpoint c) (slot_at s1 b)"
          "\<not> record_broadcasts b (Checkpoint c) (slot_at s1 b)" for b
        by (auto simp: record_changes_def record_broadcasts_def)
      have slot: "slot_record b (Checkpoint c) (slot_at s1 b) = Some (slot_at s1 b)" for b
        using False by (auto simp: slot_record_def)
      have "goal s1 out0" using n0 fl(4,5) slot by (simp add: goal_def Checkpoint frame_step_def own)
      with False show ?thesis by (simp add: ap [unfolded Checkpoint] Checkpoint)
    qed
  next
    case (Trade t)
    with n0 fl(4,5) show ?thesis
      by (simp add: ap [unfolded Trade] goal_def Trade slot_record_def frame_step_def record_changes_def record_broadcasts_def)
  next
    case (Validation v)
    with n0 fl(4,5) show ?thesis
      by (simp add: ap [unfolded Validation] goal_def Validation slot_record_def frame_step_def record_changes_def record_broadcasts_def)
  qed
  then obtain s' out where r: "live_apply_record r s = Some (s', out)" "goal s' out" by blast
  note g = r(2) [unfolded goal_def]
  have step: "slot_step b r (slot_at s b) = Some (slot_at s' b)" for b
    using g by (simp add: slot_step_def fl(1) [symmetric])
  have "slot_ok b (slot_at s' b)" for b
    using slot_record_ok [OF slots, of b r] g by (metis option.inject)
  then have "live_ok s'" using g by (simp add: live_ok_def)
  moreover have un: "{b. P b} \<union> {b. Q b} = {b. P b \<or> Q b}" for P Q :: "string \<Rightarrow> bool" by auto
  ultimately show ?thesis using that [OF r(1) _ step] g fl(2) by (simp only: fl(1) un)
qed


section \<open>Runs\<close>

fun live_run :: "persisted_record list \<Rightarrow> live_state \<Rightarrow> live_state option" where
  "live_run [] s = Some s"
| "live_run (r # rs) s = (case live_apply_record r s of None \<Rightarrow> None | Some (s', _) \<Rightarrow> live_run rs s')"

fun slot_run :: "string \<Rightarrow> persisted_record list \<Rightarrow> slot \<Rightarrow> slot option" where
  "slot_run a [] sl = Some sl"
| "slot_run a (r # rs) sl = (case slot_step a r sl of None \<Rightarrow> None | Some sl' \<Rightarrow> slot_run a rs sl')"

lemma live_run_slots:
  "live_ok s \<Longrightarrow> \<exists>s'. live_run recs s = Some s' \<and> live_ok s' \<and> (\<forall>a. slot_run a recs (slot_at s a) = Some (slot_at s' a))"
proof (induction recs arbitrary: s)
  case (Cons r recs)
  from live_apply_slots [OF Cons.prems, of r] obtain s1 out where
    s1: "live_apply_record r s = Some (s1, out)" "live_ok s1" "\<And>b. slot_step b r (slot_at s b) = Some (slot_at s1 b)" by blast
  from Cons.IH [OF s1(2)] s1 show ?case by simp
qed simp

text \<open>The active set: kept assets keep their state, new ones are empty, the others are dropped.\<close>

lemma retain_other: "b \<notin> set as \<Longrightarrow> hm_get (retain_assets as m ret) b = hm_get ret b"
  by (induction as arbitrary: m ret) (auto simp: hm_get_insert)

lemma retain_fresh:
  "a \<in> set as \<Longrightarrow> (\<And>b. hm_get m b = None) \<Longrightarrow> hm_get (retain_assets as m ret) a = Some (asset_state_new a)"
proof (induction as arbitrary: m ret)
  case (Cons b as)
  then show ?case
  proof (cases "a \<in> set as")
    case False
    with Cons.prems show ?thesis by (simp add: hm_get_insert retain_other)
  qed (simp add: hm_get_remove)
qed simp

lemma retain_ok:
  assumes "hm_ok ret" "\<And>b st. hm_get m b = Some st \<Longrightarrow> asset_ok b st" "\<And>b st. hm_get ret b = Some st \<Longrightarrow> asset_ok b st"
  shows "hm_ok (retain_assets as m ret) \<and> (\<forall>b. b \<in> set as \<longrightarrow> hm_get (retain_assets as m ret) b \<noteq> None) \<and>
    (\<forall>b. hm_get ret b \<noteq> None \<longrightarrow> hm_get (retain_assets as m ret) b \<noteq> None) \<and>
    (\<forall>b st. hm_get (retain_assets as m ret) b = Some st \<longrightarrow> asset_ok b st)"
  using assms
proof (induction as arbitrary: m ret)
  case (Cons a as)
  let ?ret = "hm_insert a (case hm_get m a of Some st \<Rightarrow> st | None \<Rightarrow> asset_state_new a) ret"
  have "hm_ok ?ret" using Cons.prems(1) by (rule hm_ok_insert)
  moreover have "hm_get (hm_remove a m) b = Some st \<Longrightarrow> asset_ok b st" for b st
    using Cons.prems(2) by (auto simp: hm_get_remove split: if_splits)
  moreover have "hm_get ?ret b = Some st \<Longrightarrow> asset_ok b st" for b st
    using Cons.prems(2,3) by (auto simp: hm_get_insert split: if_splits option.splits)
  ultimately have "hm_ok (retain_assets as (hm_remove a m) ?ret) \<and>
    (\<forall>b. b \<in> set as \<longrightarrow> hm_get (retain_assets as (hm_remove a m) ?ret) b \<noteq> None) \<and>
    (\<forall>b. hm_get ?ret b \<noteq> None \<longrightarrow> hm_get (retain_assets as (hm_remove a m) ?ret) b \<noteq> None) \<and>
    (\<forall>b st. hm_get (retain_assets as (hm_remove a m) ?ret) b = Some st \<longrightarrow> asset_ok b st)"
    by (rule Cons.IH)
  then show ?case by (simp add: hm_get_insert)
qed simp

lemma set_active_ok: "live_ok s \<Longrightarrow> live_ok (set_active_assets as s)"
proof -
  assume ok: "live_ok s"
  have assets: "asset_ok b st" if "hm_get (ls_assets s) b = Some st" for b st
    using ok that by (auto simp: live_ok_def slot_ok_def slot_at_def)
  have pend: "gk_asset_id (pn_key p) = b" if "hm_get (ls_pending_snapshots s) b = Some p" for b p
    using ok that by (auto simp: live_ok_def slot_ok_def slot_at_def)
  have "hm_ok []" "\<And>b st. hm_get [] b = Some st \<Longrightarrow> asset_ok b st" by (simp_all add: hm_ok_def hm_get_def)
  note ret = retain_ok [OF this(1) assets this(2), where as = as]
  have keep: "hm_get (filter (\<lambda>e. list_ex (\<lambda>c. c = fst e) as) (ls_pending_snapshots s)) b =
      (if b \<in> set as then hm_get (ls_pending_snapshots s) b else None)" for b
    using hm_retain_get [of "\<lambda>k. list_ex (\<lambda>c. c = k) as" "ls_pending_snapshots s" b] by (auto simp: list_ex_iff)
  have "slot_ok b (slot_at (set_active_assets as s) b)" for b
    using ret pend by (auto simp: slot_ok_def slot_at_def set_active_assets_def keep split: if_splits)
  moreover have "hm_ok (ls_pending_snapshots s)" using ok by (simp add: live_ok_def)
  ultimately show ?thesis using ret hm_retain_ok by (simp add: live_ok_def set_active_assets_def)
qed

lemma retain_exact:
  "hm_get (retain_assets as m ret) b =
     (if count_list as b = 0 then hm_get ret b
      else Some (if count_list as b = 1 then found b (hm_get m b) else asset_state_new b))"
proof (induction as arbitrary: m ret)
  case (Cons a as)
  show ?case
  proof (cases "a = b")
    case True
    then show ?thesis unfolding retain_assets.simps Cons.IH by (simp add: hm_get_insert hm_get_remove found_def split: option.split)
  next
    case False
    then show ?thesis unfolding retain_assets.simps Cons.IH by (simp add: hm_get_insert hm_get_remove)
  qed
qed simp

text \<open>
  C30. A rotation of the active assets keeps the state of an asset that stays, gives a new one an empty
  book and drops the rest, together with the groups still collected. An asset the new list names
  more than once loses its book, too.
\<close>

theorem rotation_exact:
  "slot_at (set_active_assets as s) a =
     (if count_list as a = 0 then (None, None)
      else (Some (if count_list as a = 1 then found a (fst (slot_at s a)) else asset_state_new a), snd (slot_at s a)))"
proof -
  have "hm_get (filter (\<lambda>e. list_ex (\<lambda>c. c = fst e) as) (ls_pending_snapshots s)) a =
      (if a \<in> set as then hm_get (ls_pending_snapshots s) a else None)"
    using hm_retain_get [of "\<lambda>k. list_ex (\<lambda>c. c = k) as" "ls_pending_snapshots s" a] by (auto simp: list_ex_iff)
  moreover have "hm_get ([] :: (string, asset_state) hmap) a = None" by (simp add: hm_get_def)
  ultimately show ?thesis
    by (simp add: slot_at_def set_active_assets_def retain_exact count_list_0_iff)
qed

lemma live_new_ok: "live_ok (live_state_new mode)"
  by (simp add: live_ok_def live_state_new_def slot_ok_def slot_at_def hm_get_def hm_ok_def)

lemma live_runs_from_new:
  "\<exists>s'. live_run recs (set_active_assets as (live_state_new mode)) = Some s' \<and> live_ok s' \<and>
     (\<forall>a. slot_run a recs (if a \<in> set as then Some (asset_state_new a) else None, None) = Some (slot_at s' a))"
proof -
  let ?s = "set_active_assets as (live_state_new mode)"
  have none: "hm_get [] b = None" for b by (simp add: hm_get_def)
  have "slot_at ?s a = (if a \<in> set as then Some (asset_state_new a) else None, None)" for a
    using retain_fresh [of a as "[]" "[]"] retain_other [of a as "[]" "[]"]
    by (simp add: slot_at_def set_active_assets_def live_state_new_def none)
  with live_run_slots [OF set_active_ok [OF live_new_ok], of recs as mode] show ?thesis by metis
qed

text \<open>
  C29. The live read model keeps its assets apart and never aborts: from any start with a set of
  active assets, any sequence of records is applied, and what an asset holds afterwards (its book,
  its times, its warning and the snapshot group still collected) is what its own machine computes
  from the records; every book keeps its representation invariant.
\<close>

theorem live_assets_independent:
  "\<exists>s'. live_run recs (set_active_assets as (live_state_new mode)) = Some s' \<and> live_ok s' \<and>
     (\<forall>a. slot_run a recs (if a \<in> set as then Some (asset_state_new a) else None, None) = Some (slot_at s' a))"
  by (rule live_runs_from_new)

end
