(* ===== verification/LiveBook.thy ===== *)
theory LiveBook
  imports LiveSlots ShadowBook
begin

text \<open>
  The live book of an asset is the book any consumer rebuilds from the asset's records: the levels
  of a snapshot are collected and replace the book together, deltas set levels. This composes the
  live read model with the specification the dispatcher's shadow books are proved against.
\<close>

section \<open>The content of a slot\<close>

text \<open>An open group is what the asset's book becomes as soon as any other record arrives.\<close>

definition slot_content :: "string \<Rightarrow> slot \<Rightarrow> price_map \<times> price_map" where
  "slot_content a sl =
     (case snd sl of
        Some p \<Rightarrow> (snapshot_content (pn_bids p), snapshot_content (pn_asks p))
      | None \<Rightarrow> book_content (st_book (found a (fst sl))))"

definition content_fits :: "price_map \<times> price_map \<Rightarrow> bool" where
  "content_fits c \<longleftrightarrow> map_weight (fst c) < 2 ^ 64 \<and> map_weight (snd c) < 2 ^ 64"

text \<open>
  A level continues a snapshot when the record before it is a level with the same times and source
  event; the levels of a snapshot are numbered from zero.
\<close>

definition continues :: "persisted_record option \<Rightarrow> book_event \<Rightarrow> bool" where
  "continues prev e =
     (case prev of
        Some (Book e') \<Rightarrow> be_kind e' = Snapshot \<and> snapshot_key e' = snapshot_key e
      | _ \<Rightarrow> False)"

fun well_grouped :: "string \<Rightarrow> persisted_record option \<Rightarrow> persisted_record list \<Rightarrow> bool" where
  "well_grouped a prev [] = True"
| "well_grouped a prev (r # rs) =
     ((case r of
         Book e \<Rightarrow> be_asset_id e = a \<and> be_kind e = Snapshot \<longrightarrow>
           (prov_sequence (be_provenance e) = Some (Sequence 0)) \<noteq> continues prev e
       | Checkpoint c \<Rightarrow> cp_asset_id c \<noteq> a
       | _ \<Rightarrow> True) \<and> well_grouped a (Some r) rs)"

section \<open>One record\<close>

definition tracks :: "string \<Rightarrow> persisted_record option \<Rightarrow> slot \<Rightarrow> price_map \<times> price_map \<Rightarrow> bool" where
  "tracks a prev sl c \<longleftrightarrow> slot_ok a sl \<and> slot_content a sl = c \<and>
     (case snd sl of
        None \<Rightarrow> \<forall>e. prev = Some (Book e) \<longrightarrow> be_kind e = Snapshot \<longrightarrow> be_asset_id e \<noteq> a
      | Some p \<Rightarrow> spec_levels Map.empty (pn_bids p) \<noteq> None \<and> spec_levels Map.empty (pn_asks p) \<noteq> None \<and>
          (\<exists>e. prev = Some (Book e) \<and> be_kind e = Snapshot \<and> snapshot_key e = pn_key p))"

lemma snapshot_content_snoc:
  "snapshot_content (ls @ [(p, z)]) =
     (if size_is_zero z then snapshot_content ls else (snapshot_content ls)(p \<mapsto> z))"
  by (auto simp: snapshot_content_def fun_eq_iff)

lemma spec_levels_append:
  "spec_levels m (ls @ ms) = (case spec_levels m ls of None \<Rightarrow> None | Some m' \<Rightarrow> spec_levels m' ms)"
proof (induction ls arbitrary: m)
  case (Cons l ls)
  then show ?case by (cases l) (simp split: option.split)
qed simp

lemma spec_levels_snoc:
  assumes "spec_levels Map.empty ls \<noteq> None" "map_weight (snapshot_content (ls @ [(p, z)])) < 2 ^ 64"
  shows "spec_levels Map.empty (ls @ [(p, z)]) \<noteq> None"
proof -
  obtain m where m: "spec_levels Map.empty ls = Some m" using assms(1) by blast
  then have "m = snapshot_content ls" using spec_levels_content by fastforce
  with m assms(2) show ?thesis
    by (auto simp: spec_levels_append snapshot_content_snoc spec_delta_def split: if_splits)
qed

lemma checked_book [simp]:
  "st_book (integrity_checked st) = st_book st" "st_initialized (integrity_checked st) = st_initialized st"
  by (simp_all add: integrity_checked_def split: sum.split)

lemma group_applied_accepted:
  "try_apply_snapshot (st_book st) (pn_bids p) (pn_asks p) (Sequence (pn_sequence p)) (pn_last_recv_timestamp_us p) = (book, Inr ()) \<Longrightarrow>
   st_book (fst (group_applied p st)) = book \<and> st_initialized (fst (group_applied p st))"
  by (simp add: group_applied_def Let_def)

text \<open>Closing a group that fits is invisible in the content.\<close>

lemma close_content:
  assumes "slot_ok a sl" "tracks a prev sl c"
  shows "slot_content a (slot_close a sl) = c" "slot_ok a (slot_close a sl)" "snd (slot_close a sl) = None"
    "snd sl \<noteq> None \<Longrightarrow> \<exists>st. fst (slot_close a sl) = Some st \<and> st_initialized st"
proof -
  show "slot_ok a (slot_close a sl)" by (rule slot_close_ok [OF assms(1)])
  have "slot_content a (slot_close a sl) = c \<and> snd (slot_close a sl) = None \<and>
      (snd sl \<noteq> None \<longrightarrow> (\<exists>st. fst (slot_close a sl) = Some st \<and> st_initialized st))"
  proof (cases "snd sl")
    case None
    with assms show ?thesis by (simp add: slot_close_def tracks_def)
  next
    case (Some p)
    obtain book r where ap: "try_apply_snapshot (st_book (found a (fst sl))) (pn_bids p) (pn_asks p)
        (Sequence (pn_sequence p)) (pn_last_recv_timestamp_us p) = (book, r)" by (metis surj_pair)
    have "spec_levels Map.empty (pn_bids p) \<noteq> None" "spec_levels Map.empty (pn_asks p) \<noteq> None"
      using assms(2) Some by (simp_all add: tracks_def)
    then have "\<not> isl r" using arg_cong [OF ap, of "\<lambda>x. isl (snd x)"] by (simp only: snapshot_rejected_iff) simp
    then have r: "r = Inr ()" by (cases r) auto
    have "book_content book = c"
      using snapshot_sides [OF ap [unfolded r]] assms(2) Some
      by (simp add: book_content_def tracks_def slot_content_def)
    with group_applied_accepted [OF ap [unfolded r]] show ?thesis
      by (simp add: slot_close_def Some slot_content_def found_def [of _ "Some _"])
  qed
  then show "slot_content a (slot_close a sl) = c" "snd (slot_close a sl) = None"
    "snd sl \<noteq> None \<Longrightarrow> \<exists>st. fst (slot_close a sl) = Some st \<and> st_initialized st" by blast+
qed

lemma delta_content:
  assumes "asset_ok a st" "be_kind e = Delta"
    and fits: "content_fits (level_put (be_side e) (be_price e)
        (if size_is_zero (be_size e) then None else Some (be_size e)) (book_content (st_book st)))"
    and w: "with_delta e st = Some st'"
  shows "book_content (st_book st') = level_put (be_side e) (be_price e)
      (if size_is_zero (be_size e) then None else Some (be_size e)) (book_content (st_book st))"
proof -
  let ?q = "seq_or_default (prov_sequence (be_provenance e))" and ?t = "recv_timestamp_us (be_provenance e)"
  have inv: "book_inv (st_book st)" using assms(1) by (simp add: asset_ok_def)
  from book_delta_inv [OF inv] obtain book r where
    ap: "try_apply_delta (st_book st) (be_side e) (be_price e) (be_size e) ?q ?t = Some (book, r)" by blast
  have "spec_step (book_abs (st_book st)) (OpDelta (be_side e) (be_price e) (be_size e) ?q ?t) = (book_abs book, r)"
    using book_step_refines [OF inv, of "OpDelta (be_side e) (be_price e) (be_size e) ?q ?t"] ap by simp
  then have "r = Inr ()"
    using fits
    by (cases "be_side e")
      (auto simp: book_abs_def spec_delta_def content_fits_def level_put_def book_content_def
        book_bid_def [abs_def] book_ask_def [abs_def] split: if_splits)
  with ap have ap: "try_apply_delta (st_book st) (be_side e) (be_price e) (be_size e) ?q ?t = Some (book, Inr ())" by simp
  from book_delta_content [OF inv ap] w ap show ?thesis
    by (auto simp: with_delta_def seen_at_def Let_def)
qed

text \<open>Collecting a level.\<close>

definition group_content :: "pending_snapshot option \<Rightarrow> price_map \<times> price_map" where
  "group_content pn = (case pn of None \<Rightarrow> (Map.empty, Map.empty)
     | Some p \<Rightarrow> (snapshot_content (pn_bids p), snapshot_content (pn_asks p)))"

definition group_accepted :: "pending_snapshot option \<Rightarrow> bool" where
  "group_accepted pn = (case pn of None \<Rightarrow> True
     | Some p \<Rightarrow> spec_levels Map.empty (pn_bids p) \<noteq> None \<and> spec_levels Map.empty (pn_asks p) \<noteq> None)"

definition group_bids :: "pending_snapshot option \<Rightarrow> book_side" where
  "group_bids pn = (case pn of None \<Rightarrow> [] | Some p \<Rightarrow> pn_bids p)"

definition group_asks :: "pending_snapshot option \<Rightarrow> book_side" where
  "group_asks pn = (case pn of None \<Rightarrow> [] | Some p \<Rightarrow> pn_asks p)"

lemma group_lists:
  "group_content pn = (snapshot_content (group_bids pn), snapshot_content (group_asks pn))"
  "group_accepted pn \<longleftrightarrow> spec_levels Map.empty (group_bids pn) \<noteq> None \<and> spec_levels Map.empty (group_asks pn) \<noteq> None"
  by (simp_all add: group_content_def group_accepted_def group_bids_def group_asks_def snapshot_content_def split: option.split)

lemma collected_lists:
  "group_bids (Some (collected e pn)) = (if be_side e = Bid then group_bids pn @ [(be_price e, be_size e)] else group_bids pn)"
  "group_asks (Some (collected e pn)) = (if be_side e = Ask then group_asks pn @ [(be_price e, be_size e)] else group_asks pn)"
  by (simp_all add: group_bids_def group_asks_def collected_def Let_def split: option.split side.split)

lemma collected_content:
  "group_content (Some (collected e pn)) = side_put (be_side e, be_price e, be_size e) (group_content pn)"
  by (cases "be_side e") (simp_all add: group_lists collected_lists snapshot_content_snoc level_put_def)

lemma collected_key: "pn_key (collected e pn) = (case pn of None \<Rightarrow> snapshot_key e | Some p \<Rightarrow> pn_key p)"
  by (simp add: collected_def Let_def split: option.split side.split)

lemma collected_accepted:
  assumes "group_accepted pn" "content_fits (group_content (Some (collected e pn)))"
  shows "group_accepted (Some (collected e pn))"
  using assms spec_levels_snoc
  unfolding group_lists content_fits_def fst_conv snd_conv collected_lists
  by (cases "be_side e") simp_all

lemma tracks_group:
  "tracks a prev sl c \<Longrightarrow> snd sl \<noteq> None \<Longrightarrow> group_content (snd sl) = c \<and> group_accepted (snd sl)"
  by (auto simp: tracks_def group_content_def group_accepted_def slot_content_def)

lemma tracks_pending:
  assumes "slot_ok a sl" "snd sl = Some p" "group_content (snd sl) = c" "group_accepted (snd sl)"
    "be_kind e = Snapshot" "snapshot_key e = pn_key p"
  shows "tracks a (Some (Book e)) sl c"
  using assms by (auto simp: tracks_def group_content_def group_accepted_def slot_content_def)

lemma apply_level:
  assumes "be_asset_id e = a" "be_kind e = Snapshot"
  shows "apply_record a (Book e) c = side_put (be_side e, be_price e, be_size e)
    (if prov_sequence (be_provenance e) = Some (Sequence 0) then (Map.empty, Map.empty) else c)"
  using assms by (simp add: apply_record_def Let_def)

lemma tracks_step:
  assumes t: "tracks a prev sl c" and g: "well_grouped a prev (r # rs)"
    and fits: "content_fits (apply_record a r c)"
  obtains sl' where "slot_step a r sl = Some sl'" "tracks a (Some r) sl' (apply_record a r c)"
proof -
  have ok: "slot_ok a sl" using t by (simp add: tracks_def)
  note close = close_content [OF ok t]
  from slot_step_ok [OF ok, of r] obtain sl' where sl': "slot_step a r sl = Some sl'" "slot_ok a sl'" .
  have "tracks a (Some r) sl' (apply_record a r c)"
  proof (cases "\<exists>e. r = Book e \<and> be_asset_id e = a \<and> be_kind e = Snapshot")
    case True
    then obtain e where e: "r = Book e" "be_asset_id e = a" "be_kind e = Snapshot" by blast
    define pn where "pn = (if continues prev e then snd sl else None)"
    have zero: "prov_sequence (be_provenance e) = Some (Sequence 0) \<longleftrightarrow> \<not> continues prev e"
      using g e by auto
    have open_group: "\<exists>p. snd sl = Some p \<and> pn_key p = snapshot_key e" if cont: "continues prev e"
    proof -
      obtain e' where e': "prev = Some (Book e')" "be_kind e' = Snapshot" "snapshot_key e' = snapshot_key e"
        using cont by (auto simp: continues_def split: option.splits persisted_record.splits)
      then have "be_asset_id e' = a" using e(2) by (simp add: snapshot_key_def)
      with t e' show ?thesis by (auto simp: tracks_def split: option.splits)
    qed
    have other_group: "pn_key p \<noteq> snapshot_key e" if "\<not> continues prev e" "snd sl = Some p" for p
      using t that by (auto simp: tracks_def continues_def)
    have fl: "snd (slot_flush a r sl) = pn"
      using open_group other_group e close(3)
      by (auto simp: pn_def slot_flush_def slot_flushes_def keeps_group_def split: option.splits)
    have grp: "group_content pn = (if continues prev e then c else (Map.empty, Map.empty))" "group_accepted pn"
        "pn_key (collected e pn) = snapshot_key e"
      using open_group tracks_group [OF t] collected_key [of e pn]
      by (auto simp: pn_def group_content_def group_accepted_def)
    have new: "snd sl' = Some (collected e pn)"
      using sl'(1) e fl by (auto simp: slot_step_def slot_record_def)
    have con: "group_content (Some (collected e pn)) = apply_record a r c"
      unfolding collected_content e(1) apply_level [OF e(2,3)] zero grp(1) by simp
    show ?thesis unfolding e(1)
      by (rule tracks_pending [OF sl'(2) new])
        (use con collected_accepted [OF grp(2)] fits grp(3) e new in auto)
  next
    case False
    have fl: "slot_content a (slot_flush a r sl) = c" "slot_ok a (slot_flush a r sl)" "snd (slot_flush a r sl) = None"
    proof -
      have "slot_flushes r sl" if "snd sl = Some p" for p
        using False that ok by (auto simp: slot_flushes_def keeps_group_def slot_ok_def snapshot_key_def split: persisted_record.split)
      then show "slot_content a (slot_flush a r sl) = c" "slot_ok a (slot_flush a r sl)" "snd (slot_flush a r sl) = None"
        using close t by (auto simp: slot_flush_def tracks_def slot_flushes_def split: option.splits)
    qed
    define x where "x = slot_flush a r sl"
    note fl = fl [folded x_def]
    have st: "slot_record a r x = Some sl'" using sl'(1) by (simp add: slot_step_def x_def)
    have bc: "book_content (st_book (found a (fst x))) = c" using fl(1,3) by (simp add: slot_content_def)
    have "slot_content a sl' = apply_record a r c \<and> snd sl' = None"
    proof (cases r)
      case (Book e)
      show ?thesis
      proof (cases "be_asset_id e = a")
        case True
        then have k: "be_kind e = Delta" using False Book by (cases "be_kind e") auto
        with st Book True obtain st' where st': "with_delta e (found a (fst x)) = Some st'" "sl' = (Some st', snd x)"
          by (auto simp: slot_record_def)
        have app: "apply_record a r c = level_put (be_side e) (be_price e) (if size_is_zero (be_size e) then None else Some (be_size e)) c"
          using Book True k by (simp add: apply_record_def)
        show ?thesis
          using delta_content [OF found_ok [OF fl(2)] k, of st' , unfolded bc] st' fits fl(3)
          by (simp add: app slot_content_def found_def)
      qed (use st Book fl in \<open>auto simp: slot_record_def apply_record_def\<close>)
    next
      case (Ingest e)
      with st fl bc show ?thesis
        by (auto simp: slot_record_def apply_record_def slot_content_def found_def split: if_splits)
    next
      case (Checkpoint cp)
      with g st fl show ?thesis by (auto simp: slot_record_def apply_record_def)
    qed (use st fl in \<open>auto simp: slot_record_def apply_record_def\<close>)
    with sl'(2) False show ?thesis by (auto simp: tracks_def)
  qed
  with sl'(1) that show ?thesis by blast
qed


lemma tracks_run:
  "tracks a prev sl c \<Longrightarrow> well_grouped a prev recs \<Longrightarrow>
   (\<And>n. n \<le> length recs \<Longrightarrow> content_fits (fold (apply_record a) (take n recs) c)) \<Longrightarrow>
   \<exists>sl'. slot_run a recs sl = Some sl' \<and>
     tracks a (if recs = [] then prev else Some (last recs)) sl' (fold (apply_record a) recs c)"
proof (induction recs arbitrary: prev sl c)
  case Nil
  then show ?case by simp
next
  case (Cons r recs)
  have "content_fits (apply_record a r c)" using Cons.prems(3) [of 1] by simp
  from tracks_step [OF Cons.prems(1,2) this] obtain sl1 where
    sl1: "slot_step a r sl = Some sl1" "tracks a (Some r) sl1 (apply_record a r c)" .
  have "content_fits (fold (apply_record a) (take n recs) (apply_record a r c))" if "n \<le> length recs" for n
    using Cons.prems(3) [of "Suc n"] that by simp
  moreover have "well_grouped a (Some r) recs" using Cons.prems(2) by simp
  ultimately show ?case using Cons.IH [OF sl1(2)] sl1(1) by (cases "recs = []") simp_all
qed

lemma tracks_contents: "tracks a prev sl c \<Longrightarrow> slot_content a sl = c"
  by (simp add: tracks_def)

lemma tracks_new: "tracks a None (if P then Some (asset_state_new a) else None, None) (Map.empty, Map.empty)"
  by (simp add: tracks_def slot_ok_def slot_content_def found_def asset_state_new_def book_content_def asset_ok_def
      book_new_def book_inv_def book_bid_def [abs_def] book_ask_def [abs_def])
    (simp add: fun_eq_iff bt.get_empt)

text \<open>
  C25. The live book is the book of the records: when the levels of every snapshot of an asset come
  together and are numbered from zero, and its sides' totals never exceed 64 bits, then after any
  records, of whatever assets in whatever interleaving of kinds, the live book of the asset with the
  group still collected holds exactly the levels a consumer rebuilds from the asset's records.
\<close>

theorem live_book_is_rebuilt:
  assumes "well_grouped a None recs"
    and "\<forall>n\<le>length recs. content_fits (rebuilt_book a (take n recs))"
  shows "\<exists>s'. live_run recs (set_active_assets as (live_state_new mode)) = Some s' \<and>
    slot_content a (slot_at s' a) = rebuilt_book a recs"
proof -
  obtain s' where s': "live_run recs (set_active_assets as (live_state_new mode)) = Some s'"
      "slot_run a recs (if a \<in> set as then Some (asset_state_new a) else None, None) = Some (slot_at s' a)"
    using live_runs_from_new [of recs as mode] by blast
  show ?thesis
    using tracks_run [OF tracks_new assms(1), of "a \<in> set as"] assms(2) s' by (auto simp: rebuilt_book_def dest: tracks_contents)
qed


text \<open>A snapshot of one bid followed by a delta on the ask side, with another asset's trade between.\<close>

definition live_prov :: "u64 \<Rightarrow> sequence option \<Rightarrow> event_provenance" where
  "live_prov t q = \<lparr> recv_timestamp_us = t, exchange_timestamp_us = t, source = WebSocket,
     source_event_id = None, source_session_id = None, prov_sequence = q, ingest_ordinal = None \<rparr>"

definition live_records :: "persisted_record list" where
  "live_records =
     [Book \<lparr> be_asset_id = ''a'', be_kind = Snapshot, be_side = Bid, be_price = FixedPrice 4500,
        be_size = FixedSize 7, be_provenance = live_prov 10 (Some (Sequence 0)) \<rparr>,
      Ingest \<lparr> ie_asset_id = None, ie_kind = ReconnectStart, ie_provenance = live_prov 11 None,
        ie_expected_sequence = None, ie_observed_sequence = None, ie_details = None \<rparr>,
      Book \<lparr> be_asset_id = ''a'', be_kind = Delta, be_side = Ask, be_price = FixedPrice 5000,
        be_size = FixedSize 3, be_provenance = live_prov 12 (Some (Sequence 1)) \<rparr>]"

theorem live_book_is_rebuilt_witness:
  "\<exists>s'. live_run live_records (set_active_assets [''a''] (live_state_new AutoRotate)) = Some s' \<and>
    slot_content ''a'' (slot_at s' ''a'') = ([FixedPrice 4500 \<mapsto> FixedSize 7], [FixedPrice 5000 \<mapsto> FixedSize 3])"
proof -
  have grouped: "well_grouped ''a'' None live_records"
    by (simp add: live_records_def live_prov_def continues_def)
  have z: "\<not> size_is_zero (FixedSize 7)" "\<not> size_is_zero (FixedSize 3)" by (simp_all add: size_is_zero_def)
  have all: "rebuilt_book ''a'' live_records = ([FixedPrice 4500 \<mapsto> FixedSize 7], [FixedPrice 5000 \<mapsto> FixedSize 3])"
    by (simp add: rebuilt_book_def live_records_def live_prov_def apply_record_def level_put_def z)
  have "content_fits (rebuilt_book ''a'' (take n live_records))" for n
  proof -
    have "take n live_records \<in> {[], [live_records ! 0], [live_records ! 0, live_records ! 1], live_records}"
      by (cases n; cases "n - 1"; cases "n - 2") (auto simp: live_records_def take_Cons split: nat.split)
    then show ?thesis
      by (auto simp: all) (auto simp: rebuilt_book_def live_records_def live_prov_def apply_record_def level_put_def z
        content_fits_def map_weight_def)
  qed
  with live_book_is_rebuilt [OF grouped] all show ?thesis by metis
qed

end
