(* ===== verification/Streaming.thy ===== *)
theory Streaming
  imports Dto PB_Maps
begin

text \<open>
  \<open>crates/pb-api/src/streaming.rs\<close>: the broadcast channels of the active assets and the session of
  one WebSocket subscriber. The channels themselves (tokio's \<open>broadcast\<close>) and the JSON text of a
  message are parameters; the lock around the map is not modelled.
\<close>

section \<open>The channels of the active assets\<close>

definition BROADCAST_CAPACITY :: nat where
  "BROADCAST_CAPACITY = 256"

record ('s, 'r) broadcast_lib =
  bl_channel :: "nat \<Rightarrow> 's"
  bl_receiver_count :: "'s \<Rightarrow> nat"
  bl_send :: "book_update_message \<Rightarrow> 's \<Rightarrow> 's"
  bl_subscribe :: "'s \<Rightarrow> 's \<times> 'r"

type_synonym 's per_asset_broadcast = "(string, 's) hmap"

definition has_subscribers :: "('s, 'r) broadcast_lib \<Rightarrow> 's per_asset_broadcast \<Rightarrow> bool" where
  "has_subscribers lib m = list_ex (\<lambda>e. 0 < bl_receiver_count lib (snd e)) m"

definition broadcast_send :: "('s, 'r) broadcast_lib \<Rightarrow> book_update_message \<Rightarrow> 's per_asset_broadcast \<Rightarrow> 's per_asset_broadcast" where
  "broadcast_send lib msg m =
     (case hm_get m (bu_asset_id msg) of
        Some sender \<Rightarrow> hm_insert (bu_asset_id msg) (bl_send lib msg sender) m
      | None \<Rightarrow> m)"

definition broadcast_subscribe :: "('s, 'r) broadcast_lib \<Rightarrow> string \<Rightarrow> 's per_asset_broadcast \<Rightarrow>
    's per_asset_broadcast \<times> 'r option" where
  "broadcast_subscribe lib a m =
     (case hm_get m a of
        None \<Rightarrow> (m, None)
      | Some sender \<Rightarrow>
          let (sender', rx) = bl_subscribe lib sender
          in (hm_insert a sender' m, Some rx))"

definition broadcast_set_active :: "('s, 'r) broadcast_lib \<Rightarrow> string list \<Rightarrow> 's per_asset_broadcast \<Rightarrow> 's per_asset_broadcast" where
  "broadcast_set_active lib assets m =
     fold (\<lambda>a m. case hm_get m a of
             Some _ \<Rightarrow> m
           | None \<Rightarrow> hm_insert a (bl_channel lib BROADCAST_CAPACITY) m)
       assets (filter (\<lambda>e. list_ex (\<lambda>a. a = fst e) assets) m)"

text \<open>After a rotation the channels are those of the new active assets; a kept one keeps its subscribers.\<close>

lemma set_active_get:
  "hm_get (broadcast_set_active lib assets m) a =
     (if a \<in> set assets
      then Some (case hm_get m a of Some s \<Rightarrow> s | None \<Rightarrow> bl_channel lib BROADCAST_CAPACITY)
      else None)"
proof -
  let ?step = "\<lambda>a m. case hm_get m a of Some _ \<Rightarrow> m | None \<Rightarrow> hm_insert a (bl_channel lib BROADCAST_CAPACITY) m"
  have fold: "hm_get (fold ?step as m) a = (case hm_get m a of Some s \<Rightarrow> Some s
      | None \<Rightarrow> if a \<in> set as then Some (bl_channel lib BROADCAST_CAPACITY) else None)" for as m
    by (induction as arbitrary: m)
      (auto simp: hm_get_def hm_insert_def update_conv' split: option.split)
  have keep: "hm_get (filter (\<lambda>e. list_ex (\<lambda>a. a = fst e) assets) m) a = (if a \<in> set assets then hm_get m a else None)"
    using hm_retain_get [of "\<lambda>k. list_ex (\<lambda>c. c = k) assets" m a] by (auto simp: list_ex_iff)
  show ?thesis by (simp add: broadcast_set_active_def fold keep split: option.split)
qed

end
