(* ===== verification/Projector.thy ===== *)
theory Projector
  imports LiveSlots Streaming
begin

text \<open>
  The projector task of \<open>crates/pb-api/src/live_state.rs\<close>: the single writer that applies commands
  to the live state, publishes a read-only view of it and broadcasts book updates, and the queries
  answered from the published view. The broadcast channels are the shared map of the process; the
  watch channel is the last value sent; the clock of a query is an argument.
\<close>

section \<open>Published views\<close>

record asset_read_view =
  rv_sequence :: u64
  rv_last_update_us :: u64
  rv_best_bid :: "price_level_view option"
  rv_best_ask :: "price_level_view option"
  rv_mid_price :: "f64 option"
  rv_spread :: "f64 option"
  rv_bid_depth :: nat
  rv_ask_depth :: nat
  rv_bids :: "price_level_view list"
  rv_asks :: "price_level_view list"
  rv_initialized :: bool
  rv_has_pending :: bool
  rv_last_recv_timestamp_us :: "u64 option"
  rv_last_exchange_timestamp_us :: "u64 option"
  rv_latest_warning :: "continuity_warning option"

record published_state =
  pb_mode :: feed_mode
  pb_session_status :: session_status
  pb_current_session_id :: "string option"
  pb_active_assets :: "string list"
  pb_last_rotation_us :: "u64 option"
  pb_latest_global_warning :: "continuity_warning option"
  pb_assets :: "(string, asset_read_view) hmap"
  pb_hydrated :: bool

definition view_of :: "asset_state \<Rightarrow> bool \<Rightarrow> asset_read_view" where
  "view_of st pending =
     (let b = st_book st
      in \<lparr> rv_sequence = seq_raw (book_sequence b), rv_last_update_us = last_update_us b,
           rv_best_bid = map_option level_view (best_bid b), rv_best_ask = map_option level_view (best_ask b),
           rv_mid_price = mid_price b, rv_spread = spread b,
           rv_bid_depth = bid_depth b, rv_ask_depth = ask_depth b,
           rv_bids = map level_view (top_bids b (bid_depth b)), rv_asks = map level_view (top_asks b (ask_depth b)),
           rv_initialized = st_initialized st, rv_has_pending = pending,
           rv_last_recv_timestamp_us = st_last_recv_timestamp_us st,
           rv_last_exchange_timestamp_us = st_last_exchange_timestamp_us st,
           rv_latest_warning = st_latest_warning st \<rparr>)"

definition build_asset_view :: "live_state \<Rightarrow> string \<Rightarrow> asset_read_view option" where
  "build_asset_view s a =
     (case hm_get (ls_assets s) a of
        None \<Rightarrow> None
      | Some st \<Rightarrow> Some (view_of st (hm_get (ls_pending_snapshots s) a \<noteq> None)))"

definition view_entry :: "live_state \<Rightarrow> string \<Rightarrow> (string \<times> asset_read_view) option" where
  "view_entry s a = map_option (Pair a) (build_asset_view s a)"

definition build_published_state :: "live_state \<Rightarrow> published_state" where
  "build_published_state s =
     \<lparr> pb_mode = ls_mode s, pb_session_status = ls_session_status s,
       pb_current_session_id = ls_current_session_id s, pb_active_assets = ls_active_assets s,
       pb_last_rotation_us = ls_last_rotation_us s, pb_latest_global_warning = ls_latest_global_warning s,
       pb_assets = List.map_filter (view_entry s) (hm_keys (ls_assets s)), pb_hydrated = ls_hydrated s \<rparr>"

definition build_book_update :: "live_state \<Rightarrow> string \<Rightarrow> nat \<Rightarrow> book_update_message option" where
  "build_book_update s a depth =
     (if \<not> list_ex (\<lambda>c. c = a) (ls_active_assets s) then None
      else
        (case hm_get (ls_assets s) a of
           None \<Rightarrow> None
         | Some st \<Rightarrow>
             if \<not> st_initialized st then None
             else
               let b = st_book st
               in Some \<lparr> bu_asset_id = a, bu_slug = None, bu_sequence = seq_raw (book_sequence b),
                    bu_last_update_us = last_update_us b, bu_bid_depth = bid_depth b, bu_ask_depth = ask_depth b,
                    bu_bids = map level_view (top_bids b depth), bu_asks = map level_view (top_asks b depth),
                    bu_mid_price = mid_price b, bu_spread = spread b \<rparr>))"

section \<open>The projector\<close>

datatype projector_command =
    CmdRecord persisted_record
  | CmdRecordAck persisted_record
  | CmdSetActiveAssets "string list"
  | CmdSetLastRotationUs u64
  | CmdConfigureBroadcast nat
  | CmdHydrateCheckpoint book_checkpoint
  | CmdSetHydrated bool

record projector =
  pj_state :: live_state
  pj_published :: published_state
  pj_watch :: published_state
  pj_broadcast :: "nat option"

text \<open>\<open>LiveReadModel::new\<close>: the watch channel starts with the view of the new state.\<close>

definition projector_new :: "feed_mode \<Rightarrow> projector" where
  "projector_new mode =
     (let s = live_state_new mode
      in \<lparr> pj_state = s, pj_published = build_published_state s, pj_watch = build_published_state s,
           pj_broadcast = None \<rparr>)"

definition publish :: "projector \<Rightarrow> projector" where
  "publish pj = pj\<lparr> pj_watch := pj_published pj \<rparr>"

definition sync_metadata :: "projector \<Rightarrow> projector" where
  "sync_metadata pj =
     (let s = pj_state pj
      in pj\<lparr> pj_published := (pj_published pj)
           \<lparr> pb_session_status := ls_session_status s, pb_current_session_id := ls_current_session_id s,
             pb_last_rotation_us := ls_last_rotation_us s,
             pb_latest_global_warning := ls_latest_global_warning s, pb_hydrated := ls_hydrated s \<rparr> \<rparr>)"

definition rebuild_all_asset_views :: "projector \<Rightarrow> projector" where
  "rebuild_all_asset_views pj =
     pj\<lparr> pj_published := (pj_published pj)
       \<lparr> pb_assets := List.map_filter (view_entry (pj_state pj)) (hm_keys (ls_assets (pj_state pj))) \<rparr> \<rparr>"

definition refresh_view :: "live_state \<Rightarrow> string \<Rightarrow> (string, asset_read_view) hmap \<Rightarrow> (string, asset_read_view) hmap" where
  "refresh_view s a m =
     (case build_asset_view s a of
        Some v \<Rightarrow> hm_insert a v m
      | None \<Rightarrow> hm_remove a m)"

definition refresh_asset_views :: "string list \<Rightarrow> projector \<Rightarrow> projector" where
  "refresh_asset_views as pj =
     pj\<lparr> pj_published := (pj_published pj)
       \<lparr> pb_assets := fold (refresh_view (pj_state pj)) as (pb_assets (pj_published pj)) \<rparr> \<rparr>"

definition broadcast_updates :: "('s, 'r) broadcast_lib \<Rightarrow> live_state \<Rightarrow> nat \<Rightarrow> string list \<Rightarrow>
    's per_asset_broadcast \<Rightarrow> 's per_asset_broadcast" where
  "broadcast_updates lib s depth as channels =
     fold (\<lambda>a ch. case build_book_update s a depth of
             Some update \<Rightarrow> broadcast_send lib update ch
           | None \<Rightarrow> ch) as channels"

definition apply_and_broadcast :: "('s, 'r) broadcast_lib \<Rightarrow> persisted_record \<Rightarrow>
    projector \<times> 's per_asset_broadcast \<Rightarrow> (projector \<times> 's per_asset_broadcast) option" where
  "apply_and_broadcast lib r w =
     (let (pj, channels) = w
      in case live_apply_record r (pj_state pj) of
           None \<Rightarrow> None
         | Some (s', out) \<Rightarrow>
             let pj1 = pj\<lparr> pj_state := s' \<rparr>
             in if \<not> ao_should_publish out then Some (pj1, channels)
                else
                  let pj2 = publish (refresh_asset_views (ao_changed_assets out) (sync_metadata pj1))
                  in Some (pj2,
                       case pj_broadcast pj2 of
                         None \<Rightarrow> channels
                       | Some depth \<Rightarrow>
                           if has_subscribers lib channels
                           then broadcast_updates lib s' depth (ao_broadcast_assets out) channels
                           else channels))"

fun handle_command :: "('s, 'r) broadcast_lib \<Rightarrow> projector_command \<Rightarrow>
    projector \<times> 's per_asset_broadcast \<Rightarrow> (projector \<times> 's per_asset_broadcast) option" where
  "handle_command lib (CmdRecord r) w = apply_and_broadcast lib r w"
| "handle_command lib (CmdRecordAck r) w = apply_and_broadcast lib r w"
| "handle_command lib (CmdSetActiveAssets as) (pj, channels) =
     (let s' = set_active_assets as (pj_state pj);
          pj1 = pj\<lparr> pj_state := s', pj_published := (pj_published pj)\<lparr> pb_active_assets := ls_active_assets s' \<rparr> \<rparr>
      in Some (publish (rebuild_all_asset_views pj1), channels))"
| "handle_command lib (CmdSetLastRotationUs ts) (pj, channels) =
     Some (publish (pj\<lparr> pj_state := (pj_state pj)\<lparr> ls_last_rotation_us := Some ts \<rparr>,
        pj_published := (pj_published pj)\<lparr> pb_last_rotation_us := Some ts \<rparr> \<rparr>), channels)"
| "handle_command lib (CmdConfigureBroadcast depth) (pj, channels) =
     Some (pj\<lparr> pj_broadcast := Some depth \<rparr>, channels)"
| "handle_command lib (CmdHydrateCheckpoint c) (pj, channels) =
     (let pj1 = pj\<lparr> pj_state := apply_checkpoint_live c (pj_state pj) \<rparr>
      in Some (publish (refresh_asset_views [cp_asset_id c] pj1), channels))"
| "handle_command lib (CmdSetHydrated h) (pj, channels) =
     Some (publish (pj\<lparr> pj_state := (pj_state pj)\<lparr> ls_hydrated := h \<rparr>,
        pj_published := (pj_published pj)\<lparr> pb_hydrated := h \<rparr> \<rparr>), channels)"

text \<open>\<open>run\<close>: the commands in the order they are received.\<close>

fun run_projector :: "('s, 'r) broadcast_lib \<Rightarrow> projector_command list \<Rightarrow>
    projector \<times> 's per_asset_broadcast \<Rightarrow> (projector \<times> 's per_asset_broadcast) option" where
  "run_projector lib [] w = Some w"
| "run_projector lib (c # cs) w = (case handle_command lib c w of None \<Rightarrow> None | Some w' \<Rightarrow> run_projector lib cs w')"

text \<open>
  The forwarder of \<open>spawn_consumer_with_broadcast\<close>: the fan-out is configured first, then the records
  follow in order, at a cancellation those already buffered. \<open>accepts\<close> counts the commands the projector
  still takes before its channel closes (\<open>None\<close>: it stays open); the first refused one ends the task.
\<close>

datatype consumer_event =
    ConsumerRecord persisted_record
  | ConsumerClosed
  | ConsumerCancelled "persisted_record list"

fun consumer_records :: "consumer_event list \<Rightarrow> persisted_record list" where
  "consumer_records [] = []"
| "consumer_records (ConsumerRecord r # es) = r # consumer_records es"
| "consumer_records (ConsumerClosed # es) = []"
| "consumer_records (ConsumerCancelled buffered # es) = buffered"

definition consumer_with_broadcast :: "nat option \<Rightarrow> nat \<Rightarrow> consumer_event list \<Rightarrow> projector_command list" where
  "consumer_with_broadcast accepts default_depth es =
     (let cmds = CmdConfigureBroadcast default_depth # map CmdRecord (consumer_records es)
      in case accepts of None \<Rightarrow> cmds | Some n \<Rightarrow> take n cmds)"

section \<open>Queries\<close>

datatype snapshot_lookup_error = AssetNotActive | SnapshotNotReady

definition is_stale :: "u64 option \<Rightarrow> u64 \<Rightarrow> u64 \<Rightarrow> bool" where
  "is_stale last_recv_us stale_after_secs now_us =
     (case last_recv_us of
        None \<Rightarrow> True
      | Some t \<Rightarrow> saturating_mul stale_after_secs 1000000 < saturating_sub now_us t)"

definition snapshot_from_published :: "published_state \<Rightarrow> string \<Rightarrow> nat \<Rightarrow> u64 \<Rightarrow> u64 \<Rightarrow>
    snapshot_lookup_error + live_order_book_snapshot" where
  "snapshot_from_published pub a depth stale_after_secs now_us =
     (if \<not> list_ex (\<lambda>c. c = a) (pb_active_assets pub) then Inl AssetNotActive
      else
        (case hm_get (pb_assets pub) a of
           None \<Rightarrow> Inl SnapshotNotReady
         | Some v \<Rightarrow>
             if rv_has_pending v \<and> \<not> rv_initialized v then Inl SnapshotNotReady
             else if \<not> rv_initialized v then Inl SnapshotNotReady
             else Inr \<lparr> lo_asset_id = a, lo_slug = None, lo_sequence = rv_sequence v,
                    lo_last_update_us = rv_last_update_us v, lo_best_bid = rv_best_bid v,
                    lo_best_ask = rv_best_ask v, lo_mid_price = rv_mid_price v, lo_spread = rv_spread v,
                    lo_bid_depth = rv_bid_depth v, lo_ask_depth = rv_ask_depth v,
                    lo_bids = take depth (rv_bids v), lo_asks = take depth (rv_asks v),
                    lo_stale = is_stale (rv_last_recv_timestamp_us v) stale_after_secs now_us,
                    lo_latest_warning = rv_latest_warning v \<rparr>))"

definition live_snapshot :: "projector \<Rightarrow> string \<Rightarrow> nat \<Rightarrow> u64 \<Rightarrow> u64 \<Rightarrow> snapshot_lookup_error + live_order_book_snapshot" where
  "live_snapshot pj = snapshot_from_published (pj_watch pj)"

definition is_hydrated :: "projector \<Rightarrow> bool" where
  "is_hydrated pj = pb_hydrated (pj_watch pj)"

definition feed_status_raw :: "projector \<Rightarrow> feed_status_response" where
  "feed_status_raw pj =
     (let s = pj_watch pj
      in \<lparr> fs_mode = pb_mode s, fs_session_status = pb_session_status s,
           fs_current_session_id = pb_current_session_id s,
           fs_active_asset_count = length (pb_active_assets s),
           fs_active_assets = map (\<lambda>a. \<lparr> ar_asset_id = a, ar_slug = None \<rparr>) (pb_active_assets s),
           fs_last_rotation_us = pb_last_rotation_us s,
           fs_latest_global_warning = pb_latest_global_warning s \<rparr>)"

definition known_assets :: "projector \<Rightarrow> (string \<times> u64) list" where
  "known_assets pj =
     map (\<lambda>(a, v). (a, max (rv_last_update_us v) (case rv_last_recv_timestamp_us v of Some t \<Rightarrow> t | None \<Rightarrow> 0)))
       (pb_assets (pj_watch pj))"

definition active_assets :: "projector \<Rightarrow> u64 \<Rightarrow> u64 \<Rightarrow> active_asset_summary list" where
  "active_assets pj stale_after_secs now_us =
     map (\<lambda>a.
       let v = hm_get (pb_assets (pj_watch pj)) a;
           last_recv = Option.bind v rv_last_recv_timestamp_us
       in \<lparr> aa_asset_id = a, aa_slug = None, aa_label = None, aa_last_recv_timestamp_us = last_recv,
            aa_last_exchange_timestamp_us = Option.bind v rv_last_exchange_timestamp_us,
            aa_stale = is_stale last_recv stale_after_secs now_us,
            aa_has_book = (case v of Some x \<Rightarrow> rv_initialized x | None \<Rightarrow> False) \<rparr>)
       (pb_active_assets (pj_watch pj))"


section \<open>The published view follows the state\<close>

definition slot_view :: "slot \<Rightarrow> asset_read_view option" where
  "slot_view sl = map_option (\<lambda>st. view_of st (snd sl \<noteq> None)) (fst sl)"

text \<open>
  The view of an asset is the current one, or the asset's group was rejected since: then only the
  warning of the rejection and the closing of the group are not yet visible.
\<close>

definition view_current :: "published_state \<Rightarrow> string \<Rightarrow> slot \<Rightarrow> bool" where
  "view_current pub a sl \<longleftrightarrow> hm_get (pb_assets pub) a = slot_view sl \<or>
     (\<exists>st w. sl = (Some (st\<lparr> st_latest_warning := Some w \<rparr>), None) \<and> cw_kind w = ''book_apply_error'' \<and>
        hm_get (pb_assets pub) a = Some (view_of st True))"

definition meta_current :: "published_state \<Rightarrow> live_state \<Rightarrow> bool" where
  "meta_current pub s \<longleftrightarrow> pb_mode pub = ls_mode s \<and> pb_session_status pub = ls_session_status s \<and>
     pb_current_session_id pub = ls_current_session_id s \<and> pb_active_assets pub = ls_active_assets s \<and>
     pb_last_rotation_us pub = ls_last_rotation_us s \<and>
     pb_latest_global_warning pub = ls_latest_global_warning s \<and> pb_hydrated pub = ls_hydrated s"

definition projector_ok :: "projector \<Rightarrow> bool" where
  "projector_ok pj \<longleftrightarrow> live_ok (pj_state pj) \<and> pj_watch pj = pj_published pj \<and>
     meta_current (pj_published pj) (pj_state pj) \<and>
     (\<forall>a. view_current (pj_published pj) a (slot_at (pj_state pj) a))"

lemma build_slot_view: "build_asset_view s a = slot_view (slot_at s a)"
  by (simp add: build_asset_view_def slot_view_def slot_at_def split: option.split)

lemma refresh_get:
  "hm_get (fold (refresh_view s) as m) a = (if a \<in> set as then slot_view (slot_at s a) else hm_get m a)"
  by (induction as arbitrary: m)
    (auto simp: refresh_view_def build_slot_view hm_get_insert hm_get_remove split: option.split)

lemma view_entries_get:
  "hm_get (List.map_filter (view_entry s) ks) a = (if a \<in> set ks then slot_view (slot_at s a) else None)"
  by (induction ks) (auto simp: hm_get_def map_filter_simps view_entry_def build_slot_view split: option.split)

lemma all_views_get: "hm_get (List.map_filter (view_entry s) (hm_keys (ls_assets s))) a = slot_view (slot_at s a)"
  using hm_keys_get [of a "ls_assets s"] by (auto simp: view_entries_get slot_view_def slot_at_def)

text \<open>An asset that an outcome does not name kept its slot, but for a rejected group.\<close>

lemma slot_record_same: "\<not> record_changes a r sl \<Longrightarrow> slot_record a r sl = Some sl"
  by (auto simp: record_changes_def slot_record_def split: persisted_record.splits)

lemma rejected_close:
  assumes "slot_ok a sl" "snd sl = Some p" "\<not> slot_accepts a sl"
  obtains st w where "fst sl = Some st" "slot_close a sl = (Some (st\<lparr> st_latest_warning := Some w \<rparr>), None)"
    "cw_kind w = ''book_apply_error''"
proof -
  obtain st where st: "fst sl = Some st" using assms(1,2) by (auto simp: slot_ok_def)
  obtain book r where ap: "try_apply_snapshot (st_book st) (pn_bids p) (pn_asks p) (Sequence (pn_sequence p))
      (pn_last_recv_timestamp_us p) = (book, r)" by (metis surj_pair)
  from assms(2,3) st ap obtain err where r: "r = Inl err"
    by (cases r) (auto simp: slot_accepts_def found_def group_applied_def Let_def)
  then have "book = st_book st" using ap by (auto simp: try_apply_snapshot_def split: sum.splits)
  then have "slot_close a sl = (Some (st\<lparr> st_latest_warning := Some (apply_error_warning (pn_last_recv_timestamp_us p)
      (gk_exchange_timestamp_us (pn_key p)) err) \<rparr>), None)"
    using assms(2) st ap r by (simp add: slot_close_def found_def group_applied_def Let_def)
  then show ?thesis using that [OF st] by (simp add: apply_error_warning_def)
qed

lemma unnamed_current:
  assumes ok: "slot_ok a sl" and cur: "view_current pub a sl" and step: "slot_step a r sl = Some sl'"
    and un: "\<not> slot_materializes a r sl" "\<not> record_changes a r (slot_flush a r sl)"
  shows "view_current pub a sl'"
proof -
  have sl': "sl' = slot_flush a r sl" using step slot_record_same [OF un(2)] by (simp add: slot_step_def)
  show ?thesis
  proof (cases "slot_flushes r sl")
    case False
    with sl' cur show ?thesis by (simp add: slot_flush_def)
  next
    case True
    then obtain p where p: "snd sl = Some p" by (auto simp: slot_flushes_def split: option.splits)
    have "\<not> slot_accepts a sl" using un(1) True by (simp add: slot_materializes_def)
    from rejected_close [OF ok p this] obtain st w where c: "fst sl = Some st"
        "slot_close a sl = (Some (st\<lparr> st_latest_warning := Some w \<rparr>), None)" "cw_kind w = ''book_apply_error''" .
    have "hm_get (pb_assets pub) a = slot_view sl" using cur p by (auto simp: view_current_def)
    then have "hm_get (pb_assets pub) a = Some (view_of st True)" using c(1) p by (simp add: slot_view_def)
    with c sl' True show ?thesis by (auto simp: view_current_def slot_flush_def)
  qed
qed

lemma frame_meta:
  assumes "frame_of s' = frame_of s" "meta_current pub s"
  shows "meta_current pub s'"
  using frame_fields [OF assms(1)] assms(2) by (simp add: meta_current_def)

lemma record_keeps_ok:
  assumes ok: "projector_ok pj"
  obtains pj' ch' where "apply_and_broadcast lib r (pj, ch) = Some (pj', ch')" "projector_ok pj'"
proof -
  let ?s = "pj_state pj"
  have live: "live_ok ?s" using ok by (simp add: projector_ok_def)
  from live_apply_slots [OF live, of r] obtain s' out where
    s': "live_apply_record r ?s = Some (s', out)" "live_ok s'" "\<And>b. slot_step b r (slot_at ?s b) = Some (slot_at s' b)"
      "frame_of s' = frame_step r (frame_of ?s)" and
    n: "names_exactly out {b. slot_materializes b r (slot_at ?s b) \<or> record_changes b r (slot_flush b r (slot_at ?s b))}
       {b. slot_materializes b r (slot_at ?s b) \<or> record_broadcasts b r (slot_flush b r (slot_at ?s b))}
       ((\<exists>b. slot_materializes b r (slot_at ?s b) \<or> record_changes b r (slot_flush b r (slot_at ?s b))) \<or> (\<exists>e. r = Ingest e))"
    by blast
  have unnamed: "view_current (pj_published pj) b (slot_at s' b)" if "b \<notin> set (ao_changed_assets out)" for b
    by (rule unnamed_current [OF _ _ s'(3)]) (use ok live n that in \<open>auto simp: projector_ok_def live_ok_def names_exactly_def\<close>)
  show ?thesis
  proof (cases "ao_should_publish out")
    case False
    let ?pj = "pj\<lparr> pj_state := s' \<rparr>"
    have "apply_and_broadcast lib r (pj, ch) = Some (?pj, ch)" using s'(1) False by (simp add: apply_and_broadcast_def)
    moreover have "frame_of s' = frame_of ?s"
      using s'(4) n False by (auto simp: names_exactly_def frame_step_def split: persisted_record.split)
    then have "meta_current (pj_published pj) s'" using ok frame_meta by (auto simp: projector_ok_def)
    moreover have "set (ao_changed_assets out) = {}" using n False by (auto simp: names_exactly_def)
    ultimately show ?thesis using that unnamed ok s'(2) by (simp add: projector_ok_def)
  next
    case True
    let ?pj = "publish (refresh_asset_views (ao_changed_assets out) (sync_metadata (pj\<lparr> pj_state := s' \<rparr>)))"
    have "\<exists>ch'. apply_and_broadcast lib r (pj, ch) = Some (?pj, ch')"
      using s'(1) True by (simp add: apply_and_broadcast_def Let_def)
    moreover have "ls_mode s' = ls_mode ?s" "ls_active_assets s' = ls_active_assets ?s"
    proof -
      have "ls_mode (frame_of s') = ls_mode (frame_of ?s) \<and> ls_active_assets (frame_of s') = ls_active_assets (frame_of ?s)"
        unfolding s'(4) by (simp add: frame_step_def Let_def split: persisted_record.split ingest_event_kind.split)
      then show "ls_mode s' = ls_mode ?s" "ls_active_assets s' = ls_active_assets ?s" by (simp_all add: frame_of_def)
    qed
    then have "meta_current (pj_published ?pj) s'"
      using ok by (simp add: projector_ok_def meta_current_def publish_def refresh_asset_views_def sync_metadata_def Let_def)
    moreover have "view_current (pj_published ?pj) b (slot_at s' b)" for b
      using unnamed [of b]
      by (simp add: view_current_def publish_def refresh_asset_views_def sync_metadata_def Let_def refresh_get)
    ultimately show ?thesis using that s'(2)
      by (auto simp: projector_ok_def publish_def refresh_asset_views_def sync_metadata_def Let_def)
  qed
qed


lemma checkpoint_live_ok: "live_ok s \<Longrightarrow> live_ok (apply_checkpoint_live c s)"
proof -
  assume ok: "live_ok s"
  then have h: "hm_ok (ls_assets s)" by (simp add: live_ok_def)
  note eff = apply_checkpoint_slots [OF h, of c]
  let ?a = "cp_asset_id c"
  have "slot_ok ?a (slot_at s ?a)" using ok by (simp add: live_ok_def)
  from with_checkpoint_ok [OF found_ok [OF this], of c]
  have "asset_ok ?a (with_checkpoint c (asset_at s ?a))" by (simp add: found_at)
  then show ?thesis using ok eff by (auto simp: live_ok_def slot_ok_def)
qed

lemma command_keeps_ok:
  assumes ok: "projector_ok pj"
  obtains pj' ch' where "handle_command lib c (pj, ch) = Some (pj', ch')" "projector_ok pj'"
proof (cases c)
  case (CmdRecord r)
  with record_keeps_ok [OF ok, of lib r ch] that show ?thesis by auto
next
  case (CmdRecordAck r)
  with record_keeps_ok [OF ok, of lib r ch] that show ?thesis by auto
next
  case (CmdSetActiveAssets as)
  have "live_ok (set_active_assets as (pj_state pj))" using ok by (intro set_active_ok) (simp add: projector_ok_def)
  then show ?thesis
    using that CmdSetActiveAssets ok
    by (simp add: projector_ok_def view_current_def meta_current_def publish_def rebuild_all_asset_views_def Let_def all_views_get)
      (simp add: set_active_assets_def)
next
  case (CmdSetLastRotationUs ts)
  have "slot_at ((pj_state pj)\<lparr> ls_last_rotation_us := Some ts \<rparr>) = slot_at (pj_state pj)"
    by (simp add: slot_at_def fun_eq_iff)
  then show ?thesis
    using that CmdSetLastRotationUs ok
    by (simp add: projector_ok_def live_ok_def view_current_def meta_current_def publish_def)
next
  case (CmdConfigureBroadcast depth)
  then show ?thesis using that ok by (simp add: projector_ok_def)
next
  case (CmdHydrateCheckpoint cp)
  have live: "live_ok (pj_state pj)" using ok by (simp add: projector_ok_def)
  then have "hm_ok (ls_assets (pj_state pj))" by (simp add: live_ok_def)
  note eff = apply_checkpoint_slots [OF this, of cp]
  let ?s' = "apply_checkpoint_live cp (pj_state pj)"
  have meta: "meta_current (pj_published pj) ?s'" using ok eff frame_meta by (auto simp: projector_ok_def)
  let ?pj = "publish (refresh_asset_views [cp_asset_id cp] (pj\<lparr> pj_state := ?s' \<rparr>))"
  have "view_current (pj_published ?pj) b (slot_at ?s' b)" for b
    using ok eff refresh_get [of ?s' "[cp_asset_id cp]" "pb_assets (pj_published pj)" b]
    by (auto simp: projector_ok_def view_current_def publish_def refresh_asset_views_def)
  moreover have "meta_current (pj_published ?pj) ?s'"
    using meta by (simp add: meta_current_def publish_def refresh_asset_views_def)
  ultimately have "projector_ok ?pj"
    using checkpoint_live_ok [OF live] by (simp add: projector_ok_def publish_def refresh_asset_views_def)
  with that CmdHydrateCheckpoint show ?thesis by (simp add: Let_def)
next
  case (CmdSetHydrated h)
  have "slot_at ((pj_state pj)\<lparr> ls_hydrated := h \<rparr>) = slot_at (pj_state pj)"
    by (simp add: slot_at_def fun_eq_iff)
  then show ?thesis
    using that CmdSetHydrated ok
    by (simp add: projector_ok_def live_ok_def view_current_def meta_current_def publish_def)
qed

lemma projector_new_ok: "projector_ok (projector_new mode)"
  by (simp add: projector_ok_def projector_new_def Let_def live_new_ok meta_current_def build_published_state_def
      view_current_def all_views_get)

lemma run_keeps_ok:
  "projector_ok pj \<Longrightarrow> \<exists>pj' ch'. run_projector lib cmds (pj, ch) = Some (pj', ch') \<and> projector_ok pj'"
proof (induction cmds arbitrary: pj ch)
  case (Cons c cmds)
  from command_keeps_ok [OF Cons.prems, of lib c ch] obtain pj1 ch1 where
    "handle_command lib c (pj, ch) = Some (pj1, ch1)" "projector_ok pj1" .
  with Cons.IH [of pj1 ch1] show ?case by simp
qed simp

lemmas run_from_new = run_keeps_ok [OF projector_new_ok]

text \<open>
  C26. Readers see the state: whatever commands the projector has handled, it has not aborted, what it
  last published is its own copy, the status fields in it are those of the state, and the view of each
  asset is the current one, except that a rejected snapshot group shows only with the asset's next
  change: until then the view still announces the group and lacks the warning.
\<close>

theorem published_is_current:
  "\<exists>pj ch'. run_projector lib cmds (projector_new mode, ch) = Some (pj, ch') \<and>
     pj_watch pj = pj_published pj \<and> meta_current (pj_watch pj) (pj_state pj) \<and>
     (\<forall>a. view_current (pj_watch pj) a (slot_at (pj_state pj) a))"
  using run_from_new [of lib cmds mode ch] by (auto simp: projector_ok_def)

section \<open>What a query returns\<close>

definition served_book :: "asset_state \<Rightarrow> string \<Rightarrow> nat \<Rightarrow> u64 \<Rightarrow> u64 \<Rightarrow> continuity_warning option \<Rightarrow> live_order_book_snapshot" where
  "served_book st a depth stale_after_secs now_us w =
     (let b = st_book st
      in \<lparr> lo_asset_id = a, lo_slug = None, lo_sequence = seq_raw (book_sequence b),
           lo_last_update_us = last_update_us b, lo_best_bid = map_option level_view (best_bid b),
           lo_best_ask = map_option level_view (best_ask b), lo_mid_price = mid_price b, lo_spread = spread b,
           lo_bid_depth = bid_depth b, lo_ask_depth = ask_depth b,
           lo_bids = map level_view (top_bids b depth), lo_asks = map level_view (top_asks b depth),
           lo_stale = is_stale (st_last_recv_timestamp_us st) stale_after_secs now_us, lo_latest_warning = w \<rparr>)"

lemma served_view:
  "rv_initialized (view_of st p) = st_initialized st"
  "st_initialized st \<Longrightarrow> list_ex (\<lambda>c. c = a) (pb_active_assets pub) \<Longrightarrow> hm_get (pb_assets pub) a = Some (view_of st p) \<Longrightarrow>
   snapshot_from_published pub a depth sa now = Inr (served_book st a depth sa now (st_latest_warning st))"
  by (simp_all add: view_of_def snapshot_from_published_def served_book_def Let_def take_map
      top_bids_def top_asks_def bid_depth_def ask_depth_def min_def)

lemma query_answer:
  assumes "projector_ok pj"
  shows "\<exists>w. live_snapshot pj a depth sa now =
    (if a \<notin> set (ls_active_assets (pj_state pj)) then Inl AssetNotActive
     else case hm_get (ls_assets (pj_state pj)) a of
            None \<Rightarrow> Inl SnapshotNotReady
          | Some st \<Rightarrow> if st_initialized st then Inr (served_book st a depth sa now w) else Inl SnapshotNotReady)"
proof -
  let ?pub = "pj_watch pj" and ?sl = "slot_at (pj_state pj) a"
  have meta: "pb_active_assets ?pub = ls_active_assets (pj_state pj)" and cur: "view_current ?pub a ?sl"
    using assms by (simp_all add: projector_ok_def meta_current_def)
  have fst: "fst ?sl = hm_get (ls_assets (pj_state pj)) a" by (simp add: slot_at_def)
  have "\<exists>w. snapshot_from_published ?pub a depth sa now =
      (case fst ?sl of None \<Rightarrow> Inl SnapshotNotReady
       | Some st \<Rightarrow> if st_initialized st then Inr (served_book st a depth sa now w) else Inl SnapshotNotReady)"
    if act: "list_ex (\<lambda>c. c = a) (pb_active_assets ?pub)"
  proof (cases "hm_get (pb_assets ?pub) a")
    case None
    with cur have "fst ?sl = None" by (auto simp: view_current_def slot_view_def)
    with None act show ?thesis by (simp add: snapshot_from_published_def)
  next
    case (Some v)
    have "\<exists>st st0 p. fst ?sl = Some st \<and> v = view_of st0 p \<and> (st = st0 \<or> (\<exists>w. st = st0\<lparr> st_latest_warning := Some w \<rparr>))"
      using cur unfolding view_current_def
    proof (elim disjE exE conjE)
      assume "hm_get (pb_assets ?pub) a = slot_view ?sl"
      with Some show ?thesis by (cases "fst ?sl") (auto simp: slot_view_def)
    next
      fix st w assume "?sl = (Some (st\<lparr> st_latest_warning := Some w \<rparr>), None)" "hm_get (pb_assets ?pub) a = Some (view_of st True)"
      with Some show ?thesis by auto
    qed
    then obtain st st0 p where st: "fst ?sl = Some st" "v = view_of st0 p"
        "st = st0 \<or> (\<exists>w. st = st0\<lparr> st_latest_warning := Some w \<rparr>)" by blast
    have same: "st_initialized st = st_initialized st0" "served_book st a depth sa now w = served_book st0 a depth sa now w" for w
      using st(3) by (auto simp: served_book_def)
    show ?thesis
    proof (cases "st_initialized st0")
      case True
      from served_view(2) [OF True act, of p] Some st same True show ?thesis by auto
    next
      case False
      then show ?thesis using Some st act same served_view(1) [of st0 p] by (simp add: snapshot_from_published_def)
    qed
  qed
  moreover have "snapshot_from_published ?pub a depth sa now = Inl AssetNotActive"
    if "\<not> list_ex (\<lambda>c. c = a) (pb_active_assets ?pub)"
    using that by (simp add: snapshot_from_published_def)
  ultimately show ?thesis
    by (auto simp: live_snapshot_def meta fst list_ex_iff)
qed

text \<open>
  C27. A query is answered from the live book: an asset that is not active is refused, an active one
  without a complete snapshot is not ready, and otherwise the answer has the sequence, the times, the
  best prices, the depths and the top levels of the asset's live book. Only the warning can be older.
\<close>

theorem query_serves_live_book:
  "\<exists>pj ch'. run_projector lib cmds (projector_new mode, ch) = Some (pj, ch') \<and>
     (\<exists>w. live_snapshot pj a depth sa now =
       (if a \<notin> set (ls_active_assets (pj_state pj)) then Inl AssetNotActive
        else case hm_get (ls_assets (pj_state pj)) a of
               None \<Rightarrow> Inl SnapshotNotReady
             | Some st \<Rightarrow> if st_initialized st then Inr (served_book st a depth sa now w) else Inl SnapshotNotReady))"
  using run_from_new [of lib cmds mode ch] query_answer [of _ a depth sa now] by blast

section \<open>What is broadcast\<close>

lemma send_get:
  "bu_asset_id u = b \<Longrightarrow> hm_get (broadcast_send lib u ch) a =
     (if a = b then map_option (bl_send lib u) (hm_get ch a) else hm_get ch a)"
  by (auto simp: broadcast_send_def hm_get_insert split: option.split)

lemma update_asset: "build_book_update s a depth = Some u \<Longrightarrow> bu_asset_id u = a"
  by (auto simp: build_book_update_def Let_def split: option.splits if_splits)

lemma updates_get:
  "distinct as \<Longrightarrow> hm_get (broadcast_updates lib s depth as ch) a =
     (if a \<in> set as then (case build_book_update s a depth of
         Some u \<Rightarrow> map_option (bl_send lib u) (hm_get ch a) | None \<Rightarrow> hm_get ch a)
      else hm_get ch a)"
proof (induction as arbitrary: ch)
  case (Cons b as)
  let ?ch = "case build_book_update s b depth of Some u \<Rightarrow> broadcast_send lib u ch | None \<Rightarrow> ch"
  define ch1 where "ch1 = ?ch"
  have "broadcast_updates lib s depth (b # as) ch = broadcast_updates lib s depth as ch1"
    by (simp add: broadcast_updates_def ch1_def)
  moreover have "hm_get ch1 a = (if a = b then (case build_book_update s b depth of
       Some u \<Rightarrow> map_option (bl_send lib u) (hm_get ch a) | None \<Rightarrow> hm_get ch a) else hm_get ch a)"
  proof (cases "build_book_update s b depth")
    case (Some u)
    show ?thesis using send_get [OF update_asset [OF Some], of lib ch a] by (simp add: Some ch1_def)
  qed (simp add: ch1_def)
  ultimately show ?case using Cons.prems Cons.IH [of ch1] by (cases "a = b") (auto split: option.split)
qed (simp add: broadcast_updates_def)



text \<open>Channels that keep what is sent to them, and a checkpoint that seeds an asset.\<close>

definition demo_channels :: "(nat \<times> book_update_message list, nat) broadcast_lib" where
  "demo_channels = \<lparr> bl_channel = (\<lambda>_. (0, [])), bl_receiver_count = fst,
     bl_send = (\<lambda>u s. (fst s, snd s @ [u])), bl_subscribe = (\<lambda>s. ((fst s + 1, snd s), length (snd s))) \<rparr>"

definition demo_checkpoint :: book_checkpoint where
  "demo_checkpoint = \<lparr> cp_asset_id = ''a'', cp_timestamp_us = 20,
     cp_provenance = \<lparr> recv_timestamp_us = 20, exchange_timestamp_us = 20, source = System,
       source_event_id = None, source_session_id = None, prov_sequence = None, ingest_ordinal = None \<rparr>,
     cp_bids = [\<lparr> pl_price = FixedPrice 4500, pl_size = FixedSize 7 \<rparr>], cp_asks = [], cp_wal_offset = None \<rparr>"

definition demo_projector :: projector where
  "demo_projector = fst (the (run_projector demo_channels [CmdSetActiveAssets [''a''], CmdConfigureBroadcast 5]
     (projector_new FixedTokens, [(''a'', (1, []))])))"

definition demo_update :: book_update_message where
  "demo_update = \<lparr> bu_asset_id = ''a'', bu_slug = None, bu_sequence = 0, bu_last_update_us = 20, bu_bid_depth = 1,
     bu_ask_depth = 0, bu_bids = [\<lparr> lv_price = FixedPrice 4500, lv_size = FixedSize 7 \<rparr>], bu_asks = [],
     bu_mid_price = None, bu_spread = None \<rparr>"


end
