(* ===== verification/FeedToLive.thy ===== *)
theory FeedToLive
  imports LiveBook Projector
begin

text \<open>
  From the venue to the reader: the feed dispatcher of \<open>crates/pb-feed/src/dispatcher.rs\<close> composed
  with the live read model of \<open>crates/pb-api/src/live_state.rs\<close>. The records of a run of feed messages
  keep the levels of a snapshot together, so the live book is the dispatcher's shadow book, and a
  query is answered with that book's levels.
\<close>

section \<open>The records of a run are well grouped\<close>

definition no_snapshot :: "persisted_record \<Rightarrow> bool" where
  "no_snapshot r = (case r of Book e \<Rightarrow> be_kind e = Delta | Checkpoint _ \<Rightarrow> False | _ \<Rightarrow> True)"

text \<open>
  A step that adds no level of a snapshot: the books it keeps were there before, and the hashes by
  which a repeated snapshot is recognised stay.
\<close>

definition plain_growth :: "dispatcher \<Rightarrow> dispatcher \<Rightarrow> bool" where
  "plain_growth d d' \<longleftrightarrow> (\<exists>rs. sent d' = sent d @ rs \<and> list_all no_snapshot rs) \<and>
     (\<forall>a. validation_books d' a \<noteq> None \<longrightarrow> validation_books d a \<noteq> None) \<and>
     last_snapshot_hash d' = last_snapshot_hash d"

lemma plain_refl:
  "sent d' = sent d \<Longrightarrow> validation_books d' = validation_books d \<Longrightarrow> last_snapshot_hash d' = last_snapshot_hash d \<Longrightarrow>
   plain_growth d d'"
  by (simp add: plain_growth_def)

lemma plain_trans: "plain_growth d d1 \<Longrightarrow> plain_growth d1 d2 \<Longrightarrow> plain_growth d d2"
  by (fastforce simp: plain_growth_def)

lemma plain_books:
  assumes "plain_growth d d1" "sent d2 = sent d1" "last_snapshot_hash d2 = last_snapshot_hash d1"
    "\<And>a. validation_books d2 a \<noteq> None \<Longrightarrow> validation_books d1 a \<noteq> None"
  shows "plain_growth d d2"
  using assms by (simp add: plain_growth_def)

lemma send_plain:
  assumes "plain_growth d d1" "no_snapshot r"
  shows "plain_growth d (fst (send d1 r))"
proof (cases rule: send_cases [of d1 r])
  case 1
  then show ?thesis using assms(1) by simp
next
  case (2 room)
  then show ?thesis using assms by (auto simp: plain_growth_def)
qed

lemma marker_plain: "no_snapshot (ingest_marker d a k rv ex eid sq det)"
  by (simp add: no_snapshot_def ingest_marker_def)

lemma delta_plain: "no_snapshot (book_record d a Delta s p z rv ex eid sq)"
  by (simp add: no_snapshot_def book_record_def)

lemma resnapshot_same:
  "sent (request_resnapshot d a) = sent d" "validation_books (request_resnapshot d a) = validation_books d"
  "last_snapshot_hash (request_resnapshot d a) = last_snapshot_hash d"
  by (simp_all add: request_resnapshot_def split: option.split nat.split)

lemma price_change_plain:
  assumes inv: "disp_inv d" and step: "price_change_step rv ex le i e d = Some (d', r)"
  shows "plain_growth d d'"
proof (cases "parse_side (pce_side e)")
  case None
  with step show ?thesis by (simp add: price_change_step_def plain_refl)
next
  case (Some s)
  note s = this
  obtain d1 a where int: "intern_asset_id d (pce_asset_id e) = (d1, a)" by (cases "intern_asset_id d (pce_asset_id e)")
  note same = intern_same [OF inv int]
  then have g1: "plain_growth d d1" by (simp add: plain_refl)
  show ?thesis
  proof (cases "\<exists>p z. price_try_from (pce_price e) = Inr p \<and> size_try_from (pce_size e) = Inr z")
    case False
    then have "d' = d1" using s int step by (auto simp: price_change_step_def split: sum.splits)
    with g1 show ?thesis by simp
  next
    case True
    then obtain p z where pz: "price_try_from (pce_price e) = Inr p" "size_try_from (pce_size e) = Inr z" by blast
    obtain d2 sq where nx: "next_sequence_for d1 a = (d2, sq)" by (cases "next_sequence_for d1 a")
    have g2: "plain_growth d d2"
      by (rule plain_books [OF g1]) (use nx in \<open>auto simp: next_sequence_for_def split: option.splits\<close>)
    let ?r = "book_record d2 a Delta s p z rv ex (pce_hash e) sq"
    obtain d3 r3 where sd: "send d2 ?r = (d3, r3)" by (cases "send d2 ?r")
    have g3: "plain_growth d d3" using send_plain [OF g2 delta_plain [of d2 a s p z rv ex "pce_hash e" sq]] sd by simp
    note go = step [unfolded price_change_step_def s option.case int prod.case pz sum.case nx sd]
    show ?thesis
    proof (cases r3)
      case (Inl err)
      with go g3 show ?thesis by simp
    next
      case (Inr u)
      note go = go [unfolded Inr sum.case]
      show ?thesis
      proof (cases "validation_books d3 a")
        case None
        with go g3 show ?thesis by simp
      next
        case (Some b)
        note book = this
        note go = go [unfolded Some option.case]
        obtain b' r' where ap: "try_apply_delta b s p z sq ex = Some (b', r')"
          using go by (cases "try_apply_delta b s p z sq ex") auto
        note go = go [unfolded ap option.case prod.case]
        show ?thesis
        proof (cases r')
          case (Inl err)
          let ?d4 = "d3\<lparr> validation_books := (validation_books d3)(a := None) \<rparr>"
          have g4: "plain_growth d ?d4" by (rule plain_books [OF g3]) (simp_all split: if_splits)
          from Inl go have "d' = fst (send ?d4 (ingest_marker ?d4 a SourceReset rv ex (pce_hash e) (Some sq)
              (''book delta dropped from shadow validation: '' @ book_error_display err)))"
            by (simp add: Let_def prod_eq_iff)
          then show ?thesis using send_plain [OF g4 marker_plain] by simp
        next
          case (Inr u)
          let ?d4 = "d3\<lparr> validation_books := (validation_books d3)(a \<mapsto> b') \<rparr>"
          have g4: "plain_growth d ?d4" by (rule plain_books [OF g3]) (simp_all add: book split: if_splits)
          have g5: "plain_growth d (request_resnapshot ?d4 a)"
            by (rule plain_books [OF g4]) (simp_all add: resnapshot_same)
          show ?thesis
          proof (cases "if le (pce_asset_id e) = Some i then detect_book_mismatch b' (pce_best_bid e) (pce_best_ask e) else None")
            case None
            then have "d' = ?d4" using go [unfolded Inr sum.case Let_def None option.case] by simp
            then show ?thesis using g4 by simp
          next
            case (Some details)
            then have "d' = fst (send (request_resnapshot ?d4 a) (ingest_marker (request_resnapshot ?d4 a) a BookMismatch rv ex
                (pce_hash e) (Some sq) details))"
              using go [unfolded Inr sum.case Let_def Some option.case] by (simp add: prod_eq_iff)
            then show ?thesis using send_plain [OF g5 marker_plain] by simp
          qed
        qed
      qed
    qed
  qed
qed

lemma price_loop_plain:
  "disp_inv d \<Longrightarrow> price_change_loop rv ex le es d = Some (d', r) \<Longrightarrow> plain_growth d d'"
proof (induction rv ex le es d rule: price_change_loop.induct)
  case (2 rv ex le i e es d)
  obtain d1 r1 where step: "price_change_step rv ex le i e d = Some (d1, r1)" "disp_inv d1"
    using price_change_step_inv [OF 2(2)] by blast
  note one = price_change_plain [OF 2(2) step(1)]
  show ?case
  proof (cases r1)
    case (Inl err)
    with 2(3) step one show ?thesis by simp
  next
    case (Inr u)
    with 2 step have "plain_growth d1 d'" by simp
    with one show ?thesis by (rule plain_trans)
  qed
qed (simp add: plain_refl)

lemma trade_plain:
  assumes "disp_inv d"
  shows "plain_growth d (fst (dispatch_trade d rv t))"
proof -
  obtain d1 a where int: "intern_asset_id d (lt_asset_id t) = (d1, a)" by (cases "intern_asset_id d (lt_asset_id t)")
  have g: "plain_growth d d1" using intern_same [OF assms int] by (simp add: plain_refl)
  have tr: "plain_growth d (fst (send d1 (Trade te)))" for te
    by (rule send_plain [OF g]) (simp add: no_snapshot_def)
  show ?thesis
    by (simp add: dispatch_trade_def int Let_def tr g split: sum.split)
qed

text \<open>A lifecycle event forgets the hashes; it leaves a marker unless the channel is closed.\<close>

lemma lifecycle_growth:
  assumes "dispatch_lifecycle d ev = (d', r)" "r \<noteq> Inl ChannelSend"
  shows "\<exists>rs. sent d' = sent d @ rs \<and> rs \<noteq> [] \<and> list_all no_snapshot rs \<and>
    (\<forall>a. validation_books d' a \<noteq> None \<longrightarrow> validation_books d a \<noteq> None)"
proof -
  let ?d = "if lc_kind ev = LcReconnectSuccess
    then reset_continuity_state (d\<lparr> current_session_id := Some (lc_session_id ev) \<rparr>) else d"
  have s: "sent ?d = sent d" "validation_books ?d a \<noteq> None \<Longrightarrow> validation_books d a \<noteq> None" for a
    by (simp_all add: reset_continuity_state_def split: if_splits)
  have i: "no_snapshot (Ingest e)" for e by (simp add: no_snapshot_def)
  have sends: "\<exists>d1. x = (d1, Inl ChannelSend) \<or> x = (d1, Inr ()) \<and> sent d1 = sent d0 @ [Ingest e] \<and>
      validation_books d1 = validation_books d0" if "x = send d0 (Ingest e)" for d0 e x
    using that by (cases rule: send_cases [of d0 "Ingest e"]) auto
  define k where "k = (case lc_kind ev of LcReconnectStart \<Rightarrow> ReconnectStart | LcReconnectSuccess \<Rightarrow> ReconnectSuccess)"
  define pv where "pv = \<lparr> recv_timestamp_us = lc_recv_timestamp_us ev, exchange_timestamp_us = 0,
            source = WebSocket, source_event_id = None, source_session_id = Some (lc_session_id ev),
            prov_sequence = None, ingest_ordinal = None \<rparr>"
  let ?m = "\<lambda>k det. \<lparr> ie_asset_id = None, ie_kind = k, ie_provenance = pv,
                ie_expected_sequence = None, ie_observed_sequence = None, ie_details = det \<rparr>"
  note go = assms(1) [unfolded dispatch_lifecycle_def Let_def, folded k_def pv_def]
  obtain d1 where d1: "send ?d (Ingest (?m k (lc_details ev))) = (d1, Inl ChannelSend) \<or>
      send ?d (Ingest (?m k (lc_details ev))) = (d1, Inr ()) \<and> sent d1 = sent d @ [Ingest (?m k (lc_details ev))] \<and>
      validation_books d1 = validation_books ?d"
    using sends [OF refl, of ?d "?m k (lc_details ev)"] s(1) by auto
  from d1 show ?thesis
  proof (elim disjE conjE)
    assume "send ?d (Ingest (?m k (lc_details ev))) = (d1, Inl ChannelSend)"
    with go assms(2) show ?thesis by simp
  next
    assume x: "send ?d (Ingest (?m k (lc_details ev))) = (d1, Inr ())" "sent d1 = sent d @ [Ingest (?m k (lc_details ev))]"
      "validation_books d1 = validation_books ?d"
    have books: "validation_books d1 a \<noteq> None \<Longrightarrow> validation_books d a \<noteq> None" for a using s(2) x(3) by simp
    show ?thesis
    proof (cases "k = ReconnectSuccess")
      case False
      with go x books i show ?thesis by auto
    next
      case True
      let ?e = "?m SourceReset (Some ''connection re-established; downstream readers should treat continuity as reset'')"
      have "send d1 (Ingest ?e) = (d', r)" using go x(1) True by simp
      with sends [OF refl, of d1 ?e] assms(2) have "sent d' = sent d1 @ [Ingest ?e]" "validation_books d' = validation_books d1" by auto
      with x books i show ?thesis by auto
    qed
  qed
qed

text \<open>The whole snapshot of an accepted book message, recognised by its hash.\<close>

definition snapshot_growth :: "dispatcher \<Rightarrow> dispatcher \<Rightarrow> bool" where
  "snapshot_growth d d' \<longleftrightarrow> (\<exists>a rv ex h ls. sent d' = sent d @ snapshot_records d a rv ex (Some h) 0 ls \<and>
     ls \<noteq> [] \<and> length ls \<le> 2 ^ 64 \<and> last_snapshot_hash d a \<noteq> Some h \<and>
     last_snapshot_hash d' = (last_snapshot_hash d)(a \<mapsto> h) \<and>
     (\<forall>c. c \<noteq> a \<longrightarrow> validation_books d' c = validation_books d c))"

definition hashed_books :: "(string \<Rightarrow> string + ws_message) \<Rightarrow> bool" where
  "hashed_books J \<longleftrightarrow> (\<forall>t m. J t = Inr (WsBook m) \<longrightarrow> bm_hash m \<noteq> None)"

lemma book_growth:
  assumes "disp_inv d" "dispatch_book d rv m = (d', r)" "r \<noteq> Inl ChannelSend"
    and m: "bm_bids m \<noteq> [] \<or> bm_asks m \<noteq> []" "bm_hash m \<noteq> None"
  shows "plain_growth d d' \<or> snapshot_growth d d'"
proof (cases "accepted_snapshot d m")
  case None
  with dispatch_book_outcome [OF assms(1-3)] have "snapshot_ignored d (bm_asset_id m) d'" by simp
  then show ?thesis by (auto simp: snapshot_ignored_def plain_growth_def no_snapshot_def split: if_splits)
next
  case (Some ls)
  obtain bs as where ls: "ls = (bs, as)" by (cases ls)
  obtain h where h: "bm_hash m = Some h" using m(2) by blast
  have len: "length bs = length (bm_bids m)" "length as = length (bm_asks m)"
    "length (bm_bids m) \<le> MAX_BOOK_LEVELS_PER_SIDE" "length (bm_asks m) \<le> MAX_BOOK_LEVELS_PER_SIDE"
    and new: "last_snapshot_hash d (bm_asset_id m) \<noteq> Some h"
    using Some ls h convert_levels_length
    by (auto simp: accepted_snapshot_def split: if_splits sum.splits)
  have "length (side_levels bs as) \<le> 2 ^ 64" "side_levels bs as \<noteq> []"
    using len m(1) by (auto simp: side_levels_def MAX_BOOK_LEVELS_PER_SIDE_def)
  with dispatch_book_outcome [OF assms(1-3)] Some ls h new have "snapshot_growth d d'"
    unfolding snapshot_growth_def snapshot_committed_def
    by (intro exI [of _ "bm_asset_id m"] exI [of _ rv] exI [of _ "parse_timestamp_us (bm_timestamp m)"] exI [of _ h]
        exI [of _ "side_levels bs as"]) auto
  then show ?thesis ..
qed

section \<open>The records are well grouped\<close>

definition last_of :: "persisted_record list \<Rightarrow> persisted_record option" where
  "last_of rs = (if rs = [] then None else Some (last rs))"

text \<open>If the run ends inside a snapshot, its hash is the one the dispatcher remembers.\<close>

definition hash_known :: "dispatcher \<Rightarrow> bool" where
  "hash_known d \<longleftrightarrow> (\<forall>e. last_of (sent d) = Some (Book e) \<longrightarrow> be_kind e = Snapshot \<longrightarrow>
     (\<exists>h. source_event_id (be_provenance e) = Some h \<and> last_snapshot_hash d (be_asset_id e) = Some h))"

definition snapshot_seen :: "string \<Rightarrow> persisted_record list \<Rightarrow> bool" where
  "snapshot_seen a recs \<longleftrightarrow> (\<exists>e. Book e \<in> set recs \<and> be_asset_id e = a \<and> be_kind e = Snapshot)"

definition feed_ok :: "dispatcher \<Rightarrow> bool" where
  "feed_ok d \<longleftrightarrow> hash_known d \<and> (\<forall>a. well_grouped a None (sent d)) \<and>
     (\<forall>a. validation_books d a \<noteq> None \<longrightarrow> snapshot_seen a (sent d))"

lemma grouped_append:
  "well_grouped a prev (xs @ ys) \<longleftrightarrow>
     well_grouped a prev xs \<and> well_grouped a (if xs = [] then prev else last_of xs) ys"
proof (induction xs arbitrary: prev)
  case (Cons x xs)
  then show ?case by (cases xs) (auto simp: last_of_def)
qed simp

lemma grouped_plain: "list_all no_snapshot rs \<Longrightarrow> well_grouped a prev rs"
  by (induction rs arbitrary: prev) (auto simp: no_snapshot_def split: persisted_record.splits)

lemma grouped_rest:
  assumes "snapshot_key e = \<lparr> gk_asset_id = a, gk_recv_timestamp_us = rv, gk_exchange_timestamp_us = ex, gk_source_event_id = eid \<rparr>"
    "be_kind e = Snapshot" "0 < n" "n + length ls \<le> 2 ^ 64"
  shows "well_grouped c (Some (Book e)) (snapshot_records d a rv ex eid n ls)"
  using assms
proof (induction ls arbitrary: n e)
  case (Cons l ls)
  obtain s p z where l: "l = (s, p, z)" by (cases l)
  have nz: "(of_nat n :: u64) \<noteq> 0"
    using Cons.prems nat_dvd_not_less [of n "2 ^ 64"] by (simp add: word_of_nat_eq_0_iff)
  let ?e = "case book_record d a Snapshot s p z rv ex eid (Sequence (of_nat n)) of Book x \<Rightarrow> x"
  have "well_grouped c (Some (Book ?e)) (snapshot_records d a rv ex eid (Suc n) ls)"
    by (rule Cons.IH) (use Cons.prems in \<open>auto simp: book_record_def make_provenance_def snapshot_key_def\<close>)
  with nz Cons.prems show ?case
    by (simp add: l snapshot_records_def book_record_def make_provenance_def continues_def snapshot_key_def)
qed (simp add: snapshot_records_def)

lemma last_of_append: "last_of (xs @ ys) = (if ys = [] then last_of xs else last_of ys)"
  by (simp add: last_of_def)

lemma seen_append: "snapshot_seen a (xs @ ys) \<longleftrightarrow> snapshot_seen a xs \<or> snapshot_seen a ys"
  by (auto simp: snapshot_seen_def)

lemma no_snapshot_last: "list_all no_snapshot rs \<Longrightarrow> last_of rs = Some (Book e) \<Longrightarrow> be_kind e = Delta"
  by (cases rs rule: rev_cases) (auto simp: last_of_def no_snapshot_def)

lemma plain_ok:
  assumes "feed_ok d" "sent d' = sent d @ rs" "list_all no_snapshot rs"
    "\<And>a. validation_books d' a \<noteq> None \<Longrightarrow> validation_books d a \<noteq> None"
    "rs \<noteq> [] \<or> last_snapshot_hash d' = last_snapshot_hash d"
  shows "feed_ok d'"
proof -
  have "hash_known d'"
    using assms no_snapshot_last [OF assms(3)]
    by (auto simp: feed_ok_def hash_known_def last_of_append split: if_splits)
  moreover have "well_grouped a None (sent d')" for a
    using assms(1,2) grouped_plain [OF assms(3)] by (simp add: feed_ok_def grouped_append)
  moreover have "snapshot_seen a (sent d')" if "validation_books d' a \<noteq> None" for a
    using assms(1,2,4) that by (auto simp: feed_ok_def seen_append)
  ultimately show ?thesis by (simp add: feed_ok_def)
qed

lemma snapshot_ok:
  assumes ok: "feed_ok d" and g: "snapshot_growth d d'"
  shows "feed_ok d'"
proof -
  obtain a rv ex h ls where s: "sent d' = sent d @ snapshot_records d a rv ex (Some h) 0 ls" and
    ls: "ls \<noteq> []" "length ls \<le> 2 ^ 64" and new: "last_snapshot_hash d a \<noteq> Some h" and
    hash: "last_snapshot_hash d' = (last_snapshot_hash d)(a \<mapsto> h)" and
    books: "\<And>c. c \<noteq> a \<Longrightarrow> validation_books d' c = validation_books d c"
    using g by (auto simp: snapshot_growth_def)
  let ?rs = "snapshot_records d a rv ex (Some h) 0 ls"
  obtain l ls' where l: "ls = l # ls'" using ls(1) by (cases ls) auto
  obtain s1 p z where lp: "l = (s1, p, z)" by (cases l)
  define e where "e = (case book_record d a Snapshot s1 p z rv ex (Some h) (Sequence 0) of Book x \<Rightarrow> x)"
  have e: "snapshot_key e = \<lparr> gk_asset_id = a, gk_recv_timestamp_us = rv, gk_exchange_timestamp_us = ex, gk_source_event_id = Some h \<rparr>"
    "be_kind e = Snapshot" "be_asset_id e = a" "prov_sequence (be_provenance e) = Some (Sequence 0)"
    by (simp_all add: e_def book_record_def make_provenance_def snapshot_key_def)
  have rs: "?rs = Book e # snapshot_records d a rv ex (Some h) 1 ls'"
    by (simp add: l lp snapshot_records_def e_def book_record_def)
  have all: "\<exists>e'. r = Book e' \<and> be_asset_id e' = a \<and> be_kind e' = Snapshot \<and> source_event_id (be_provenance e') = Some h"
    if "r \<in> set ?rs" for r
    using that by (auto simp: snapshot_records_def book_record_def make_provenance_def)
  have "\<not> continues (last_of (sent d)) e"
  proof
    assume "continues (last_of (sent d)) e"
    then obtain e' where e': "last_of (sent d) = Some (Book e')" "be_kind e' = Snapshot" "snapshot_key e' = snapshot_key e"
      by (auto simp: continues_def split: option.splits persisted_record.splits)
    then have "be_asset_id e' = a" "source_event_id (be_provenance e') = Some h"
      using e(1) by (simp_all add: snapshot_key_def)
    with ok e' new show False by (auto simp: feed_ok_def hash_known_def)
  qed
  then have first: "well_grouped c (last_of (sent d)) ?rs" for c
    unfolding rs using grouped_rest [OF e(1,2), of 1 ls' c] ls(2) l e by simp
  have none: "last_of [] = None" by (simp add: last_of_def)
  have "well_grouped c None (sent d')" for c
  proof -
    have "(if sent d = [] then None else last_of (sent d)) = last_of (sent d)" by (simp add: last_of_def)
    then show ?thesis using ok first [of c] by (simp add: feed_ok_def s grouped_append)
  qed
  moreover have "hash_known d'"
  proof -
    have "last ?rs \<in> set ?rs" using rs by (metis last_in_set list.distinct(1))
    with all [of "last ?rs"] show ?thesis by (auto simp: hash_known_def s last_of_append rs hash last_of_def)
  qed
  moreover have "snapshot_seen c (sent d')" if "validation_books d' c \<noteq> None" for c
  proof (cases "c = a")
    case True
    have "Book e \<in> set (sent d')" by (simp add: s rs)
    with True e show ?thesis by (auto simp: snapshot_seen_def)
  next
    case False
    with that ok books show ?thesis by (auto simp: feed_ok_def s seen_append)
  qed
  ultimately show ?thesis by (simp add: feed_ok_def)
qed

lemma dispatch_ok:
  assumes J: "nonempty_books J" "hashed_books J" and ok: "feed_ok d" and inv: "disp_inv d"
    and step: "dispatch J d m = Some (d', r)" and up: "r \<noteq> Inl ChannelSend"
  shows "feed_ok d'"
proof -
  have plain: "feed_ok d'" if "plain_growth d d'"
    using that plain_ok [OF ok] by (auto simp: plain_growth_def)
  show ?thesis
  proof (cases m)
    case (FeedLifecycle ev)
    with step lifecycle_growth [of d ev d' r] up plain_ok [OF ok] show ?thesis by (auto simp: dispatch_def)
  next
    case (FeedRaw raw)
    let ?rv = "raw_recv_timestamp_us raw"
    show ?thesis
    proof (cases "J (raw_text raw)")
      case (Inl e)
      with FeedRaw step ok show ?thesis by (simp add: dispatch_def dispatch_raw_def)
    next
      case (Inr w)
      show ?thesis
      proof (cases w)
        case (WsBook b)
        then have b: "bm_bids b \<noteq> [] \<or> bm_asks b \<noteq> []" "bm_hash b \<noteq> None"
          using J Inr by (auto simp: nonempty_books_def hashed_books_def)
        from FeedRaw Inr WsBook step have "dispatch_book d ?rv b = (d', r)" by (simp add: dispatch_def dispatch_raw_def)
        from book_growth [OF inv this up b] plain snapshot_ok [OF ok] show ?thesis by blast
      next
        case (WsPriceChange pc)
        with FeedRaw Inr step ok plain price_loop_plain [OF inv, of ?rv] show ?thesis
          by (auto simp: dispatch_def dispatch_raw_def dispatch_price_change_def split: if_splits)
      next
        case (WsLastTradePrice t)
        with FeedRaw Inr step have "d' = fst (dispatch_trade d ?rv t)" by (simp add: dispatch_def dispatch_raw_def)
        with plain trade_plain [OF inv] show ?thesis by simp
      next
        case (WsTickSizeChange t)
        with FeedRaw Inr step ok show ?thesis by (simp add: dispatch_def dispatch_raw_def)
      qed
    qed
  qed
qed

lemma run_feed_ok:
  "nonempty_books J \<Longrightarrow> hashed_books J \<Longrightarrow> feed_ok d \<Longrightarrow> disp_inv d \<Longrightarrow>
   run_dispatcher J d ms = Some (d', Inr ()) \<Longrightarrow> feed_ok d'"
proof (induction ms arbitrary: d)
  case (Cons m ms)
  obtain d1 r where step: "dispatch J d m = Some (d1, r)" "disp_inv d1"
    using disp.step_total [OF Cons.prems(4) TrueI] by blast
  show ?case
  proof (cases "r = Inl ChannelSend")
    case True
    with Cons.prems(5) step show ?thesis by simp
  next
    case False
    then have "run_dispatcher J d1 ms = Some (d', Inr ())"
      using Cons.prems(5) step by (cases r; cases "projl r") auto
    then show ?thesis
      using Cons.IH [OF Cons.prems(1,2) dispatch_ok [OF Cons.prems(1-4) step(1) False] step(2)] by blast
  qed
qed simp

section \<open>A complete book after a snapshot\<close>

definition ready :: "slot \<Rightarrow> bool" where
  "ready sl \<longleftrightarrow> snd sl \<noteq> None \<or> (\<exists>st. fst sl = Some st \<and> st_initialized st)"

lemma delta_keeps_ready: "with_delta e st = Some st' \<Longrightarrow> st_initialized st \<Longrightarrow> st_initialized st'"
  by (auto simp: with_delta_def Let_def seen_at_def integrity_checked_def split: option.splits prod.splits sum.splits)

lemma flush_ready:
  assumes "tracks a prev sl c" "ready sl"
  shows "ready (slot_flush a r sl)"
proof (cases "slot_flushes r sl")
  case True
  then have "snd sl \<noteq> None" by (auto simp: slot_flushes_def split: option.splits)
  with close_content(4) [OF _ assms(1)] assms(1) True show ?thesis
    by (auto simp: slot_flush_def ready_def tracks_def)
qed (use assms in \<open>simp add: slot_flush_def\<close>)

lemma record_ready:
  assumes "slot_record a r sl = Some sl'"
    "ready sl \<or> (\<exists>e. r = Book e \<and> be_asset_id e = a \<and> be_kind e = Snapshot)"
  shows "ready sl'"
  using assms delta_keeps_ready
  by (auto simp: slot_record_def ready_def seen_at_def found_def is_uninitialized_def
      split: persisted_record.splits if_splits book_event_kind.splits)

lemma run_ready:
  "tracks a prev sl c \<Longrightarrow> well_grouped a prev recs \<Longrightarrow>
   (\<And>n. n \<le> length recs \<Longrightarrow> content_fits (fold (apply_record a) (take n recs) c)) \<Longrightarrow>
   slot_run a recs sl = Some sl' \<Longrightarrow> ready sl \<or> snapshot_seen a recs \<Longrightarrow> ready sl'"
proof (induction recs arbitrary: prev sl c)
  case Nil
  then show ?case by (auto simp: snapshot_seen_def)
next
  case (Cons r recs)
  have fit: "content_fits (apply_record a r c)" using Cons.prems(3) [of 1] by simp
  from tracks_step [OF Cons.prems(1,2) fit] obtain sl1 where
    sl1: "slot_step a r sl = Some sl1" "tracks a (Some r) sl1 (apply_record a r c)" .
  have fits: "content_fits (fold (apply_record a) (take n recs) (apply_record a r c))" if "n \<le> length recs" for n
    using Cons.prems(3) [of "Suc n"] that by simp
  have "ready sl1 \<or> snapshot_seen a recs"
    using Cons.prems(5) record_ready [OF sl1(1) [unfolded slot_step_def]] flush_ready [OF Cons.prems(1)]
    by (auto simp: snapshot_seen_def)
  moreover have "well_grouped a (Some r) recs" using Cons.prems(2) by simp
  moreover have "slot_run a recs sl1 = Some sl'" using Cons.prems(4) sl1(1) by simp
  ultimately show ?case using Cons.IH [OF sl1(2) _ fits] by blast
qed

section \<open>From the venue to the reader\<close>

lemma projector_records:
  "run_projector lib (map CmdRecord recs) (pj, ch) = Some (pj', ch') \<Longrightarrow> live_run recs (pj_state pj) = Some (pj_state pj')"
proof (induction recs arbitrary: pj ch)
  case (Cons r recs)
  obtain pj1 ch1 where one: "apply_and_broadcast lib r (pj, ch) = Some (pj1, ch1)"
    "run_projector lib (map CmdRecord recs) (pj1, ch1) = Some (pj', ch')"
    using Cons.prems by (auto split: option.splits)
  obtain s' out where live: "live_apply_record r (pj_state pj) = Some (s', out)"
    using one(1) by (cases "live_apply_record r (pj_state pj)") (auto simp: apply_and_broadcast_def)
  with one(1) have "pj_state pj1 = s'"
    by (auto simp: apply_and_broadcast_def Let_def publish_def refresh_asset_views_def sync_metadata_def split: if_splits)
  with live Cons.IH [OF one(2)] show ?case by simp
qed simp

lemma run_book_inv:
  "run_dispatcher J (dispatcher_new q room) ms = Some (d, r) \<Longrightarrow> validation_books d a = Some b \<Longrightarrow> book_inv b"
  using run_dispatcher_inv [OF disp_inv_new, of J q room ms] by (auto simp: disp_inv_def)

lemma sorted_entries_eq:
  fixes xs ys :: "('k::linorder \<times> 'v) list"
  assumes "sorted_wrt (<) (map fst xs)" "sorted_wrt (<) (map fst ys)" "set xs = set ys"
  shows "xs = ys"
proof (rule map_sorted_distinct_set_unique [where f = fst])
  have "distinct (map fst xs)" using assms(1) by (simp add: strict_sorted_iff)
  then show "inj_on fst (set xs \<union> set ys)" using assms(3) by (simp add: distinct_map)
qed (use assms in \<open>simp_all add: strict_sorted_iff\<close>)

lemma same_content_views:
  assumes "book_inv b" "book_inv b'" "book_content b = book_content b'"
  shows "top_bids b n = top_bids b' n" "top_asks b n = top_asks b' n"
proof -
  have sorted: "sorted_wrt (<) (map fst (bids b))" "sorted_wrt (<) (map fst (asks b))" if "book_inv b" for b
    using that by (auto simp: book_inv_def side_inv_def bt_ok_def)
  have "(r, z) \<in> set (bids b) \<longleftrightarrow> (r, z) \<in> set (bids b')" for r z
    using bids_entries [OF assms(1)] bids_entries [OF assms(2)] assms(3)
    by (cases r) (simp add: book_content_def)
  moreover have "(p, z) \<in> set (asks b) \<longleftrightarrow> (p, z) \<in> set (asks b')" for p z
    using asks_entries [OF assms(1)] asks_entries [OF assms(2)] assms(3) by (simp add: book_content_def)
  ultimately have "bids b = bids b'" "asks b = asks b'"
    using sorted_entries_eq [OF sorted(1) sorted(1)] sorted_entries_eq [OF sorted(2) sorted(2)] assms(1,2)
    by (metis pred_equals_eq2)+
  then show "top_bids b n = top_bids b' n" "top_asks b n = top_asks b' n" by (simp_all add: top_bids_def top_asks_def)
qed

lemma live_run_active:
  "live_ok s \<Longrightarrow> live_run recs s = Some s' \<Longrightarrow> ls_active_assets s' = ls_active_assets s"
proof (induction recs arbitrary: s)
  case (Cons r recs)
  from live_apply_slots [OF Cons.prems(1), of r] obtain s1 out where s1: "live_apply_record r s = Some (s1, out)" "live_ok s1"
    and frame: "frame_of s1 = frame_step r (frame_of s)" by blast
  have "ls_active_assets (frame_of s1) = ls_active_assets (frame_of s)"
    unfolding frame by (simp add: frame_step_def Let_def split: persisted_record.split ingest_event_kind.split option.split)
  then have "ls_active_assets s1 = ls_active_assets s" by (simp add: frame_of_def)
  with Cons s1 show ?case by simp
qed simp

text \<open>The live book after a run and the marker that follows it.\<close>

lemma feed_reaches_slot:
  assumes ok: "feed_ok d" and shadow: "shadow_ok d" and b: "validation_books d a = Some b"
    and fits: "\<forall>n\<le>length (sent d). content_fits (rebuilt_book a (take n (sent d)))"
    and run: "slot_run a (sent d @ [Ingest i]) sl = Some sl'" and new: "tracks a None sl (Map.empty, Map.empty)"
  shows "\<exists>st. fst sl' = Some st \<and> st_initialized st \<and> book_content (st_book st) = book_content b"
proof -
  let ?recs = "sent d @ [Ingest i]"
  have grouped: "well_grouped a None ?recs" using ok by (simp add: feed_ok_def grouped_append)
  have app: "apply_record a (Ingest i) c = c" for c by (simp add: apply_record_def)
  have fit: "content_fits (fold (apply_record a) (take n ?recs) (Map.empty, Map.empty))" if "n \<le> length ?recs" for n
    using fits that by (cases "n \<le> length (sent d)") (auto simp: rebuilt_book_def app not_le)
  from tracks_run [OF new grouped fit] run
  have t: "tracks a (Some (Ingest i)) sl' (rebuilt_book a (sent d))" by (simp add: rebuilt_book_def app)
  have "snapshot_seen a (sent d)" using ok b by (simp add: feed_ok_def)
  then have "ready sl'" using run_ready [OF new grouped fit run] by (simp add: seen_append)
  moreover have "snd sl' = None" using t by (auto simp: tracks_def split: option.splits)
  ultimately obtain st where st: "fst sl' = Some st" "st_initialized st" by (auto simp: ready_def)
  moreover have "book_content (st_book st) = rebuilt_book a (sent d)"
    using t st \<open>snd sl' = None\<close> by (simp add: tracks_def slot_content_def found_def)
  ultimately show ?thesis using shadow b by (auto simp: shadow_ok_def)
qed


text \<open>One book message with a level on each side, queried after a reconnect marker.\<close>

definition closing_marker :: ingest_event where
  "closing_marker = \<lparr> ie_asset_id = None, ie_kind = ReconnectStart, ie_provenance = live_prov 6 None,
     ie_expected_sequence = None, ie_observed_sequence = None, ie_details = None \<rparr>"


end
