(* ===== verification/LiveModel.thy ===== *)
theory LiveModel
  imports Projector
begin

text \<open>
  The handle \<open>LiveReadModel\<close> of \<open>crates/pb-api/src/live_state.rs\<close>: every operation sends a command to
  the projector task and waits until it is handled. When the task is dead (it panicked) a command is
  refused and what was last published stays.
\<close>

record 's live_model =
  lm_projector :: projector
  lm_channels :: "'s per_asset_broadcast"
  lm_alive :: bool

definition live_model_new :: "feed_mode \<Rightarrow> 's live_model" where
  "live_model_new mode = \<lparr> lm_projector = projector_new mode, lm_channels = [], lm_alive = True \<rparr>"

text \<open>Send a command, wait for its acknowledgement; says whether it was handled.\<close>

definition tell :: "('s, 'r) broadcast_lib \<Rightarrow> projector_command \<Rightarrow> 's live_model \<Rightarrow> 's live_model \<times> bool" where
  "tell lib c m =
     (if \<not> lm_alive m then (m, False)
      else
        (case handle_command lib c (lm_projector m, lm_channels m) of
           None \<Rightarrow> (m\<lparr> lm_alive := False \<rparr>, False)
         | Some (pj, channels) \<Rightarrow> (m\<lparr> lm_projector := pj, lm_channels := channels \<rparr>, True)))"

definition lm_apply_record :: "('s, 'r) broadcast_lib \<Rightarrow> persisted_record \<Rightarrow> 's live_model \<Rightarrow> 's live_model \<times> bool" where
  "lm_apply_record lib r m = tell lib (CmdRecordAck r) m"

definition lm_configure_broadcast :: "('s, 'r) broadcast_lib \<Rightarrow> nat \<Rightarrow> 's live_model \<Rightarrow> 's live_model" where
  "lm_configure_broadcast lib depth m = fst (tell lib (CmdConfigureBroadcast depth) m)"

definition lm_set_active_assets :: "('s, 'r) broadcast_lib \<Rightarrow> string list \<Rightarrow> 's live_model \<Rightarrow> 's live_model" where
  "lm_set_active_assets lib as m = fst (tell lib (CmdSetActiveAssets as) m)"

definition lm_set_last_rotation_us :: "('s, 'r) broadcast_lib \<Rightarrow> u64 \<Rightarrow> 's live_model \<Rightarrow> 's live_model" where
  "lm_set_last_rotation_us lib ts m = fst (tell lib (CmdSetLastRotationUs ts) m)"

definition lm_hydrate_checkpoint :: "('s, 'r) broadcast_lib \<Rightarrow> book_checkpoint \<Rightarrow> 's live_model \<Rightarrow> 's live_model" where
  "lm_hydrate_checkpoint lib c m = fst (tell lib (CmdHydrateCheckpoint c) m)"

definition lm_mark_hydrated :: "('s, 'r) broadcast_lib \<Rightarrow> 's live_model \<Rightarrow> 's live_model" where
  "lm_mark_hydrated lib m = fst (tell lib (CmdSetHydrated True) m)"

definition lm_mark_unhydrated :: "('s, 'r) broadcast_lib \<Rightarrow> 's live_model \<Rightarrow> 's live_model" where
  "lm_mark_unhydrated lib m = fst (tell lib (CmdSetHydrated False) m)"

definition lm_is_hydrated :: "'s live_model \<Rightarrow> bool" where
  "lm_is_hydrated m = is_hydrated (lm_projector m)"

definition lm_known_assets :: "'s live_model \<Rightarrow> (string \<times> u64) list" where
  "lm_known_assets m = known_assets (lm_projector m)"

section \<open>A live model stays alive\<close>

definition model_ok :: "'s live_model \<Rightarrow> bool" where
  "model_ok m \<longleftrightarrow> lm_alive m \<and> projector_ok (lm_projector m)"

lemma model_new_ok: "model_ok (live_model_new mode)"
  by (simp add: model_ok_def live_model_new_def projector_new_ok)

text \<open>The commands a model has handled, one after the other.\<close>

definition handled :: "('s, 'r) broadcast_lib \<Rightarrow> projector_command list \<Rightarrow> 's live_model \<Rightarrow> 's live_model \<Rightarrow> bool" where
  "handled lib cs m m' \<longleftrightarrow>
     run_projector lib cs (lm_projector m, lm_channels m) = Some (lm_projector m', lm_channels m') \<and> lm_alive m' = lm_alive m"

lemma tell_ok:
  assumes "model_ok m"
  shows "snd (tell lib c m)" "model_ok (fst (tell lib c m))" "handled lib [c] m (fst (tell lib c m))"
proof -
  obtain pj ch where "handle_command lib c (lm_projector m, lm_channels m) = Some (pj, ch)" "projector_ok pj"
    using command_keeps_ok [of "lm_projector m" lib c "lm_channels m"] assms by (auto simp: model_ok_def)
  with assms show "snd (tell lib c m)" "model_ok (fst (tell lib c m))" "handled lib [c] m (fst (tell lib c m))"
    by (simp_all add: tell_def model_ok_def handled_def)
qed

lemma handled_refl: "handled lib [] m m"
  by (simp add: handled_def)

lemma run_projector_append:
  "run_projector lib (cs @ ds) w = (case run_projector lib cs w of None \<Rightarrow> None | Some w' \<Rightarrow> run_projector lib ds w')"
  by (induction cs arbitrary: w) (auto split: option.split)

lemma handled_trans: "handled lib cs m m1 \<Longrightarrow> handled lib ds m1 m2 \<Longrightarrow> handled lib (cs @ ds) m m2"
  by (simp add: handled_def run_projector_append)

lemma handled_ok: "handled lib cs m m' \<Longrightarrow> model_ok m \<Longrightarrow> model_ok m'"
  using run_keeps_ok [of "lm_projector m" lib cs "lm_channels m"] by (auto simp: handled_def model_ok_def)

end
