(* ===== verification/Hydration.thy ===== *)
theory Hydration
  imports LiveModel WalReader Labels
begin

text \<open>
  \<open>crates/pb-api/src/hydration.rs\<close>: restoring the live read model from the latest checkpoints and the
  tail of the write-ahead log. The checkpoint reader is a parameter (a function from the assets and the
  clock to its answer). The log may grow while it is read: the files a call of \<open>next\<close> sees are given one
  after the other, and a run that needs more than those given is \<open>Waiting\<close>. Errors of opening the
  reader belong to the operating system and are not modelled.
\<close>

section \<open>Results\<close>

datatype 'a task = Panicked | Waiting | Returned 'a

record hydration_result =
  hr_checkpoints_loaded :: nat
  hr_wal_records_replayed :: nat
  hr_wal_resume_offset :: "u64 option"
  hr_wal_end_position :: "wal_position option"
  hr_recovery_succeeded :: bool

section \<open>Checkpoints\<close>

text \<open>One asset's checkpoint, with the log offsets collected so far and the number loaded.\<close>

definition hydrate_asset :: "('s, 'r) broadcast_lib \<Rightarrow> bool \<Rightarrow> string \<times> book_checkpoint option \<Rightarrow>
    's live_model \<times> (string, u64) hmap \<times> nat \<Rightarrow> 's live_model \<times> (string, u64) hmap \<times> nat" where
  "hydrate_asset lib has_wal ac st =
     (let (a, cp) = ac; (m, offsets, n) = st
      in case cp of
           None \<Rightarrow> (m, offsets, n)
         | Some c \<Rightarrow>
             if has_wal \<and> cp_wal_offset c = None then (m, offsets, n)
             else
               (lm_hydrate_checkpoint lib c m,
                case cp_wal_offset c of Some offset \<Rightarrow> hm_insert a offset offsets | None \<Rightarrow> offsets,
                n + 1))"

definition min_offset :: "u64 list \<Rightarrow> u64 option" where
  "min_offset xs = (case xs of [] \<Rightarrow> None | x # xs \<Rightarrow> Some (fold min xs x))"

definition resume_offset :: "string list \<Rightarrow> (string, u64) hmap \<Rightarrow> u64 option" where
  "resume_offset assets offsets =
     (if assets \<noteq> [] \<and> list_all (\<lambda>a. hm_get offsets a \<noteq> None) assets then min_offset (map snd offsets) else None)"

section \<open>The tail of the log\<close>

text \<open>The global offset behind the last record; the multiplication traps its overflow.\<close>

definition global_position :: "wal_config \<Rightarrow> wal_reader \<Rightarrow> nat option" where
  "global_position cfg r =
     (let g = current_segment_id r * segment_size cfg + current_offset r
      in if g < 2 ^ 64 then Some g else None)"

fun replay_loop :: "crc_lib \<Rightarrow> bincode_lib \<Rightarrow> ('s, 'r) broadcast_lib \<Rightarrow> wal_config \<Rightarrow> u64 option \<Rightarrow> (string, u64) hmap \<Rightarrow>
    wal_files list \<Rightarrow> wal_reader \<Rightarrow> 's live_model \<Rightarrow> nat \<Rightarrow> (wal_reader \<times> 's live_model \<times> nat \<times> bool) task" where
  "replay_loop L B lib cfg from_global offsets [] r m n = Waiting"
| "replay_loop L B lib cfg from_global offsets (fs # fss) r m n =
     (case reader_next L fs r of
        (r1, Inl _) \<Rightarrow> Returned (r1, m, n, False)
      | (r1, Inr None) \<Rightarrow> Returned (r1, m, n, True)
      | (r1, Inr (Some payload)) \<Rightarrow>
          (case global_position cfg r1 of
             None \<Rightarrow> Panicked
           | Some current \<Rightarrow>
               if current \<le> unat (case from_global of Some x \<Rightarrow> x | None \<Rightarrow> 0) \<and> from_global \<noteq> None
               then replay_loop L B lib cfg from_global offsets fss r1 m n
               else
                 (case decode B payload of
                    Inl _ \<Rightarrow> Returned (r1, m, n, False)
                  | Inr rec \<Rightarrow>
                      if (case hm_get offsets (asset_partition rec) of Some x \<Rightarrow> current \<le> unat x | None \<Rightarrow> False)
                      then replay_loop L B lib cfg from_global offsets fss r1 m n
                      else replay_loop L B lib cfg from_global offsets fss r1 (fst (lm_apply_record lib rec m)) (n + 1))))"

definition replay_wal_tail :: "crc_lib \<Rightarrow> bincode_lib \<Rightarrow> ('s, 'r) broadcast_lib \<Rightarrow> wal_config \<Rightarrow> u64 option \<Rightarrow>
    (string, u64) hmap \<Rightarrow> wal_world \<Rightarrow> wal_files list \<Rightarrow> 's live_model \<Rightarrow>
    ('s live_model \<times> nat \<times> wal_position option \<times> bool) task" where
  "replay_wal_tail L B lib cfg from_global offsets w fss m =
     (case replay_loop L B lib cfg from_global offsets fss (reader_open cfg ''serve-hydration'' w) m 0 of
        Panicked \<Rightarrow> Panicked
      | Waiting \<Rightarrow> Waiting
      | Returned (r, m', n, ok) \<Rightarrow> Returned (m', n, Some (current_position r), ok))"

section \<open>Hydration\<close>

type_synonym checkpoint_reader = "string list \<Rightarrow> u64 \<Rightarrow> replay_error + book_checkpoint option list"

text \<open>
  \<open>wal\<close> is the configuration, if there is one, with the log's directory when it exists: its state at
  opening and at each call of \<open>next\<close>.
\<close>

definition load_checkpoints :: "('s, 'r) broadcast_lib \<Rightarrow> checkpoint_reader option \<Rightarrow> bool \<Rightarrow> u64 \<Rightarrow> string list \<Rightarrow>
    's live_model \<Rightarrow> ('s live_model \<times> (string, u64) hmap \<times> nat) \<times> bool" where
  "load_checkpoints lib reader has_wal now assets m =
     (case reader of
        None \<Rightarrow> ((m, [], 0), True)
      | Some read_latest \<Rightarrow>
          (case read_latest assets now of
             Inl _ \<Rightarrow> ((m, [], 0), False)
           | Inr checkpoints \<Rightarrow> (fold (hydrate_asset lib has_wal) (zip assets checkpoints) (m, [], 0), True)))"

definition hydrate :: "crc_lib \<Rightarrow> bincode_lib \<Rightarrow> ('s, 'r) broadcast_lib \<Rightarrow> checkpoint_reader option \<Rightarrow>
    (wal_config \<times> (wal_world \<times> wal_files list) option) option \<Rightarrow> u64 \<Rightarrow> string list \<Rightarrow> 's live_model \<Rightarrow>
    ('s live_model \<times> hydration_result) task" where
  "hydrate L B lib reader wal now assets m =
     (let m0 = (if wal \<noteq> None then lm_mark_unhydrated lib m else m);
          ((m1, offsets, loaded), read_ok) = load_checkpoints lib reader (wal \<noteq> None) now assets m0;
          resume = resume_offset assets offsets;
          ready = (\<lambda>m2 n off end_pos ok.
            Returned (if ok then lm_mark_hydrated lib m2 else m2,
              \<lparr> hr_checkpoints_loaded = loaded, hr_wal_records_replayed = n, hr_wal_resume_offset = off,
                hr_wal_end_position = end_pos, hr_recovery_succeeded = ok \<rparr>))
      in case wal of
           None \<Rightarrow> ready m1 0 None None read_ok
         | Some (cfg, None) \<Rightarrow> ready m1 0 None None False
         | Some (cfg, Some (w, fss)) \<Rightarrow>
             (case replay_wal_tail L B lib cfg resume offsets w fss m1 of
                Panicked \<Rightarrow> Panicked
              | Waiting \<Rightarrow> Waiting
              | Returned (m2, n, end_pos, ok) \<Rightarrow> ready m2 n resume end_pos (read_ok \<and> ok)))"

section \<open>What is replayed\<close>

text \<open>The log as records with their global offsets, and the records the replay lets through.\<close>

definition entry_offset :: "wal_config \<Rightarrow> nat \<times> nat \<Rightarrow> nat" where
  "entry_offset cfg pos = fst pos * segment_size cfg + snd pos"

definition logged_records :: "bincode_lib \<Rightarrow> wal_config \<Rightarrow> ((nat \<times> nat) \<times> bytes) list \<Rightarrow> (nat \<times> persisted_record) list" where
  "logged_records B cfg es = map (\<lambda>(pos, p). (entry_offset cfg pos, projr (decode B p))) es"

definition beyond :: "u64 option \<Rightarrow> nat \<Rightarrow> bool" where
  "beyond limit g = (case limit of None \<Rightarrow> True | Some x \<Rightarrow> unat x < g)"

definition replayed :: "u64 option \<Rightarrow> (string, u64) hmap \<Rightarrow> (nat \<times> persisted_record) list \<Rightarrow> persisted_record list" where
  "replayed from_global offsets recs =
     map snd (filter (\<lambda>(g, r). beyond from_global g \<and> beyond (hm_get offsets (asset_partition r)) g) recs)"

text \<open>A log all of whose records decode and whose offsets stay below \<open>2^64\<close>.\<close>

definition log_ok :: "bincode_lib \<Rightarrow> wal_config \<Rightarrow> ((nat \<times> nat) \<times> bytes) list \<Rightarrow> bool" where
  "log_ok B cfg es \<longleftrightarrow> (\<forall>e\<in>set es. entry_offset cfg (fst e) < 2 ^ 64 \<and> (\<exists>r. decode B (snd e) = Inr r))"

lemma applied_record:
  assumes "model_ok m"
  shows "model_ok (fst (lm_apply_record lib r m))" "handled lib [CmdRecordAck r] m (fst (lm_apply_record lib r m))"
  using tell_ok [OF assms] by (simp_all add: lm_apply_record_def)

lemma replay_loop_exact:
  assumes "dir_ok fs" "holds L fs segs" "list_segment_ids fs = map fst segs"
  shows "reads_at L segs r es \<Longrightarrow> log_ok B cfg es \<Longrightarrow> model_ok m \<Longrightarrow>
    \<exists>r' m'. replay_loop L B lib cfg from_global offsets (replicate (Suc (length es + k)) fs) r m n =
      Returned (r', m', n + length (replayed from_global offsets (logged_records B cfg es)), True) \<and>
    handled lib (map CmdRecordAck (replayed from_global offsets (logged_records B cfg es))) m m' \<and>
    (current_segment_id r', current_offset r') = log_end L segs"
proof (induction es arbitrary: r m n)
  case Nil
  obtain r' where "reader_next L fs r = (r', Inr None)" "(current_segment_id r', current_offset r') = log_end L segs"
    using next_reads [OF assms Nil(1)] by auto
  then show ?case by (simp add: replayed_def logged_records_def handled_refl)
next
  case (Cons e es)
  let ?recs = "\<lambda>es. replayed from_global offsets (logged_records B cfg es)"
  obtain r1 where r1: "reader_next L fs r = (r1, Inr (Some (snd e)))" "reads_at L segs r1 es"
    and pos: "(current_segment_id r1, current_offset r1) = fst e"
    using next_reads [OF assms Cons.prems(1)] by auto
  obtain rec where rec: "decode B (snd e) = Inr rec" using Cons.prems(2) by (auto simp: log_ok_def)
  have g: "global_position cfg r1 = Some (entry_offset cfg (fst e))"
    using Cons.prems(2) by (simp add: global_position_def entry_offset_def log_ok_def flip: pos)
  have ok: "log_ok B cfg es" using Cons.prems(2) by (simp add: log_ok_def)
  let ?g = "entry_offset cfg (fst e)"
  have cons: "logged_records B cfg (e # es) = (?g, rec) # logged_records B cfg es"
    by (simp add: logged_records_def rec split_beta)
  show ?case
  proof (cases "beyond from_global ?g \<and> beyond (hm_get offsets (asset_partition rec)) ?g")
    case True
    note ap = applied_record [OF Cons.prems(3), of lib rec]
    from True have "replay_loop L B lib cfg from_global offsets (replicate (Suc (length (e # es) + k)) fs) r m n =
        replay_loop L B lib cfg from_global offsets (replicate (Suc (length es + k)) fs) r1 (fst (lm_apply_record lib rec m)) (n + 1)"
      by (auto simp: r1(1) g rec beyond_def split: option.split)
    moreover have "?recs (e # es) = rec # ?recs es" unfolding cons using True by (simp add: replayed_def)
    ultimately show ?thesis
      using Cons.IH [OF r1(2) ok ap(1), of "n + 1"] handled_trans [OF ap(2)] by fastforce
  next
    case False
    then have "replay_loop L B lib cfg from_global offsets (replicate (Suc (length (e # es) + k)) fs) r m n =
        replay_loop L B lib cfg from_global offsets (replicate (Suc (length es + k)) fs) r1 m n"
      by (auto simp: r1(1) g rec beyond_def split: option.splits)
    moreover have "?recs (e # es) = ?recs es" unfolding cons using False by (auto simp: replayed_def)
    ultimately show ?thesis using Cons.IH [OF r1(2) ok Cons.prems(3), of n] by simp
  qed
qed

text \<open>The checkpoints that carry a cut of the log, and the cuts.\<close>

definition cut_checkpoints :: "(string \<times> book_checkpoint option) list \<Rightarrow> (string \<times> book_checkpoint \<times> u64) list" where
  "cut_checkpoints acs = List.map_filter (\<lambda>(a, cp). case cp of None \<Rightarrow> None
     | Some c \<Rightarrow> map_option (\<lambda>x. (a, c, x)) (cp_wal_offset c)) acs"

definition cuts_of :: "(string \<times> book_checkpoint \<times> u64) list \<Rightarrow> (string, u64) hmap \<Rightarrow> (string, u64) hmap" where
  "cuts_of us offsets = fold (\<lambda>(a, c, x). hm_insert a x) us offsets"

lemma hydrate_assets:
  "model_ok m \<Longrightarrow> \<exists>m'. fold (hydrate_asset lib True) acs (m, offsets, n) =
     (m', cuts_of (cut_checkpoints acs) offsets, n + length (cut_checkpoints acs)) \<and>
   handled lib (map (\<lambda>(a, c, x). CmdHydrateCheckpoint c) (cut_checkpoints acs)) m m'"
proof (induction acs arbitrary: m offsets n)
  case Nil
  then show ?case by (simp add: cut_checkpoints_def cuts_of_def map_filter_simps handled_refl)
next
  case (Cons ac acs)
  obtain a cp where ac: "ac = (a, cp)" by (cases ac)
  show ?case
  proof (cases "Option.bind cp cp_wal_offset")
    case None
    then have "hydrate_asset lib True ac (m, offsets, n) = (m, offsets, n)"
      by (auto simp: ac hydrate_asset_def split: option.splits)
    moreover have "cut_checkpoints (ac # acs) = cut_checkpoints acs"
      using None by (auto simp: ac cut_checkpoints_def map_filter_simps split: option.split)
    ultimately show ?thesis using Cons by simp
  next
    case (Some x)
    then obtain c where c: "cp = Some c" "cp_wal_offset c = Some x" by (cases cp) auto
    note t = tell_ok [OF Cons.prems, of lib "CmdHydrateCheckpoint c"]
    have "hydrate_asset lib True ac (m, offsets, n) = (fst (tell lib (CmdHydrateCheckpoint c) m), hm_insert a x offsets, n + 1)"
      by (simp add: ac c hydrate_asset_def lm_hydrate_checkpoint_def)
    moreover have "cut_checkpoints (ac # acs) = (a, c, x) # cut_checkpoints acs"
      using c by (simp add: ac cut_checkpoints_def map_filter_simps)
    ultimately show ?thesis
      using Cons.IH [OF t(2), of "hm_insert a x offsets" "n + 1"] handled_trans [OF t(3)]
      by (fastforce simp: cuts_of_def)
  qed
qed

lemma min_offset_le:
  assumes "min_offset xs = Some x" "y \<in> set xs"
  shows "x \<le> y"
proof (cases xs)
  case (Cons z zs)
  then have "x = Min (set xs)" using assms(1) by (simp add: min_offset_def Min.set_eq_fold del: set_simps)
  then show ?thesis using assms(2) by simp
qed (use assms in simp)

lemma resume_before_cuts:
  assumes "resume_offset assets offsets = Some x" "a \<in> set assets"
  obtains y where "hm_get offsets a = Some y" "x \<le> y"
proof -
  obtain y where y: "hm_get offsets a = Some y"
    using assms by (auto simp: resume_offset_def list_all_iff split: if_splits)
  then have mem: "y \<in> set (map snd offsets)" by (force simp: hm_get_def dest: map_of_SomeD)
  have "min_offset (map snd offsets) = Some x" using assms(1) by (auto simp: resume_offset_def split: if_splits)
  from that [OF y min_offset_le [OF this mem]] show ?thesis .
qed

lemma replayed_of_asset:
  assumes "a \<in> set assets"
  shows "filter (\<lambda>r. asset_partition r = a) (replayed (resume_offset assets offsets) offsets recs) =
    map snd (filter (\<lambda>(g, r). asset_partition r = a \<and> beyond (hm_get offsets a) g) recs)"
proof -
  have "beyond (resume_offset assets offsets) g" if le: "beyond (hm_get offsets a) g" for g
  proof (cases "resume_offset assets offsets")
    case None
    then show ?thesis by (simp add: beyond_def)
  next
    case (Some x)
    obtain y where "hm_get offsets a = Some y" "x \<le> y" by (rule resume_before_cuts [OF Some assms])
    with le Some show ?thesis by (simp add: beyond_def word_le_nat_alt)
  qed
  then show ?thesis
    by (auto simp: replayed_def filter_map comp_def split_beta intro!: arg_cong [where f = "map snd"] filter_cong)
qed

lemma hydrated_flag:
  assumes "handled lib (cs @ [CmdSetHydrated h]) m m'"
  shows "lm_is_hydrated m' = h"
proof -
  obtain pj ch where "run_projector lib cs (lm_projector m, lm_channels m) = Some (pj, ch)"
    "handle_command lib (CmdSetHydrated h) (pj, ch) = Some (lm_projector m', lm_channels m')"
    using assms by (fastforce simp: handled_def run_projector_append split: option.splits)
  then have "lm_projector m' = publish (pj\<lparr> pj_state := (pj_state pj)\<lparr> ls_hydrated := h \<rparr>,
        pj_published := (pj_published pj)\<lparr> pb_hydrated := h \<rparr> \<rparr>)" by simp
  then show ?thesis by (simp add: lm_is_hydrated_def is_hydrated_def publish_def)
qed

text \<open>
  C4. Hydration restores what the log and the checkpoints hold: on a readable log whose records decode,
  the model handles exactly the checkpoints that carry a cut of the log and then, in the log's order,
  the records that are neither before the common resume point nor before the cut of their asset, and
  is then ready. For every requested asset these are exactly its records behind its own cut: the
  common resume point loses none.
\<close>

theorem hydration_exact:
  assumes "model_ok m" "dir_ok (wal_files w)" "holds L (wal_files w) segs"
    and "list_segment_ids (wal_files w) = map fst segs" "segs \<noteq> []"
    and "load_position (pos_files w) ''serve-hydration'' = None"
    and "log_ok B cfg (log_entries L segs)"
    and "read_latest assets now = Inr checkpoints"
  shows "\<exists>m'. let us = cut_checkpoints (zip assets checkpoints); cuts = cuts_of us [];
      recs = logged_records B cfg (log_entries L segs);
      rs = replayed (resume_offset assets cuts) cuts recs
    in hydrate L B lib (Some read_latest)
         (Some (cfg, Some (w, replicate (Suc (length recs + k)) (wal_files w)))) now assets m =
         Returned (m', \<lparr> hr_checkpoints_loaded = length us, hr_wal_records_replayed = length rs,
           hr_wal_resume_offset = resume_offset assets cuts,
           hr_wal_end_position = Some \<lparr> wp_segment_id = fst (last segs), wp_offset = length (frames L (snd (last segs))) \<rparr>,
           hr_recovery_succeeded = True \<rparr>) \<and>
       handled lib (CmdSetHydrated False # map (\<lambda>(a, c, x). CmdHydrateCheckpoint c) us @ map CmdRecordAck rs @ [CmdSetHydrated True]) m m' \<and>
       lm_is_hydrated m' \<and>
       (\<forall>a\<in>set assets. filter (\<lambda>r. asset_partition r = a) rs =
          map snd (filter (\<lambda>(g, r). asset_partition r = a \<and> beyond (hm_get cuts a) g) recs))"
proof -
  define us where "us = cut_checkpoints (zip assets checkpoints)"
  define cuts where "cuts = cuts_of us []"
  define recs where "recs = logged_records B cfg (log_entries L segs)"
  define rs where "rs = replayed (resume_offset assets cuts) cuts recs"
  note unhyd = tell_ok [OF assms(1), of lib "CmdSetHydrated False"]
  obtain m1 where m1: "fold (hydrate_asset lib True) (zip assets checkpoints) (lm_mark_unhydrated lib m, [], 0) = (m1, cuts, length us)"
    "handled lib (map (\<lambda>(a, c, x). CmdHydrateCheckpoint c) us) (lm_mark_unhydrated lib m) m1"
    using hydrate_assets [OF unhyd(2), of lib "zip assets checkpoints" "[]" 0]
    by (auto simp: cuts_def us_def lm_mark_unhydrated_def)
  have ok1: "model_ok m1" using handled_ok [OF m1(2)] unhyd(2) by (simp add: lm_mark_unhydrated_def)
  have at: "reads_at L segs (reader_open cfg ''serve-hydration'' w) (log_entries L segs)"
    using open_reads [OF assms(2-5)] assms(6) by (simp add: reader_open_def)
  have len: "length recs = length (log_entries L segs)" by (simp add: recs_def logged_records_def)
  obtain r' m2 where loop: "replay_loop L B lib cfg (resume_offset assets cuts) cuts
        (replicate (Suc (length recs + k)) (wal_files w)) (reader_open cfg ''serve-hydration'' w) m1 0 =
        Returned (r', m2, length rs, True)"
      "handled lib (map CmdRecordAck rs) m1 m2" "(current_segment_id r', current_offset r') = log_end L segs"
    using replay_loop_exact [OF assms(2-4) at assms(7) ok1, of lib "resume_offset assets cuts" cuts k 0]
    by (auto simp: rs_def recs_def len [unfolded recs_def])
  have pos: "current_position r' = \<lparr> wp_segment_id = fst (last segs), wp_offset = length (frames L (snd (last segs))) \<rparr>"
    using loop(3) by (simp add: current_position_def log_end_def)
  note hyd = tell_ok [OF handled_ok [OF loop(2) ok1], of lib "CmdSetHydrated True"]
  let ?m' = "lm_mark_hydrated lib m2"
  have all: "handled lib (CmdSetHydrated False # map (\<lambda>(a, c, x). CmdHydrateCheckpoint c) us @ map CmdRecordAck rs @ [CmdSetHydrated True]) m ?m'"
    using handled_trans [OF unhyd(3) handled_trans [OF m1(2) [unfolded lm_mark_unhydrated_def] handled_trans [OF loop(2) hyd(3)]]]
    by (simp add: lm_mark_hydrated_def)
  have "lm_is_hydrated ?m' = True"
    by (rule hydrated_flag [of lib "CmdSetHydrated False # map (\<lambda>(a, c, x). CmdHydrateCheckpoint c) us @ map CmdRecordAck rs"])
      (use all in simp)
  moreover have "hydrate L B lib (Some read_latest) (Some (cfg, Some (w, replicate (Suc (length recs + k)) (wal_files w)))) now assets m =
      Returned (?m', \<lparr> hr_checkpoints_loaded = length us, hr_wal_records_replayed = length rs,
           hr_wal_resume_offset = resume_offset assets cuts, hr_wal_end_position = Some (current_position r'),
           hr_recovery_succeeded = True \<rparr>)"
    by (simp add: hydrate_def load_checkpoints_def assms(8) m1(1) replay_wal_tail_def loop(1) del: replicate_Suc replay_loop.simps)
  ultimately show ?thesis
    using all replayed_of_asset [of _ assets cuts recs]
    by (auto simp: Let_def pos rs_def simp flip: us_def cuts_def recs_def)
qed

definition one_record_log :: wal_world where
  "one_record_log = \<lparr> wal_files = [(segment_path 0, frames sum_lib [[3, 0]])], pos_files = Map.empty, wal_locked = False \<rparr>"

definition cut_checkpoint :: book_checkpoint where
  "cut_checkpoint = demo_checkpoint\<lparr> cp_wal_offset := Some 4 \<rparr>"

text \<open>A checkpoint whose cut lies before the only record of the log: one checkpoint, one record.\<close>

theorem hydration_exact_witness:
  "\<exists>m'. hydrate sum_lib unit_bincode demo_channels (Some (\<lambda>_ _. Inr [Some cut_checkpoint]))
     (Some (wal_config_default, Some (one_record_log, replicate 2 (wal_files one_record_log)))) 30 [''a'']
     (live_model_new FixedTokens) =
       Returned (m', \<lparr> hr_checkpoints_loaded = 1, hr_wal_records_replayed = 1, hr_wal_resume_offset = Some 4,
         hr_wal_end_position = Some \<lparr> wp_segment_id = 0, wp_offset = 10 \<rparr>, hr_recovery_succeeded = True \<rparr>) \<and>
     lm_is_hydrated m'"
proof -
  let ?w = one_record_log and ?segs = "[(0, [[3, 0]])] :: (nat \<times> bytes list) list"
  have dir: "dir_ok (wal_files ?w)" "list_segment_ids (wal_files ?w) = map fst ?segs"
    using single_segment_dir [of 0] by (simp_all add: one_record_log_def)
  have holds: "holds sum_lib (wal_files ?w) ?segs"
    by (simp add: one_record_log_def holds_def hm_get_def valid_payload_def MAX_RECORD_SIZE_def)
  have pos: "load_position (pos_files ?w) ''serve-hydration'' = None"
    by (simp add: one_record_log_def load_position_def)
  have entries: "log_entries sum_lib ?segs = [((0, 10), [3, 0])]"
    by (simp add: HEADER_SIZE_def)
  have dec: "decode unit_bincode [3, 0] = Inr unit_record"
    by (simp add: decode_def CURRENT_VERSION_def unit_bincode_def)
  have ok: "log_ok unit_bincode wal_config_default (log_entries sum_lib ?segs)"
    by (simp add: log_ok_def entries entry_offset_def dec HEADER_SIZE_def)
  have us: "cut_checkpoints (zip [''a''] [Some cut_checkpoint]) = [(''a'', cut_checkpoint, 4)]"
    by (simp add: cut_checkpoints_def cut_checkpoint_def map_filter_simps)
  have cuts: "cuts_of [(''a'', cut_checkpoint, 4)] [] = [(''a'', 4)]"
    by (simp add: cuts_of_def hm_insert_def)
  have res: "resume_offset [''a''] [(''a'', 4)] = Some 4"
    by (simp add: resume_offset_def hm_get_def min_offset_def)
  have recs: "logged_records unit_bincode wal_config_default (log_entries sum_lib ?segs) = [(10, unit_record)]"
    by (simp add: logged_records_def entries entry_offset_def dec HEADER_SIZE_def)
  have rs: "replayed (Some 4) [(''a'', 4)] [(10, unit_record)] = [unit_record]"
    by (simp add: replayed_def beyond_def hm_get_def unit_record_def)
  have ends: "length (frames sum_lib [[3, 0]]) = 10" by (simp add: HEADER_SIZE_def)
  have two: "replicate (Suc (length [(10 :: nat, unit_record)] + 0)) (wal_files ?w) = replicate 2 (wal_files ?w)"
    by (simp add: numeral_2_eq_2)
  show ?thesis
    using hydration_exact [OF model_new_ok [of FixedTokens] dir(1) holds dir(2) _ pos ok,
        where read_latest = "\<lambda>_ _. Inr [Some cut_checkpoint]" and assets = "[''a'']" and now = 30 and lib = demo_channels
        and checkpoints = "[Some cut_checkpoint]" and k = 0, unfolded us cuts res recs rs Let_def two]
    by (auto simp: ends simp del: frames_simps)
qed

section \<open>Ready only after a recovery\<close>

lemma record_frame_hydrated: "ls_hydrated (frame_step r s) = ls_hydrated s"
  by (simp add: frame_step_def Let_def split: persisted_record.split ingest_event_kind.split option.split)

lemma projector_hydrated: "projector_ok pj \<Longrightarrow> is_hydrated pj = ls_hydrated (pj_state pj)"
  by (simp add: projector_ok_def meta_current_def is_hydrated_def)

lemma command_keeps_flag:
  assumes ok: "projector_ok pj" and c: "\<And>h. c \<noteq> CmdSetHydrated h"
    and step: "handle_command lib c (pj, ch) = Some (pj', ch')"
  shows "ls_hydrated (pj_state pj') = ls_hydrated (pj_state pj)"
proof -
  have live: "live_ok (pj_state pj)" using ok by (simp add: projector_ok_def)
  have rec: "ls_hydrated (pj_state pj') = ls_hydrated (pj_state pj)" if ap: "apply_and_broadcast lib r (pj, ch) = Some (pj', ch')" for r
  proof -
    from live_apply_slots [OF live, of r] obtain s1 out where s1: "live_apply_record r (pj_state pj) = Some (s1, out)"
      and frame: "frame_of s1 = frame_step r (frame_of (pj_state pj))" by blast
    have "pj_state pj' = s1"
      using ap s1 by (auto simp: apply_and_broadcast_def Let_def publish_def refresh_asset_views_def sync_metadata_def split: if_splits)
    moreover have "ls_hydrated s1 = ls_hydrated (pj_state pj)"
      using arg_cong [OF frame, of ls_hydrated] by (simp add: record_frame_hydrated) (simp add: frame_of_def)
    ultimately show ?thesis by simp
  qed
  show ?thesis
  proof (cases c)
    case (CmdHydrateCheckpoint cp)
    have "frame_of (apply_checkpoint_live cp (pj_state pj)) = frame_of (pj_state pj)"
      using apply_checkpoint_slots [of "pj_state pj" cp] live by (simp add: live_ok_def)
    then have "ls_hydrated (apply_checkpoint_live cp (pj_state pj)) = ls_hydrated (pj_state pj)"
      using frame_fields by blast
    with CmdHydrateCheckpoint step show ?thesis
      by (auto simp: Let_def publish_def refresh_asset_views_def)
  qed (use step rec c in \<open>auto simp: Let_def publish_def rebuild_all_asset_views_def set_active_assets_def\<close>)
qed

lemma handled_keeps_flag:
  "handled lib cs m m' \<Longrightarrow> model_ok m \<Longrightarrow> (\<And>h. CmdSetHydrated h \<notin> set cs) \<Longrightarrow> lm_is_hydrated m' = lm_is_hydrated m"
proof (induction cs arbitrary: m)
  case Nil
  then show ?case by (simp add: handled_def lm_is_hydrated_def)
next
  case (Cons c cs)
  have ok: "projector_ok (lm_projector m)" using Cons.prems(2) by (simp add: model_ok_def)
  obtain pj ch where one: "handle_command lib c (lm_projector m, lm_channels m) = Some (pj, ch)" "projector_ok pj"
    using command_keeps_ok [OF ok, of lib c "lm_channels m"] by blast
  let ?m = "m\<lparr> lm_projector := pj, lm_channels := ch \<rparr>"
  have "handled lib cs ?m m'" "model_ok ?m" using Cons.prems(1,2) one by (simp_all add: handled_def model_ok_def)
  from Cons.IH [OF this] Cons.prems(3) have "lm_is_hydrated m' = lm_is_hydrated ?m" by simp
  also have "\<dots> = lm_is_hydrated m"
  proof -
    have "c \<noteq> CmdSetHydrated h" for h using Cons.prems(3) [of h] by auto
    from command_keeps_flag [OF ok this one(1)] show ?thesis
      using projector_hydrated [OF ok] projector_hydrated [OF one(2)] by (simp add: lm_is_hydrated_def)
  qed
  finally show ?case .
qed

lemma replay_loop_records:
  "model_ok m \<Longrightarrow> replay_loop L B lib cfg from_global offsets fss r m n = Returned (r', m', n', ok) \<Longrightarrow>
   \<exists>rs. handled lib (map CmdRecordAck rs) m m'"
proof (induction fss arbitrary: r m n)
  case (Cons fs fss)
  obtain r1 res where r1: "reader_next L fs r = (r1, res)" by (cases "reader_next L fs r")
  have none: "\<exists>rs. handled lib (map CmdRecordAck rs) m m" by (rule exI [of _ "[]"]) (simp add: handled_refl)
  show ?case
  proof (cases "\<exists>payload g rec. res = Inr (Some payload) \<and> global_position cfg r1 = Some g \<and> decode B payload = Inr rec \<and>
      beyond from_global g \<and> beyond (hm_get offsets (asset_partition rec)) g")
    case True
    then obtain payload g rec where t: "res = Inr (Some payload)" "global_position cfg r1 = Some g" "decode B payload = Inr rec"
      "beyond from_global g" "beyond (hm_get offsets (asset_partition rec)) g" by blast
    note ap = applied_record [OF Cons.prems(1), of lib rec]
    have "replay_loop L B lib cfg from_global offsets fss r1 (fst (lm_apply_record lib rec m)) (n + 1) = Returned (r', m', n', ok)"
      using Cons.prems(2) t by (auto simp: r1 beyond_def split: option.splits)
    from Cons.IH [OF ap(1) this] obtain rs where "handled lib (map CmdRecordAck rs) (fst (lm_apply_record lib rec m)) m'" ..
    from handled_trans [OF ap(2) this] show ?thesis by (intro exI [of _ "rec # rs"]) simp
  next
    case False
    show ?thesis
    proof (cases "replay_loop L B lib cfg from_global offsets (fs # fss) r m n = replay_loop L B lib cfg from_global offsets fss r1 m n")
      case True
      with Cons.IH [OF Cons.prems(1)] Cons.prems(2) show ?thesis by simp
    next
      case same: False
      then have "m' = m"
        using Cons.prems(2) False
        by (auto simp: r1 beyond_def split: sum.splits option.splits if_splits)
      with none show ?thesis by simp
    qed
  qed
qed simp

text \<open>
  C12. Only a complete recovery is served: with a log configured the model is ready after hydration
  exactly when hydration reports success, whatever the checkpoint reader answers and whatever the log
  holds or gains meanwhile; and a missing log directory, a failed checkpoint read or a record that does
  not decode leave it unready.
\<close>

theorem hydration_ready_exact:
  assumes "model_ok m" "hydrate L B lib reader (Some (cfg, disk)) now assets m = Returned (m', res)"
  shows "model_ok m' \<and> lm_is_hydrated m' = hr_recovery_succeeded res \<and>
    (disk = None \<or> (\<exists>read_latest e. reader = Some read_latest \<and> read_latest assets now = Inl e) \<longrightarrow>
       \<not> hr_recovery_succeeded res)"
proof -
  note unhyd = tell_ok [OF assms(1), of lib "CmdSetHydrated False"]
  define m0 where "m0 = lm_mark_unhydrated lib m"
  have m0: "model_ok m0" "\<not> lm_is_hydrated m0"
    using unhyd hydrated_flag [of lib "[]" False m m0] by (simp_all add: m0_def lm_mark_unhydrated_def)
  obtain m1 offsets loaded read_ok where lc: "load_checkpoints lib reader True now assets m0 = ((m1, offsets, loaded), read_ok)"
    by (metis surj_pair)
  have m1: "model_ok m1 \<and> \<not> lm_is_hydrated m1"
  proof (cases "\<exists>read_latest cps. reader = Some read_latest \<and> read_latest assets now = Inr cps")
    case True
    then obtain cps where "fold (hydrate_asset lib True) (zip assets cps) (m0, [], 0) = (m1, offsets, loaded)"
      using lc by (auto simp: load_checkpoints_def)
    with hydrate_assets [OF m0(1), of lib "zip assets cps" "[]" 0] obtain us :: "(string \<times> book_checkpoint \<times> u64) list" where
      h: "handled lib (map (\<lambda>(a, c, x). CmdHydrateCheckpoint c) us) m0 m1" by auto
    then have "lm_is_hydrated m1 = lm_is_hydrated m0" by (rule handled_keeps_flag [OF _ m0(1)]) auto
    with h m0 handled_ok show ?thesis by blast
  next
    case False
    then have "m1 = m0" using lc by (auto simp: load_checkpoints_def split: option.splits sum.splits)
    with m0 show ?thesis by simp
  qed
  define ready where "ready m2 res \<longleftrightarrow> m' = (if hr_recovery_succeeded res then lm_mark_hydrated lib m2 else m2)" for m2 and res :: hydration_result
  have fin: "model_ok m' \<and> lm_is_hydrated m' = hr_recovery_succeeded res"
    if m2: "model_ok m2" "\<not> lm_is_hydrated m2" and r: "ready m2 res" for m2
    using m2 r tell_ok [OF m2(1), of lib "CmdSetHydrated True"] hydrated_flag [of lib "[]" True m2 m']
    by (auto simp: ready_def lm_mark_hydrated_def split: if_splits)
  show ?thesis
  proof (cases disk)
    case None
    then have "ready m1 res" "\<not> hr_recovery_succeeded res"
      using assms(2) lc by (auto simp: hydrate_def Let_def m0_def ready_def)
    with fin [of m1] m1 show ?thesis by blast
  next
    case (Some d)
    obtain w fss where d: "d = (w, fss)" by (cases d)
    obtain r m2 n ok where loop: "replay_loop L B lib cfg (resume_offset assets offsets) offsets fss
        (reader_open cfg ''serve-hydration'' w) m1 0 = Returned (r, m2, n, ok)" and res: "ready m2 res"
        "hr_recovery_succeeded res = (read_ok \<and> ok)"
      using assms(2) lc Some d
      by (auto simp: hydrate_def Let_def m0_def ready_def replay_wal_tail_def split: task.splits)
    obtain rs where rs: "handled lib (map CmdRecordAck rs) m1 m2"
      using replay_loop_records [OF _ loop] m1 by blast
    have m2: "model_ok m2" "\<not> lm_is_hydrated m2"
      using handled_ok [OF rs] handled_keeps_flag [OF rs] m1 by auto
    have "\<not> read_ok" if "reader = Some read_latest" "read_latest assets now = Inl e" for read_latest e
      using lc that by (auto simp: load_checkpoints_def)
    with fin [OF m2 res(1)] res(2) Some show ?thesis by auto
  qed
qed

theorem hydration_ready_exact_witness:
  "\<exists>m' res. hydrate sum_lib unit_bincode demo_channels None (Some (wal_config_default, None)) 0 [''a'']
     (live_model_new FixedTokens) = Returned (m', res) \<and> model_ok m' \<and> \<not> lm_is_hydrated m'"
proof -
  obtain m' res where run: "hydrate sum_lib unit_bincode demo_channels None (Some (wal_config_default, None)) 0 [''a'']
     (live_model_new FixedTokens) = Returned (m', res)"
    by (simp add: hydrate_def load_checkpoints_def)
  from hydration_ready_exact [OF model_new_ok run] run show ?thesis by blast
qed

end
