(* ===== verification/Reconcile.thy ===== *)
theory Reconcile
  imports WalReader RecoveryBatch
begin

text \<open>
  \<open>crates/pb-bin/src/commands/reconcile.rs\<close>: rebuilding complete Parquet hours from the log. A first
  pass over the log, read strictly, checks it and collects a summary of each hour; a second one
  publishes the complete hours one after the other. The log is under the maintenance lock, so its
  files do not change. The errors are the contexts of the command's messages; log output and the
  failures of the operating system are not modelled.
\<close>

section \<open>The first pass\<close>

datatype reconcile_error =
    WalNotOffline string
  | UndecodableRecord wal_error
  | TimestampsBackwards u64
  | WalReadFailed wal_error
  | NoReceiveRecords
  | SpanNotRecoverable store_error
  | NoCompleteHour u64 u64
  | HourTooLarge u64
  | WalChanged wal_error
  | WriteFailed store_error
  | CleanupFailures nat

definition MAX_RECOVERY_HOUR_ENCODED_BYTES :: u64 where
  "MAX_RECOVERY_HOUR_ENCODED_BYTES = 128 * 1024 * 1024"

definition MAX_RECOVERY_HOUR_RECORDS :: u64 where
  "MAX_RECOVERY_HOUR_RECORDS = 2000000"

record hour_summary =
  hs_records :: u64
  hs_encoded_bytes :: u64

fun is_receive_time_partitioned :: "persisted_record \<Rightarrow> bool" where
  "is_receive_time_partitioned (Book _) = True"
| "is_receive_time_partitioned (Trade _) = True"
| "is_receive_time_partitioned (Ingest _) = True"
| "is_receive_time_partitioned _ = False"

record survey =
  sv_wal_records :: nat
  sv_hours :: "(u64, hour_summary) btree"
  sv_unsupported :: nat
  sv_start_us :: "u64 option"
  sv_end_us :: "u64 option"

definition survey_new :: survey where
  "survey_new = \<lparr> sv_wal_records = 0, sv_hours = bt_empty, sv_unsupported = 0, sv_start_us = None, sv_end_us = None \<rparr>"

definition survey_record :: "bincode_lib \<Rightarrow> bytes \<Rightarrow> survey \<Rightarrow> reconcile_error + survey" where
  "survey_record B payload sv0 =
     (let sv = sv0\<lparr> sv_wal_records := sv_wal_records sv0 + 1 \<rparr>
      in case decode B payload of
           Inl e \<Rightarrow> Inl (UndecodableRecord e)
         | Inr rec \<Rightarrow>
             if \<not> is_receive_time_partitioned rec then Inr (sv\<lparr> sv_unsupported := sv_unsupported sv + 1 \<rparr>)
             else
               let t = the (record_recv_timestamp_us rec)
               in if (case sv_end_us sv of None \<Rightarrow> False | Some previous \<Rightarrow> t < previous) then Inl (TimestampsBackwards t)
                  else
                    let hour = t div HOUR_US * HOUR_US;
                        s = (case bt_get (sv_hours sv) hour of Some s \<Rightarrow> s
                             | None \<Rightarrow> \<lparr> hs_records = 0, hs_encoded_bytes = 0 \<rparr>);
                        s' = \<lparr> hs_records = saturating_add (hs_records s) 1,
                               hs_encoded_bytes = saturating_add (hs_encoded_bytes s) (of_nat (length payload)) \<rparr>
                    in Inr (sv\<lparr> sv_start_us := Some (case sv_start_us sv of Some x \<Rightarrow> x | None \<Rightarrow> t),
                                 sv_end_us := Some t, sv_hours := bt_insert hour s' (sv_hours sv) \<rparr>))"

text \<open>The log is finite: every record returned moves the reader forward.\<close>

lemma progress_trans: "(r2, r1) \<in> progress fs \<Longrightarrow> (r1, r) \<in> progress fs \<Longrightarrow> (r2, r) \<in> progress fs"
  by (auto simp: progress_def)

lemma strict_round_returns:
  assumes "strict_round L fs r = Inr (r', Inr (Some p))"
  shows "(r', r) \<in> progress fs"
proof (cases "current_data r")
  case None
  with assms show ?thesis by (auto simp: strict_round_def split: prod.splits if_splits)
next
  case (Some data)
  with assms obtain nxt where n: "read_record_at L data (current_offset r) (current_segment_id r) = Inr (Some (p, nxt))"
    "r' = r\<lparr> current_offset := nxt \<rparr>"
    by (auto simp: strict_round_def Let_def split: if_splits sum.splits option.splits prod.splits bool.splits)
  with read_record_at_progress [OF n(1)] Some show ?thesis
    by (auto simp: progress_def later_segments_def cache_state_def unread_def HEADER_SIZE_def)
qed

lemma strict_next_returns:
  "reader_next_strict L fs r = (r', Inr (Some p)) \<Longrightarrow> (r', r) \<in> progress fs"
proof (induction r rule: wf_induct_rule [OF wf_progress [of fs]])
  case (1 r)
  show ?case
  proof (cases "strict_round L fs r")
    case (Inl r1)
    with 1(1) [OF strict_round_progress [OF Inl]] 1(2) show ?thesis
      by (auto simp: strict_next_step intro: progress_trans strict_round_progress)
  next
    case (Inr out)
    with 1(2) show ?thesis by (auto simp: strict_next_done intro: strict_round_returns)
  qed
qed

function survey_loop :: "crc_lib \<Rightarrow> bincode_lib \<Rightarrow> wal_files \<Rightarrow> wal_reader \<Rightarrow> survey \<Rightarrow> reconcile_error + survey" where
  "survey_loop L B fs r sv =
     (case reader_next_strict L fs r of
        (r1, Inl e) \<Rightarrow> Inl (WalReadFailed e)
      | (r1, Inr None) \<Rightarrow> Inr sv
      | (r1, Inr (Some payload)) \<Rightarrow>
          (case survey_record B payload sv of Inl e \<Rightarrow> Inl e | Inr sv1 \<Rightarrow> survey_loop L B fs r1 sv1))"
  by auto
termination
  by (relation "measures [\<lambda>(L, B, fs, r, sv). later_segments fs r, \<lambda>(L, B, fs, r, sv). cache_state fs r,
        \<lambda>(L, B, fs, r, sv). unread r]")
    (auto dest!: strict_next_returns [OF sym] simp: progress_def)

section \<open>The checks between the passes\<close>

definition hour_too_large :: "hour_summary \<Rightarrow> bool" where
  "hour_too_large s \<longleftrightarrow> MAX_RECOVERY_HOUR_RECORDS < hs_records s \<or> MAX_RECOVERY_HOUR_ENCODED_BYTES < hs_encoded_bytes s"

definition recovery_span :: "survey \<Rightarrow> reconcile_error + recovery_coverage" where
  "recovery_span sv =
     (case sv_start_us sv of
        None \<Rightarrow> Inl NoReceiveRecords
      | Some start_us \<Rightarrow>
          (case coverage_new start_us (the (sv_end_us sv)) of
             Inl e \<Rightarrow> Inl (SpanNotRecoverable e)
           | Inr coverage \<Rightarrow>
               let complete = filter (\<lambda>(h, s). contains_complete_hour coverage h) (sv_hours sv)
               in if sum_list (map (\<lambda>(h, s). unat (hs_records s)) complete) = 0
                  then Inl (NoCompleteHour (cov_start_us coverage) (cov_end_us coverage))
                  else
                    (case find (\<lambda>(h, s). contains_complete_hour coverage h \<and> hour_too_large s) (sv_hours sv) of
                       Some (h, _) \<Rightarrow> Inl (HourTooLarge h)
                     | None \<Rightarrow> Inr coverage)))"

section \<open>The second pass\<close>

definition publish_hour :: "'o parquet_lib \<Rightarrow> string \<Rightarrow> recovery_coverage \<Rightarrow> persisted_record list \<Rightarrow>
    ('o, reconcile_error, recovery_report) prog" where
  "publish_hour P base coverage records st =
     (case write_batch_replacing P base records coverage st of
        (st', Inl Panic) \<Rightarrow> (st', Inl Panic)
      | (st', Inl (Failed e)) \<Rightarrow> (st', Inl (Failed (WriteFailed e)))
      | (st', Inr report) \<Rightarrow> (st', Inr report))"

definition add_report :: "recovery_report \<Rightarrow> recovery_report \<Rightarrow> recovery_report" where
  "add_report a b = \<lparr> rp_partitions_published = rp_partitions_published a + rp_partitions_published b,
     rp_records_published = rp_records_published a + rp_records_published b,
     rp_cleanup_failures = rp_cleanup_failures a + rp_cleanup_failures b \<rparr>"

definition empty_report :: recovery_report where
  "empty_report = \<lparr> rp_partitions_published = 0, rp_records_published = 0, rp_cleanup_failures = 0 \<rparr>"

definition record_hour :: "persisted_record \<Rightarrow> u64" where
  "record_hour rec = partition_timestamp_us rec div HOUR_US * HOUR_US"

definition published_here :: "recovery_coverage \<Rightarrow> persisted_record \<Rightarrow> bool" where
  "published_here coverage rec \<longleftrightarrow>
     is_receive_time_partitioned rec \<and> contains_complete_hour coverage (partition_timestamp_us rec)"

function publish_loop :: "crc_lib \<Rightarrow> bincode_lib \<Rightarrow> 'o parquet_lib \<Rightarrow> string \<Rightarrow> recovery_coverage \<Rightarrow> wal_files \<Rightarrow>
    wal_reader \<Rightarrow> persisted_record list \<Rightarrow> u64 option \<Rightarrow> recovery_report \<Rightarrow>
    ('o, reconcile_error, persisted_record list \<times> recovery_report) prog" where
  "publish_loop L B P base coverage fs r hour_records current report st =
     (case reader_next_strict L fs r of
        (r1, Inl e) \<Rightarrow> stop (WalReadFailed e) st
      | (r1, Inr None) \<Rightarrow> ret (hour_records, report) st
      | (r1, Inr (Some payload)) \<Rightarrow>
          (case decode B payload of
             Inl e \<Rightarrow> stop (WalChanged e) st
           | Inr rec \<Rightarrow>
               if \<not> published_here coverage rec then publish_loop L B P base coverage fs r1 hour_records current report st
               else if current \<noteq> None \<and> current \<noteq> Some (record_hour rec) then
                 (case publish_hour P base coverage hour_records st of
                    (st1, Inl e) \<Rightarrow> (st1, Inl e)
                  | (st1, Inr hour_report) \<Rightarrow>
                      publish_loop L B P base coverage fs r1 [rec] (Some (record_hour rec)) (add_report report hour_report) st1)
               else publish_loop L B P base coverage fs r1 (hour_records @ [rec]) (Some (record_hour rec)) report st))"
  by auto
termination
  by (relation "measures [\<lambda>(L, B, P, base, c, fs, r, x). later_segments fs r, \<lambda>(L, B, P, base, c, fs, r, x). cache_state fs r,
        \<lambda>(L, B, P, base, c, fs, r, x). unread r]")
    (auto dest!: strict_next_returns [OF sym] simp: progress_def)

definition publish_rest :: "'o parquet_lib \<Rightarrow> string \<Rightarrow> recovery_coverage \<Rightarrow> persisted_record list \<times> recovery_report \<Rightarrow>
    ('o, reconcile_error, recovery_report) prog" where
  "publish_rest P base coverage = (\<lambda>(hrs, report).
     if hrs = [] then ret report else andthen (publish_hour P base coverage hrs) (\<lambda>hr. ret (add_report report hr)))"

definition reconcile :: "crc_lib \<Rightarrow> bincode_lib \<Rightarrow> 'o parquet_lib \<Rightarrow> string \<Rightarrow> wal_config \<Rightarrow> wal_world \<Rightarrow>
    ('o, reconcile_error, unit) prog" where
  "reconcile L B P base cfg w =
     (if wal_locked w then stop (WalNotOffline (base_path cfg))
      else
        (case survey_loop L B (wal_files w) (open_from_start cfg ''reconcile-validate'' w) survey_new of
           Inl e \<Rightarrow> stop e
         | Inr sv \<Rightarrow>
             if sv_wal_records sv = 0 then ret ()
             else
               (case recovery_span sv of
                  Inl e \<Rightarrow> stop e
                | Inr coverage \<Rightarrow>
                    andthen (publish_loop L B P base coverage (wal_files w) (open_from_start cfg ''reconcile-publish'' w) [] None empty_report)
                      (\<lambda>rest.
                    andthen (publish_rest P base coverage rest)
                      (\<lambda>report.
                    if 0 < rp_cleanup_failures report then stop (CleanupFailures (rp_cleanup_failures report)) else ret ())))))"

section \<open>Both passes read the same records\<close>

declare survey_loop.simps [simp del] publish_loop.simps [simp del]

text \<open>The records a strict reader returns up to the end of the log or the first error.\<close>

function strict_payloads :: "crc_lib \<Rightarrow> wal_files \<Rightarrow> wal_reader \<Rightarrow> bytes list \<times> wal_error option" where
  "strict_payloads L fs r =
     (case reader_next_strict L fs r of
        (r1, Inl e) \<Rightarrow> ([], Some e)
      | (r1, Inr None) \<Rightarrow> ([], None)
      | (r1, Inr (Some p)) \<Rightarrow> apfst (Cons p) (strict_payloads L fs r1))"
  by auto
termination
  by (relation "measures [\<lambda>(L, fs, r). later_segments fs r, \<lambda>(L, fs, r). cache_state fs r, \<lambda>(L, fs, r). unread r]")
    (auto dest!: strict_next_returns [OF sym] simp: progress_def)

declare strict_payloads.simps [simp del]

lemma reader_induct [case_names step]:
  assumes "\<And>r. (\<And>r1 p. reader_next_strict L fs r = (r1, Inr (Some p)) \<Longrightarrow> Q r1) \<Longrightarrow> Q r"
  shows "Q r"
proof (induction r rule: wf_induct_rule [OF wf_progress [of fs]])
  case (1 r)
  with assms strict_next_returns show ?case by blast
qed

lemma load_rename:
  "load_segment fs i (r\<lparr> consumer_name := c \<rparr>) = map_prod (\<lambda>r. r\<lparr> consumer_name := c \<rparr>) id (load_segment fs i r)"
  by (simp add: load_segment_def split: option.split)

lemma top_up_rename:
  "top_up fs (r\<lparr> consumer_name := c \<rparr>) = map_prod (\<lambda>r. r\<lparr> consumer_name := c \<rparr>) id (top_up fs r)"
  by (cases "load_segment fs (current_segment_id r) r") (auto simp: top_up_def load_rename Let_def split: option.split)

lemma reload_rename:
  "reload_when_unloaded fs (r\<lparr> consumer_name := c \<rparr>) =
     map_prod (\<lambda>r. r\<lparr> consumer_name := c \<rparr>) id (reload_when_unloaded fs r)"
proof -
  have "load_segment fs i (r\<lparr> consumer_name := c, available_segments := av, current_segment_id := a, current_offset := b \<rparr>) =
      map_prod (\<lambda>r. r\<lparr> consumer_name := c \<rparr>) id (load_segment fs i (r\<lparr> available_segments := av, current_segment_id := a, current_offset := b \<rparr>))"
    "load_segment fs i (r\<lparr> consumer_name := c, available_segments := av \<rparr>) =
      map_prod (\<lambda>r. r\<lparr> consumer_name := c \<rparr>) id (load_segment fs i (r\<lparr> available_segments := av \<rparr>))" for i av a b
    by (simp_all add: load_segment_def split: option.split)
  then show ?thesis by (simp add: reload_when_unloaded_def Let_def split: list.split)
qed

lemma advance_rename:
  assumes "advance_segment_strict fs r = (r', Inr ok)"
  shows "advance_segment_strict fs (r\<lparr> consumer_name := c \<rparr>) = (r'\<lparr> consumer_name := c \<rparr>, Inr ok)"
proof -
  have load: "load_segment fs i (r\<lparr> consumer_name := c, available_segments := av, current_offset := b \<rparr>) =
      map_prod (\<lambda>r. r\<lparr> consumer_name := c \<rparr>) id (load_segment fs i (r\<lparr> available_segments := av, current_offset := b \<rparr>))" for i av b
    by (simp add: load_segment_def split: option.split)
  have top: "top_up fs (r\<lparr> consumer_name := c, available_segments := av \<rparr>) =
      map_prod (\<lambda>r. r\<lparr> consumer_name := c \<rparr>) id (top_up fs (r\<lparr> available_segments := av \<rparr>))" for av
  proof -
    have "r\<lparr> consumer_name := c, available_segments := av \<rparr> = (r\<lparr> available_segments := av \<rparr>)\<lparr> consumer_name := c \<rparr>" by simp
    then show ?thesis by (simp only: top_up_rename)
  qed
  have "next_available (r\<lparr> consumer_name := c, available_segments := av \<rparr>) = next_available (r\<lparr> available_segments := av \<rparr>)" for av
    by (simp add: next_available_def)
  with assms show ?thesis
    by (auto simp: advance_segment_strict_def Let_def load top map_prod_def split_beta split: option.splits if_splits)
qed

lemma strict_round_rename:
  "strict_round L fs r = Inl r' \<Longrightarrow> strict_round L fs (r\<lparr> consumer_name := c \<rparr>) = Inl (r'\<lparr> consumer_name := c \<rparr>)"
  "strict_round L fs r = Inr (r', Inr x) \<Longrightarrow> strict_round L fs (r\<lparr> consumer_name := c \<rparr>) = Inr (r'\<lparr> consumer_name := c \<rparr>, Inr x)"
  by (auto simp: strict_round_def Let_def reload_rename advance_rename
      split: option.splits if_splits prod.splits sum.splits bool.splits)

lemma strict_next_rename:
  "reader_next_strict L fs r = (r', Inr x) \<Longrightarrow>
   reader_next_strict L fs (r\<lparr> consumer_name := c \<rparr>) = (r'\<lparr> consumer_name := c \<rparr>, Inr x)"
proof (induction r rule: wf_induct_rule [OF wf_progress [of fs]])
  case (1 r)
  show ?case
  proof (cases "strict_round L fs r")
    case (Inl r1)
    from 1(1) [OF strict_round_progress [OF Inl]] 1(2) Inl strict_round_rename(1) [OF Inl, of c] show ?thesis
      by (simp add: strict_next_step)
  next
    case (Inr out)
    then have "strict_round L fs r = Inr (r', Inr x)" using 1(2) by (simp add: strict_next_done)
    from strict_round_rename(2) [OF this, of c] show ?thesis by (simp add: strict_next_done)
  qed
qed

lemma strict_payloads_rename:
  "strict_payloads L fs r = (ps, None) \<Longrightarrow> strict_payloads L fs (r\<lparr> consumer_name := c \<rparr>) = (ps, None)"
proof (induction r arbitrary: ps rule: reader_induct [of L fs])
  case (step r)
  obtain r1 x where n: "reader_next_strict L fs r = (r1, x)" by (cases "reader_next_strict L fs r")
  with step(2) obtain y where y: "x = Inr y"
    by (subst (asm) strict_payloads.simps) (cases x; auto)
  note re = strict_next_rename [OF n [unfolded y], of c]
  show ?case
  proof (cases y)
    case None
    with step(2) n y have "ps = []" by (subst (asm) strict_payloads.simps) simp
    with re None show ?thesis by (subst strict_payloads.simps) simp
  next
    case (Some p)
    obtain qs where qs: "strict_payloads L fs r1 = (qs, None)" "ps = p # qs"
      using step(2) n y Some by (subst (asm) strict_payloads.simps) (auto simp: prod_eq_iff)
    have "strict_payloads L fs (r1\<lparr> consumer_name := c \<rparr>) = (qs, None)"
      by (rule step(1) [OF _ qs(1)]) (use n y Some in simp)
    then show ?thesis using re Some qs(2) by (subst strict_payloads.simps) simp
  qed
qed

section \<open>The passes over the list of records\<close>

fun survey_all :: "bincode_lib \<Rightarrow> bytes list \<Rightarrow> survey \<Rightarrow> reconcile_error + survey" where
  "survey_all B [] sv = Inr sv"
| "survey_all B (p # ps) sv = (case survey_record B p sv of Inl e \<Rightarrow> Inl e | Inr sv1 \<Rightarrow> survey_all B ps sv1)"

lemma survey_loop_reads:
  "survey_loop L B fs r sv = Inr sv' \<Longrightarrow> \<exists>ps. strict_payloads L fs r = (ps, None) \<and> survey_all B ps sv = Inr sv'"
proof (induction r arbitrary: sv rule: reader_induct [of L fs])
  case (step r)
  obtain r1 x where n: "reader_next_strict L fs r = (r1, x)" by (cases "reader_next_strict L fs r")
  have go: "(case x of Inl e \<Rightarrow> Inl (WalReadFailed e) | Inr None \<Rightarrow> Inr sv
      | Inr (Some p) \<Rightarrow> (case survey_record B p sv of Inl e \<Rightarrow> Inl e | Inr sv1 \<Rightarrow> survey_loop L B fs r1 sv1)) = Inr sv'"
    using step(2) n by (subst (asm) survey_loop.simps) (simp split: sum.splits option.splits)
  then obtain y where y: "x = Inr y" by (cases x) auto
  show ?case
  proof (cases y)
    case None
    then have "strict_payloads L fs r = ([], None)" using n y by (subst strict_payloads.simps) simp
    with go y None show ?thesis by (intro exI [of _ "[]"]) simp
  next
    case (Some p)
    then obtain sv1 where sv1: "survey_record B p sv = Inr sv1" "survey_loop L B fs r1 sv1 = Inr sv'"
      using go y by (auto split: sum.splits)
    obtain ps where "strict_payloads L fs r1 = (ps, None)" "survey_all B ps sv1 = Inr sv'"
      using step(1) [OF _ sv1(2)] n y Some by blast
    moreover from this have "strict_payloads L fs r = (p # ps, None)"
      using n y Some by (subst strict_payloads.simps) simp
    ultimately show ?thesis using sv1(1) by (intro exI [of _ "p # ps"]) simp
  qed
qed

lemma strict_payloads_bytes:
  "dir_ok fs \<Longrightarrow> strict_at fs r \<Longrightarrow> strict_payloads L fs r = (ps, None) \<Longrightarrow>
   rest_of_log fs (current_segment_id r) (current_offset r) = frames L ps"
proof (induction r arbitrary: ps rule: reader_induct [of L fs])
  case (step r)
  obtain r1 x where n: "reader_next_strict L fs r = (r1, x)" by (cases "reader_next_strict L fs r")
  note o = strict_next_at [OF step(2,3), of L, unfolded n strict_outcome_def prod.case]
  show ?case
  proof (cases x)
    case (Inl e)
    with step(4) n show ?thesis by (subst (asm) strict_payloads.simps) simp
  next
    case (Inr y)
    show ?thesis
    proof (cases y)
      case None
      then have "ps = []" using step(4) n Inr by (subst (asm) strict_payloads.simps) simp
      with o Inr None show ?thesis by simp
    next
      case (Some p)
      obtain qs where qs: "strict_payloads L fs r1 = (qs, None)" "ps = p # qs"
        using step(4) n Inr Some by (subst (asm) strict_payloads.simps) (auto simp: prod_eq_iff)
      from step(1) [OF _ step(2) _ qs(1)] o n Inr Some qs(2) show ?thesis by simp
    qed
  qed
qed

text \<open>What the first pass has found, of the records read so far.\<close>

definition decoded :: "bincode_lib \<Rightarrow> bytes list \<Rightarrow> persisted_record list" where
  "decoded B ps = map (\<lambda>p. projr (decode B p)) ps"

definition timed :: "bincode_lib \<Rightarrow> bytes list \<Rightarrow> persisted_record list" where
  "timed B ps = filter is_receive_time_partitioned (decoded B ps)"

definition hour_bytes :: "bincode_lib \<Rightarrow> bytes list \<Rightarrow> u64 \<Rightarrow> nat" where
  "hour_bytes B ps h = sum_list (map length (filter (\<lambda>p. is_receive_time_partitioned (projr (decode B p)) \<and>
     record_hour (projr (decode B p)) = h) ps))"

definition hour_records :: "persisted_record list \<Rightarrow> u64 \<Rightarrow> persisted_record list" where
  "hour_records recs h = filter (\<lambda>r. record_hour r = h) recs"

definition hour_entry :: "bincode_lib \<Rightarrow> bytes list \<Rightarrow> u64 \<Rightarrow> hour_summary option \<Rightarrow> bool" where
  "hour_entry B ps h e =
     (case e of
        None \<Rightarrow> hour_records (timed B ps) h = []
      | Some s \<Rightarrow> hour_records (timed B ps) h \<noteq> [] \<and>
          unat (hs_records s) = min (length (hour_records (timed B ps) h)) (2 ^ 64 - 1) \<and>
          unat (hs_encoded_bytes s) = min (hour_bytes B ps h) (2 ^ 64 - 1))"

definition surveyed :: "bincode_lib \<Rightarrow> bytes list \<Rightarrow> survey \<Rightarrow> bool" where
  "surveyed B ps sv \<longleftrightarrow> (\<forall>p\<in>set ps. \<exists>r. decode B p = Inr r) \<and> sorted (map partition_timestamp_us (timed B ps)) \<and>
     sv_wal_records sv = length ps \<and>
     sv_start_us sv = (if timed B ps = [] then None else Some (partition_timestamp_us (hd (timed B ps)))) \<and>
     sv_end_us sv = (if timed B ps = [] then None else Some (partition_timestamp_us (last (timed B ps)))) \<and>
     bt_ok (sv_hours sv) \<and>
     (\<forall>h. hour_entry B ps h (bt_get (sv_hours sv) h))"

lemma surveyed_new: "surveyed B [] survey_new"
  by (simp add: surveyed_def survey_new_def timed_def decoded_def hour_records_def hour_entry_def bt.get_empt)

lemma partitioned_time:
  "is_receive_time_partitioned r \<Longrightarrow> record_recv_timestamp_us r = Some (partition_timestamp_us r)"
  by (cases r) simp_all

lemma min_add_saturated: "min (min a (m :: nat) + b) m = min (a + b) m"
  by (simp add: min_def)

lemma surveyed_snoc:
  assumes ok: "surveyed B ps sv" and s: "survey_record B p sv = Inr sv'" and len: "length p < 2 ^ 64"
  shows "surveyed B (ps @ [p]) sv'"
proof -
  obtain rec where rec: "decode B p = Inr rec" using s by (auto simp: survey_record_def Let_def split: sum.splits)
  show ?thesis
  proof (cases "is_receive_time_partitioned rec")
    case False
    then have "sv' = sv\<lparr> sv_wal_records := sv_wal_records sv + 1, sv_unsupported := sv_unsupported sv + 1 \<rparr>"
      using s rec by (simp add: survey_record_def Let_def)
    moreover have "timed B (ps @ [p]) = timed B ps" "hour_bytes B (ps @ [p]) h = hour_bytes B ps h" for h
      using False rec by (simp_all add: timed_def decoded_def hour_bytes_def)
    then have "timed B (ps @ [p]) = timed B ps" "hour_entry B (ps @ [p]) h e = hour_entry B ps h e" for h e
      by (simp_all add: hour_entry_def split: option.split)
    ultimately show ?thesis using ok rec by (simp add: surveyed_def)
  next
    case True
    let ?t = "partition_timestamp_us rec" and ?h = "record_hour rec"
    define s0 where "s0 = (case bt_get (sv_hours sv) ?h of Some s \<Rightarrow> s | None \<Rightarrow> \<lparr> hs_records = 0, hs_encoded_bytes = 0 \<rparr>)"
    have le: "\<not> (case sv_end_us sv of None \<Rightarrow> False | Some previous \<Rightarrow> ?t < previous)"
      using s rec True by (auto simp: survey_record_def Let_def partitioned_time)
    have sv': "sv' = sv\<lparr> sv_wal_records := sv_wal_records sv + 1,
        sv_start_us := Some (case sv_start_us sv of Some x \<Rightarrow> x | None \<Rightarrow> ?t), sv_end_us := Some ?t,
        sv_hours := bt_insert ?h \<lparr> hs_records = saturating_add (hs_records s0) 1,
          hs_encoded_bytes = saturating_add (hs_encoded_bytes s0) (of_nat (length p)) \<rparr> (sv_hours sv) \<rparr>"
      using s rec True le by (simp add: survey_record_def Let_def partitioned_time s0_def record_hour_def)
    have t: "timed B (ps @ [p]) = timed B ps @ [rec]" using True rec by (simp add: timed_def decoded_def)
    have bytes: "hour_bytes B (ps @ [p]) h = hour_bytes B ps h + (if h = ?h then length p else 0)" for h
      using True rec by (simp add: hour_bytes_def)
    have "r \<in> set (timed B ps) \<Longrightarrow> partition_timestamp_us r \<le> ?t" for r
    proof -
      assume mem: "r \<in> set (timed B ps)"
      then have "timed B ps \<noteq> []" by auto
      then have "partition_timestamp_us (last (timed B ps)) \<le> ?t" using ok le by (simp add: surveyed_def not_less)
      moreover have "sorted (map partition_timestamp_us (timed B ps))" using ok by (simp add: surveyed_def)
      then have "partition_timestamp_us r \<le> partition_timestamp_us (last (timed B ps))"
        using mem \<open>timed B ps \<noteq> []\<close> by (cases "timed B ps" rule: rev_cases) (auto simp: sorted_append)
      ultimately show ?thesis by simp
    qed
    then have sorted: "sorted (map partition_timestamp_us (timed B (ps @ [p])))"
      using ok by (auto simp: surveyed_def t sorted_append)
    have entry: "hour_entry B ps h (bt_get (sv_hours sv) h)" for h using ok by (simp add: surveyed_def)
    have "hour_records (timed B ps) ?h = [] \<Longrightarrow> hour_bytes B ps ?h = 0"
      by (auto simp: hour_records_def timed_def decoded_def hour_bytes_def filter_empty_conv)
    then have s0: "unat (hs_records s0) = min (length (hour_records (timed B ps) ?h)) (2 ^ 64 - 1)"
      "unat (hs_encoded_bytes s0) = min (hour_bytes B ps ?h) (2 ^ 64 - 1)"
      using entry [of ?h] by (auto simp: s0_def hour_entry_def split: option.splits)
    have recs: "hour_records (timed B (ps @ [p])) h = hour_records (timed B ps) h @ (if h = ?h then [rec] else [])" for h
      by (simp add: t hour_records_def)
    have len': "unat (of_nat (length p) :: u64) = length p" using len by (simp add: unat_of_nat_small)
    have "unat (saturating_add (hs_records s0) 1) = min (length (hour_records (timed B ps) ?h) + 1) (2 ^ 64 - 1)"
      using s0(1) min_add_saturated [of "length (hour_records (timed B ps) ?h)" "2 ^ 64 - 1" 1] by (simp add: unat_saturating_add)
    moreover have "unat (saturating_add (hs_encoded_bytes s0) (of_nat (length p))) = min (hour_bytes B ps ?h + length p) (2 ^ 64 - 1)"
      using s0(2) min_add_saturated [of "hour_bytes B ps ?h" "2 ^ 64 - 1" "length p"] by (simp add: unat_saturating_add len')
    ultimately have new: "hour_entry B (ps @ [p]) ?h (Some \<lparr> hs_records = saturating_add (hs_records s0) 1,
          hs_encoded_bytes = saturating_add (hs_encoded_bytes s0) (of_nat (length p)) \<rparr>)"
      by (simp add: hour_entry_def recs bytes)
    have bt: "bt_ok (sv_hours sv)" using ok by (simp add: surveyed_def)
    have "hour_entry B (ps @ [p]) h (bt_get (sv_hours sv') h)" for h
    proof (cases "h = ?h")
      case True
      with new bt show ?thesis by (simp add: sv' bt.get_put)
    next
      case False
      with entry [of h] bt show ?thesis by (auto simp: sv' bt.get_put hour_entry_def recs bytes split: option.splits)
    qed
    then show ?thesis
      using ok rec sorted by (auto simp: surveyed_def sv' t bt.ok_put hd_append)
  qed
qed

lemma survey_all_surveyed:
  "surveyed B ps sv \<Longrightarrow> survey_all B qs sv = Inr sv' \<Longrightarrow> list_all (\<lambda>p. length p < 2 ^ 32) qs \<Longrightarrow> surveyed B (ps @ qs) sv'"
proof (induction qs arbitrary: ps sv)
  case (Cons p qs)
  obtain sv1 where sv1: "survey_record B p sv = Inr sv1" "survey_all B qs sv1 = Inr sv'"
    using Cons.prems(2) by (auto split: sum.splits)
  have "surveyed B (ps @ [p]) sv1"
    by (rule surveyed_snoc [OF Cons.prems(1) sv1(1)]) (use Cons.prems(3) in simp)
  from Cons.IH [OF this sv1(2)] Cons.prems(3) show ?case by simp
qed simp

lemma strict_payload_length:
  "reader_next_strict L fs r = (r', Inr (Some p)) \<Longrightarrow> length p < 2 ^ 32"
proof (induction r rule: wf_induct_rule [OF wf_progress [of fs]])
  case (1 r)
  show ?case
  proof (cases "strict_round L fs r")
    case (Inl r1)
    with 1(1) [OF strict_round_progress [OF Inl]] 1(2) show ?thesis by (simp add: strict_next_step)
  next
    case (Inr out)
    then have round: "strict_round L fs r = Inr (r', Inr (Some p))" using 1(2) by (simp add: strict_next_done)
    then obtain data nxt where "read_record_at L data (current_offset r) (current_segment_id r) = Inr (Some (p, nxt))"
      by (auto simp: strict_round_def Let_def split: option.splits if_splits sum.splits prod.splits bool.splits)
    from read_record_frame [OF this] show ?thesis by simp
  qed
qed

lemma strict_payloads_length: "strict_payloads L fs r = (ps, e) \<Longrightarrow> list_all (\<lambda>p. length p < 2 ^ 32) ps"
proof (induction r arbitrary: ps rule: reader_induct [of L fs])
  case (step r)
  obtain r1 x where n: "reader_next_strict L fs r = (r1, x)" by (cases "reader_next_strict L fs r")
  show ?case
  proof (cases "\<exists>p. x = Inr (Some p)")
    case True
    then obtain p where p: "x = Inr (Some p)" by blast
    obtain qs where qs: "strict_payloads L fs r1 = (qs, e)" "ps = p # qs"
      using step(2) n p by (subst (asm) strict_payloads.simps) (auto simp: prod_eq_iff)
    from step(1) [OF _ qs(1)] n p strict_payload_length [of L fs r r1 p] qs(2) show ?thesis by simp
  next
    case False
    then have "ps = []" using step(2) n by (subst (asm) strict_payloads.simps) (auto split: sum.splits option.splits)
    then show ?thesis by simp
  qed
qed

section \<open>The second pass publishes hour by hour\<close>

fun publish_list :: "'o parquet_lib \<Rightarrow> string \<Rightarrow> recovery_coverage \<Rightarrow> persisted_record list \<Rightarrow> persisted_record list \<Rightarrow>
    u64 option \<Rightarrow> recovery_report \<Rightarrow> ('o, reconcile_error, persisted_record list \<times> recovery_report) prog" where
  "publish_list P base coverage [] hrs current report = ret (hrs, report)"
| "publish_list P base coverage (x # xs) hrs current report =
     (if current \<noteq> None \<and> current \<noteq> Some (record_hour x)
      then andthen (publish_hour P base coverage hrs)
        (\<lambda>hr. publish_list P base coverage xs [x] (Some (record_hour x)) (add_report report hr))
      else publish_list P base coverage xs (hrs @ [x]) (Some (record_hour x)) report)"

lemma publish_loop_list:
  "strict_payloads L fs r = (ps, None) \<Longrightarrow> \<forall>p\<in>set ps. \<exists>rec. decode B p = Inr rec \<Longrightarrow>
   publish_loop L B P base coverage fs r hrs current report st =
     publish_list P base coverage (filter (published_here coverage) (decoded B ps)) hrs current report st"
proof (induction r arbitrary: ps hrs current report st rule: reader_induct [of L fs])
  case (step r)
  obtain r1 x where n: "reader_next_strict L fs r = (r1, x)" by (cases "reader_next_strict L fs r")
  with step(2) obtain y where y: "x = Inr y" by (subst (asm) strict_payloads.simps) (cases x; auto)
  show ?case
  proof (cases y)
    case None
    then have "ps = []" using step(2) n y by (subst (asm) strict_payloads.simps) simp
    with n y None show ?thesis by (subst publish_loop.simps) (simp add: decoded_def)
  next
    case (Some p)
    obtain qs where qs: "strict_payloads L fs r1 = (qs, None)" "ps = p # qs"
      using step(2) n y Some by (subst (asm) strict_payloads.simps) (auto simp: prod_eq_iff)
    obtain rec where rec: "decode B p = Inr rec" using step(3) qs(2) by auto
    have IH: "publish_loop L B P base coverage fs r1 hrs current report st =
        publish_list P base coverage (filter (published_here coverage) (decoded B qs)) hrs current report st" for hrs current report st
      by (rule step(1) [OF _ qs(1)]) (use n y Some step(3) qs(2) in auto)
    have d: "decoded B ps = rec # decoded B qs" by (simp add: decoded_def qs(2) rec)
    show ?thesis
      using n y Some rec by (subst publish_loop.simps) (auto simp: d IH andthen_def split: prod.split sum.split)
  qed
qed

text \<open>The maximal runs of elements with the same key.\<close>

function runs :: "('a \<Rightarrow> 'k) \<Rightarrow> 'a list \<Rightarrow> 'a list list" where
  "runs k [] = []"
| "runs k (x # xs) = (x # takeWhile (\<lambda>y. k y = k x) xs) # runs k (dropWhile (\<lambda>y. k y = k x) xs)"
  by pat_completeness auto
termination
  by (relation "measure (\<lambda>(k, xs). length xs)") (auto simp: less_Suc_eq_le length_dropWhile_le)

fun publish_all :: "'o parquet_lib \<Rightarrow> string \<Rightarrow> recovery_coverage \<Rightarrow> persisted_record list list \<Rightarrow> recovery_report \<Rightarrow>
    ('o, reconcile_error, recovery_report) prog" where
  "publish_all P base coverage [] report = ret report"
| "publish_all P base coverage (b # bs) report =
     andthen (publish_hour P base coverage b) (\<lambda>hr. publish_all P base coverage bs (add_report report hr))"

lemma andthen_assoc: "andthen (andthen m f) g = andthen m (\<lambda>x. andthen (f x) g)"
  by (simp add: andthen_def fun_eq_iff split: prod.split sum.split)

lemma publish_list_runs:
  "hrs \<noteq> [] \<Longrightarrow> \<forall>r\<in>set hrs. record_hour r = h \<Longrightarrow>
   andthen (publish_list P base coverage xs hrs (Some h) report) (publish_rest P base coverage) =
     publish_all P base coverage ((hrs @ takeWhile (\<lambda>y. record_hour y = h) xs) # runs record_hour (dropWhile (\<lambda>y. record_hour y = h) xs)) report"
proof (induction xs arbitrary: hrs h report)
  case Nil
  then show ?case by (simp add: publish_rest_def)
next
  case (Cons x xs)
  show ?case
  proof (cases "record_hour x = h")
    case True
    with Cons.IH [of "hrs @ [x]" h report] Cons.prems show ?thesis by simp
  next
    case False
    with Cons.IH [of "[x]" "record_hour x"] show ?thesis by (simp add: andthen_assoc)
  qed
qed

lemma publish_list_all:
  "andthen (publish_list P base coverage xs [] None report) (publish_rest P base coverage) =
     publish_all P base coverage (runs record_hour xs) report"
proof (cases xs)
  case (Cons x xs')
  with publish_list_runs [of "[x]" "record_hour x" P base coverage xs' report] show ?thesis by simp
qed (simp add: publish_rest_def)

lemma publish_all_each:
  "publish_all P base coverage bs report =
     andthen (for_each bs (publish_hour P base coverage)) (\<lambda>hrs. ret (fold (\<lambda>hr a. add_report a hr) hrs report))"
  by (induction bs arbitrary: report) (simp_all add: andthen_assoc)

lemma report_failures:
  "rp_cleanup_failures (fold (\<lambda>hr a. add_report a hr) hrs report) =
     rp_cleanup_failures report + sum_list (map rp_cleanup_failures hrs)"
  by (induction hrs arbitrary: report) (simp_all add: add_report_def)

lemma all_failures: "rp_cleanup_failures (fold (\<lambda>hr a. add_report a hr) hrs empty_report) = sum_list (map rp_cleanup_failures hrs)"
  by (simp add: report_failures empty_report_def)

lemma runs_sorted:
  "sorted (map k xs) \<Longrightarrow> runs k xs = map (\<lambda>h. filter (\<lambda>x. k x = h) xs) (remdups_adj (map k xs))"
proof (induction k xs rule: runs.induct)
  case (2 k x xs)
  let ?dw = "dropWhile (\<lambda>y. k y = k x) xs" and ?tw = "takeWhile (\<lambda>y. k y = k x) xs"
  have srt: "sorted (map k xs)" "\<forall>y\<in>set xs. k x \<le> k y" using 2(2) by auto
  have "sorted (map k ?tw @ map k ?dw)" using srt(1) by (simp flip: map_append)
  then have sd: "sorted (map k ?dw)" by (simp only: sorted_append)
  have later: "k x < k y" if "y \<in> set ?dw" for y
  proof (cases ?dw)
    case (Cons z zs)
    then have "k z \<noteq> k x" by (simp add: dropWhile_eq_Cons_conv)
    moreover have "z \<in> set xs" using Cons set_dropWhileD [of z "\<lambda>y. k y = k x" xs] by simp
    then have "k x \<le> k z" using srt(2) by blast
    moreover have "k z \<le> k y" using sd that Cons by auto
    ultimately show ?thesis by order
  next
    case Nil
    from that [unfolded Nil] show ?thesis by simp
  qed
  have tw: "k y = k x" if "y \<in> set ?tw" for y using that by (auto dest: set_takeWhileD)
  have split: "filter P xs = filter P ?tw @ filter P ?dw" for P
    using filter_append [of P ?tw ?dw] by simp
  have "filter (\<lambda>y. k y = k x) ?dw = []" using later less_imp_neq unfolding filter_empty_conv by metis
  moreover have "filter (\<lambda>y. k y = k x) ?tw = ?tw" by (rule filter_True) (use tw in blast)
  ultimately have "filter (\<lambda>y. k y = k x) xs = ?tw" using split [of "\<lambda>y. k y = k x"] by (simp only: append_Nil2)
  then have first: "filter (\<lambda>y. k y = k x) (x # xs) = x # ?tw" by simp
  have rest: "filter (\<lambda>y. k y = h) (x # xs) = filter (\<lambda>y. k y = h) ?dw" if "h \<in> set (map k ?dw)" for h
  proof -
    from that obtain y where y: "h = k y" "y \<in> set ?dw" unfolding list.set_map by (rule imageE)
    have lt: "k x < h" unfolding y(1) by (rule later [OF y(2)])
    have nil: "filter (\<lambda>y. k y = h) ?tw = []"
      unfolding filter_empty_conv
    proof
      fix z assume "z \<in> set ?tw"
      then have "k z = k x" by (rule tw)
      with lt show "k z \<noteq> h" by order
    qed
    have "filter (\<lambda>y. k y = h) (x # xs) = filter (\<lambda>y. k y = h) xs" using lt by simp
    then show ?thesis unfolding split [of "\<lambda>y. k y = h"] nil by simp
  qed
  have adj: "remdups_adj (map k (x # xs)) = k x # remdups_adj (map k ?dw)"
    by (simp add: remdups_adj_Cons' dropWhile_map comp_def del: remdups_adj.simps)
  have "runs k ?dw = map (\<lambda>h. filter (\<lambda>y. k y = h) (x # xs)) (remdups_adj (map k ?dw))"
    unfolding 2(1) [OF sd] using rest by (intro map_cong) (auto simp del: filter.simps)
  with first show ?case unfolding adj by simp
qed simp

section \<open>What a reconciliation publishes\<close>

lemma publish_reader:
  "open_from_start cfg c' w = (open_from_start cfg c w)\<lparr> consumer_name := c' \<rparr>"
  by (simp add: open_from_start_def reader_at_def load_segment_def split: option.split)

lemma hour_idem: "(t div HOUR_US * HOUR_US) div HOUR_US * HOUR_US = t div HOUR_US * HOUR_US"
proof -
  have n: "unat HOUR_US = 3600000000" by (simp add: HOUR_US_def)
  have h: "unat (t div HOUR_US * HOUR_US) = unat t div 3600000000 * 3600000000" for t
    by (rule unat_hour_start)
  show ?thesis
    by (rule word_unat_eq_iff [THEN iffD2]) (simp add: h)
qed

lemma complete_hour_key: "contains_complete_hour coverage (t div HOUR_US * HOUR_US) = contains_complete_hour coverage t"
  unfolding contains_complete_hour_def Let_def hour_idem ..

lemma published_records:
  "filter (published_here coverage) (decoded B ps) =
     filter (\<lambda>r. contains_complete_hour coverage (partition_timestamp_us r)) (timed B ps)"
  by (simp add: timed_def published_here_def [abs_def] conj_commute)

definition hour_batches :: "persisted_record list \<Rightarrow> persisted_record list list" where
  "hour_batches recs = map (hour_records recs) (remdups_adj (map record_hour recs))"

lemma hours_sorted:
  "sorted (map partition_timestamp_us recs) \<Longrightarrow> sorted (map record_hour recs)"
proof -
  assume s: "sorted (map partition_timestamp_us recs)"
  have "record_hour x \<le> record_hour y" if "partition_timestamp_us x \<le> partition_timestamp_us y" for x y
    using that by (simp add: record_hour_def word_le_nat_alt unat_hour_start div_le_mono)
  with s show ?thesis by (simp add: sorted_map sorted_wrt_mono_rel [of recs "\<lambda>x y. partition_timestamp_us x \<le> partition_timestamp_us y"])
qed

text \<open>What the checks between the passes guarantee of the hours that are published.\<close>

lemma span_checked:
  assumes sv: "surveyed B ps sv" and span: "recovery_span sv = Inr coverage"
  shows "timed B ps \<noteq> []" "cov_start_us coverage = partition_timestamp_us (hd (timed B ps))"
    "cov_end_us coverage = partition_timestamp_us (last (timed B ps))"
    "b \<in> set (hour_batches (filter (published_here coverage) (decoded B ps))) \<Longrightarrow>
       length b \<le> 2000000 \<and> (\<exists>h. contains_complete_hour coverage h \<and> b = hour_records (timed B ps) h \<and> hour_bytes B ps h \<le> 134217728)"
proof -
  have start: "sv_start_us sv = (if timed B ps = [] then None else Some (partition_timestamp_us (hd (timed B ps))))"
    and ends: "sv_end_us sv = (if timed B ps = [] then None else Some (partition_timestamp_us (last (timed B ps))))"
    and entry: "\<And>h. hour_entry B ps h (bt_get (sv_hours sv) h)" and bt: "bt_ok (sv_hours sv)"
    using sv by (simp_all add: surveyed_def)
  show ne: "timed B ps \<noteq> []" using span start by (auto simp: recovery_span_def)
  have cov: "coverage_new (partition_timestamp_us (hd (timed B ps))) (partition_timestamp_us (last (timed B ps))) = Inr coverage"
    and small: "find (\<lambda>(h, s). contains_complete_hour coverage h \<and> hour_too_large s) (sv_hours sv) = None"
    using span start ends ne by (auto simp: recovery_span_def Let_def split: sum.splits if_splits option.splits)
  from cov show "cov_start_us coverage = partition_timestamp_us (hd (timed B ps))"
    "cov_end_us coverage = partition_timestamp_us (last (timed B ps))"
    by (auto simp: coverage_new_def split: if_splits)
  assume "b \<in> set (hour_batches (filter (published_here coverage) (decoded B ps)))"
  then obtain r where r: "r \<in> set (timed B ps)" "contains_complete_hour coverage (partition_timestamp_us r)"
    and b: "b = hour_records (filter (\<lambda>r. contains_complete_hour coverage (partition_timestamp_us r)) (timed B ps)) (record_hour r)"
    by (auto simp: hour_batches_def published_records)
  let ?h = "record_hour r"
  have complete: "contains_complete_hour coverage ?h" using r(2) by (simp add: record_hour_def complete_hour_key)
  have "contains_complete_hour coverage (partition_timestamp_us x)" if "record_hour x = ?h" for x
    using complete complete_hour_key [of coverage "partition_timestamp_us x"] that by (simp add: record_hour_def)
  then have b': "b = hour_records (timed B ps) ?h"
    unfolding b hour_records_def by (auto intro!: filter_cong)
  then have "b \<noteq> []" using r(1) by (auto simp: hour_records_def filter_empty_conv)
  with entry [of ?h] b' obtain s where s: "bt_get (sv_hours sv) ?h = Some s"
    "unat (hs_records s) = min (length b) (2 ^ 64 - 1)" "unat (hs_encoded_bytes s) = min (hour_bytes B ps ?h) (2 ^ 64 - 1)"
    by (auto simp: hour_entry_def split: option.splits)
  then have "(?h, s) \<in> set (sv_hours sv)" using bt.entries_get [OF bt] by blast
  with small complete have "\<not> hour_too_large s" by (auto simp: find_None_iff)
  then have "unat (hs_records s) \<le> 2000000" "unat (hs_encoded_bytes s) \<le> 134217728"
    by (simp_all add: hour_too_large_def MAX_RECOVERY_HOUR_RECORDS_def MAX_RECOVERY_HOUR_ENCODED_BYTES_def not_less word_le_nat_alt)
  then show "length b \<le> 2000000 \<and> (\<exists>h. contains_complete_hour coverage h \<and> b = hour_records (timed B ps) h \<and> hour_bytes B ps h \<le> 134217728)"
    using s(2,3) complete b' by (auto simp: min_def split: if_splits)
qed

text \<open>
  C5. A reconciliation changes nothing, or it publishes the complete hours of the log: unless the store
  is untouched, the records read are every byte of the log, they all decode, their receive times do
  not decrease, and the store goes through one recovery for each UTC hour that lies strictly inside
  the span of the log, in order, with exactly the log's records of that hour and never more than the
  memory ceiling allows. It succeeds only if no superseded object is left.
\<close>

theorem reconcile_exact:
  assumes "dir_ok (wal_files w)" "list_segment_ids (wal_files w) \<noteq> []"
    and "reconcile L B P base cfg w st = (st', res)"
  shows "st' = st \<and> (res = Inr () \<longrightarrow> concat (map (file_of (wal_files w)) (list_segment_ids (wal_files w))) = []) \<or>
    (\<exists>ps coverage. concat (map (file_of (wal_files w)) (list_segment_ids (wal_files w))) = frames L ps \<and>
       (\<forall>p\<in>set ps. \<exists>r. decode B p = Inr r) \<and> timed B ps \<noteq> [] \<and> sorted (map partition_timestamp_us (timed B ps)) \<and>
       cov_start_us coverage = partition_timestamp_us (hd (timed B ps)) \<and>
       cov_end_us coverage = partition_timestamp_us (last (timed B ps)) \<and>
       (let batches = hour_batches (filter (published_here coverage) (decoded B ps))
        in (\<forall>b\<in>set batches. length b \<le> 2000000 \<and>
             (\<exists>h. contains_complete_hour coverage h \<and> b = hour_records (timed B ps) h \<and> hour_bytes B ps h \<le> 134217728)) \<and>
           (case for_each batches (publish_hour P base coverage) st of
              (st1, Inl e) \<Rightarrow> st' = st1 \<and> res = Inl e
            | (st1, Inr reports) \<Rightarrow> st' = st1 \<and>
                (res = Inr () \<longleftrightarrow> sum_list (map rp_cleanup_failures reports) = 0))))"
proof -
  let ?fs = "wal_files w" and ?r = "open_from_start cfg ''reconcile-validate'' w"
  show ?thesis
  proof (cases "\<exists>sv coverage. \<not> wal_locked w \<and> survey_loop L B ?fs ?r survey_new = Inr sv \<and> sv_wal_records sv \<noteq> 0 \<and>
      recovery_span sv = Inr coverage")
    case False
    have bytes: "concat (map (file_of ?fs) (list_segment_ids ?fs)) = frames L ps" if "strict_payloads L ?fs ?r = (ps, None)" for ps
      using strict_payloads_bytes [OF assms(1) _ that] open_strict_at [OF assms(1,2), of cfg "''reconcile-validate''"]
        rest_from_start [OF assms(1,2)] by (simp add: open_from_start_def)
    show ?thesis
    proof (cases "\<not> wal_locked w \<and> (\<exists>sv. survey_loop L B ?fs ?r survey_new = Inr sv \<and> sv_wal_records sv = 0)")
      case True
      then obtain sv ps where sv: "survey_loop L B ?fs ?r survey_new = Inr sv" "sv_wal_records sv = 0"
        and ps: "strict_payloads L ?fs ?r = (ps, None)" "survey_all B ps survey_new = Inr sv"
        using survey_loop_reads by blast
      have "surveyed B ps sv"
        using survey_all_surveyed [OF surveyed_new ps(2)] strict_payloads_length [OF ps(1)] by simp
      then have "ps = []" using sv(2) by (simp add: surveyed_def)
      with bytes [OF ps(1)] True sv assms(3) show ?thesis by (simp add: reconcile_def ret_def)
    next
      case no: False
      then have "\<exists>e. reconcile L B P base cfg w = stop e"
        using False by (cases "survey_loop L B ?fs ?r survey_new") (auto simp: reconcile_def split: sum.splits)
      with assms(3) show ?thesis by (auto simp: stop_def)
    qed
  next
    case True
    then obtain sv coverage where sv: "\<not> wal_locked w" "survey_loop L B ?fs ?r survey_new = Inr sv" "sv_wal_records sv \<noteq> 0"
      "recovery_span sv = Inr coverage" by blast
    obtain ps where ps: "strict_payloads L ?fs ?r = (ps, None)" "survey_all B ps survey_new = Inr sv"
      using survey_loop_reads [OF sv(2)] by blast
    have surv: "surveyed B ps sv"
      using survey_all_surveyed [OF surveyed_new ps(2)] strict_payloads_length [OF ps(1)] by simp
    then have dec: "\<forall>p\<in>set ps. \<exists>r. decode B p = Inr r" and srt: "sorted (map partition_timestamp_us (timed B ps))"
      by (simp_all add: surveyed_def)
    have bytes: "concat (map (file_of ?fs) (list_segment_ids ?fs)) = frames L ps"
      using strict_payloads_bytes [OF assms(1) _ ps(1)] open_strict_at [OF assms(1,2), of cfg "''reconcile-validate''"]
        rest_from_start [OF assms(1,2)] by (simp add: open_from_start_def)
    let ?pub = "filter (published_here coverage) (decoded B ps)"
    have sp: "sorted (map record_hour ?pub)"
      unfolding published_records by (rule hours_sorted) (use srt sorted_filter in blast)
    have batches: "runs record_hour ?pub = hour_batches ?pub"
      using runs_sorted [OF sp] by (simp add: hour_batches_def hour_records_def [abs_def])
    have "publish_loop L B P base coverage ?fs (open_from_start cfg ''reconcile-publish'' w) [] None empty_report =
        publish_list P base coverage ?pub [] None empty_report"
      unfolding publish_reader [of cfg "''reconcile-publish''" w "''reconcile-validate''"]
      by (rule ext) (rule publish_loop_list [OF strict_payloads_rename [OF ps(1)] dec])
    then have "reconcile L B P base cfg w = andthen (andthen (publish_list P base coverage ?pub [] None empty_report) (publish_rest P base coverage))
        (\<lambda>report. if 0 < rp_cleanup_failures report then stop (CleanupFailures (rp_cleanup_failures report)) else ret ())"
      using sv by (simp add: reconcile_def andthen_assoc)
    also have "\<dots> = andthen (for_each (hour_batches ?pub) (publish_hour P base coverage)) (\<lambda>hrs.
        let n = sum_list (map rp_cleanup_failures hrs) in if 0 < n then stop (CleanupFailures n) else ret ())"
      unfolding publish_list_all publish_all_each andthen_assoc andthen_ret batches all_failures Let_def ..
    finally have run: "(case for_each (hour_batches ?pub) (publish_hour P base coverage) st of
              (st1, Inl e) \<Rightarrow> st' = st1 \<and> res = Inl e
            | (st1, Inr reports) \<Rightarrow> st' = st1 \<and>
                (res = Inr () \<longleftrightarrow> sum_list (map rp_cleanup_failures reports) = 0))"
      using assms(3) by (auto simp: andthen_def Let_def stop_def ret_def simp del: sum_list_eq_0_iff split: prod.splits sum.splits if_splits)
    have fits: "\<forall>b\<in>set (hour_batches ?pub). length b \<le> 2000000 \<and>
        (\<exists>h. contains_complete_hour coverage h \<and> b = hour_records (timed B ps) h \<and> hour_bytes B ps h \<le> 134217728)"
      using span_checked(4) [OF surv sv(4)] by blast
    show ?thesis
      unfolding Let_def
      by (intro disjI2 exI [of _ ps] exI [of _ coverage] conjI bytes dec srt span_checked(1-3) [OF surv sv(4)] fits run)
  qed
qed

text \<open>A log of one replay validation proves no hour: the store is untouched.\<close>

definition validation_log :: wal_world where
  "validation_log = \<lparr> wal_files = [(segment_path 3, frames sum_lib [[3, 0]])], pos_files = Map.empty, wal_locked = False \<rparr>"

theorem reconcile_exact_witness:
  "\<exists>st'. reconcile sum_lib unit_bincode demo_lib ''base'' wal_config_default validation_log demo_store =
     (st', Inl (Failed NoReceiveRecords)) \<and> st' = demo_store"
proof -
  let ?w = validation_log and ?fs = "wal_files validation_log"
  have d: "dir_ok ?fs" "list_segment_ids ?fs = [3]" using single_segment_dir [of 3] by (simp_all add: validation_log_def)
  then have ne: "list_segment_ids ?fs \<noteq> []" by simp
  let ?r0 = "open_from_start wal_config_default ''reconcile-validate'' ?w"
  let ?r1 = "?r0\<lparr> current_offset := 10 \<rparr>" and ?r2 = "?r0\<lparr> current_offset := 10, available_segments := [3] \<rparr>"
  have g: "hm_get ?fs (segment_path 3) = Some (frame sum_lib [3, 0])" by (simp add: validation_log_def hm_get_def)
  have r0: "current_data ?r0 = Some (frame sum_lib [3, 0])" "current_offset ?r0 = 0" "current_segment_id ?r0 = 3"
    using d g by (simp_all add: open_from_start_def reader_at_def load_segment_def first_segment_def)
  have v: "valid_payload [3, 0]" by (simp add: valid_payload_def MAX_RECORD_SIZE_def)
  have l: "u32_from_le_bytes (slice (frame sum_lib [3, 0]) 0 4) \<noteq> 0"
    using read_record_len [of sum_lib "frame sum_lib [3, 0]" 0 3] read_frame [OF v, of sum_lib "[]" "[]" 3] by simp
  have "strict_round sum_lib ?fs ?r0 = Inr (?r1, Inr (Some [3, 0]))"
    using r0 l read_frame [OF v, of sum_lib "[]" "[]" 3]
    by (simp add: strict_round_def Let_def HEADER_SIZE_def del: One_nat_def)
  then have one: "reader_next_strict sum_lib ?fs ?r0 = (?r1, Inr (Some [3, 0]))" by (rule strict_next_done)
  have "strict_round sum_lib ?fs ?r1 = Inr (?r2, Inr None)"
    using r0 d g read_end [of sum_lib "frame sum_lib [3, 0]" 3]
    by (simp add: strict_round_def Let_def HEADER_SIZE_def advance_segment_strict_def next_available_def top_up_def)
  then have two: "reader_next_strict sum_lib ?fs ?r1 = (?r2, Inr None)" by (rule strict_next_done)
  have stops: "survey_loop sum_lib unit_bincode ?fs ?r1 sv = Inr sv" for sv
    by (subst survey_loop.simps) (simp add: two)
  have "survey_record unit_bincode [3, 0] survey_new = Inr (survey_new\<lparr> sv_wal_records := 1, sv_unsupported := 1 \<rparr>)"
    by (simp add: survey_record_def survey_new_def decode_def CURRENT_VERSION_def unit_bincode_def unit_record_def)
  then have "survey_loop sum_lib unit_bincode ?fs ?r0 survey_new =
      Inr (survey_new\<lparr> sv_wal_records := 1, sv_unsupported := 1 \<rparr>)"
    by (subst survey_loop.simps) (simp add: one stops)
  then have run: "reconcile sum_lib unit_bincode demo_lib ''base'' wal_config_default ?w demo_store =
      (demo_store, Inl (Failed NoReceiveRecords))"
    by (simp add: reconcile_def recovery_span_def survey_new_def stop_def) (simp add: validation_log_def)
  have "file_of ?fs 3 \<noteq> []" using g by (simp add: file_of_def frame_def)
  with reconcile_exact [OF d(1) ne run] run show ?thesis by simp
qed

end
