(* ===== verification/Spec2Isabelle.thy ===== *)
theory Spec2Isabelle
  imports
    PB_Prelude PB_Text PB_Maps PB_Machine Fixed Newtype Slug TimeNorm Event Book F64 FixedFloat
    Labels Frame WalWriter WalReader Dispatcher DispatchBooks ShadowBook Replay ReplayChecks Rows
    BatchParts Partition ObjectStore ParquetWriter ParquetReader StorePaths Recovery StoreWrite
    ParquetSink RecoveryBatch StoreRead Dto LiveState LiveSlots LiveBook Streaming Projector
    FeedToLive LiveModel Hydration Reconcile
begin

text \<open>
  poly-book ingests the Polymarket order book feed, keeps it in a write-ahead log, stores it in
  hourly Parquet partitions and answers replay and live queries. This development models the
  core of those steps as executable HOL functions and proves what each promises. The root theory
  holds only this text; each component has its own theory, named below with the crate files it
  models. A Rust \<open>Result\<close> is a sum \<open>error + value\<close>; an operation that can abort the process returns
  an \<open>option\<close> around it (\<open>None\<close> is the abort); machine integers are words of their width.

  \<^bold>\<open>Shared vocabulary.\<close> \<open>PB_Prelude\<close>: words, checked and saturating arithmetic. \<open>PB_Text\<close>: ASCII text,
  decimal and hexadecimal numerals, splitting. \<open>PB_Maps\<close>: the interfaces of the standard maps
  (locales \<open>kv_map\<close>, \<open>ordered_kv\<close>) with the entry lists that model \<open>BTreeMap\<close> and \<open>HashMap\<close>.
  \<open>PB_Machine\<close>: step machines with an invariant (locale \<open>machine\<close>) and simulation of a specification
  (locale \<open>simulation\<close>), interpreted on the order book and on the dispatcher.

  \<^bold>\<open>pb-types.\<close> \<open>Fixed\<close> (fixed.rs, error.rs): prices and sizes, the exact decimal parser, display and
  serde forms. \<open>Newtype\<close> (newtype.rs): storage keys and object file names, the wrapping sequence.
  \<open>Slug\<close> (slug.rs), \<open>TimeNorm\<close> (time.rs), \<open>Event\<close> (event.rs): the records every other part exchanges.

  \<^bold>\<open>pb-book.\<close> \<open>Book\<close> (book.rs): the L2 book with its running totals; it is proved a refinement of two
  plain price maps, aborts included.

  \<^bold>\<open>pb-wal.\<close> \<open>Frame\<close> (segment.rs, codec.rs): frames and the recovery scan. \<open>WalWriter\<close> (writer.rs,
  segment.rs): append, rotation, reopening after a crash, pruning. \<open>WalReader\<close> (reader.rs): tailing and
  strict reading, committed positions, lag. The checksum and the serialiser are parameters; the
  file system is a map from names to bytes.

  \<^bold>\<open>pb-feed.\<close> \<open>Dispatcher\<close> (dispatcher.rs): every message handler over the dispatcher's state, with the
  invariant that the numbering of the emitted records has no gaps. \<open>DispatchBooks\<close>: a snapshot takes
  effect completely or not at all. \<open>ShadowBook\<close>: the dispatcher's shadow book is the book downstream,
  and its cross-check against the venue is exact.

  \<^bold>\<open>pb-replay.\<close> \<open>Labels\<close> (labels and errors of reader.rs, error.rs), \<open>Replay\<close> and \<open>ReplayChecks\<close> (engine.rs):
  ordering, seeding, continuity resets, reconstruction and validation over any storage reader.

  \<^bold>\<open>pb-store and the Parquet reader.\<close> \<open>Rows\<close> (schema.rs and the row readers of reader.rs): records to columns
  and back. \<open>Partition\<close> (writer.rs, reader.rs): hourly partitions, coverage of a recovery, the hours a
  read visits. Arrow, the JSON text of levels and the calendar are parameters whose documented
  laws are named hypotheses (\<open>arrow_ok\<close>, \<open>json_ok\<close>, \<open>calendar_ok\<close>), each with a concrete instance.

  \<^bold>\<open>Bounds.\<close> Loops are structural or have a measure; no fuel is used in the models.

  \<^bold>\<open>Not modelled.\<close> Floating point views (\<open>f64\<close> conversions, mid price, weighted mid), metrics and logging,
  HTTP and WebSocket transport, REST clients, the command line and its settings, timers and
  locks, operating system errors and \<open>fsync\<close> of the log, and the benchmarks.
\<close>

end
